(* ===== verification/Prelude.thy ===== *)
theory Prelude
  imports Main "HOL-Library.Word"
begin

unbundle bit_operations_syntax

text \<open>
  Shared vocabulary of the development: the machine types of \<open>kernel/types.h\<close>, the
  result type of kernel code that may \<open>panic\<close>, byte-addressed physical memory with its
  little-endian loads and stores, and the lemmas on words, lists and memory that the
  component theories use.
\<close>

section \<open>Machine types\<close>

type_synonym u8 = "8 word"
type_synonym u16 = "16 word"
type_synonym u32 = "32 word"
type_synonym u64 = "64 word"

text \<open>A physical (and, by the kernel's direct map, kernel virtual) address.\<close>
type_synonym addr = "64 word"

text \<open>Byte-addressed memory.\<close>
type_synonym bytemem = "64 word \<Rightarrow> 8 word"

named_theorems mem_simps \<open>loads over stores\<close>
named_theorems range_simps \<open>membership of address ranges\<close>
named_theorems kres_simps \<open>the panic monad\<close>

section \<open>Results of kernel code\<close>

text \<open>
  A kernel routine returns or calls \<open>panic(msg)\<close>, which never returns. \<open>Block\<close> is the
  outcome of a routine that has to wait, asleep on the named channel or spinning on the named
  lock, until another thread of control acts; \<open>Diverge\<close> is the outcome of a recursion
  or loop that exceeds the bound its model gives it, of a loop that never ends, and of code
  whose behaviour the language leaves undefined.
\<close>

datatype 'a kres = Ret 'a | Panic string | Block string | Diverge

primrec kbind :: "'a kres \<Rightarrow> ('a \<Rightarrow> 'b kres) \<Rightarrow> 'b kres" where
  "kbind (Ret x) f = f x"
| "kbind (Panic e) f = Panic e"
| "kbind (Block c) f = Block c"
| "kbind Diverge f = Diverge"

lemma kbind_Ret_iff [kres_simps]: "kbind m f = Ret y \<longleftrightarrow> (\<exists>x. m = Ret x \<and> f x = Ret y)"
  by (cases m) auto

lemma kbind_Panic_iff [kres_simps]:
  "kbind m f = Panic e \<longleftrightarrow> m = Panic e \<or> (\<exists>x. m = Ret x \<and> f x = Panic e)"
  by (cases m) auto

lemma kbind_cong [fundef_cong]:
  "m = m' \<Longrightarrow> (\<And>x. m' = Ret x \<Longrightarrow> f x = f' x) \<Longrightarrow> kbind m f = kbind m' f'"
  by (cases m') auto

lemma kbind_assoc: "kbind (kbind m f) g = kbind m (\<lambda>x. kbind (f x) g)"
  by (cases m) auto

lemma kbind_Ret_right [simp]: "kbind m Ret = m"
  by (cases m) auto

text \<open>Routines that also change a state, and how they are composed.\<close>

type_synonym ('s, 'a) kop = "'s \<Rightarrow> ('a \<times> 's) kres"

definition kret :: "'a \<Rightarrow> ('s, 'a) kop" where
  "kret x s = Ret (x, s)"

definition kthen :: "('s, 'a) kop \<Rightarrow> ('a \<Rightarrow> ('s, 'b) kop) \<Rightarrow> ('s, 'b) kop" where
  "kthen m f s = kbind (m s) (\<lambda>(x, s1). f x s1)"

definition kget :: "('s \<Rightarrow> 'a) \<Rightarrow> ('s, 'a) kop" where
  "kget f s = Ret (f s, s)"

definition kmod :: "('s \<Rightarrow> 's) \<Rightarrow> ('s, unit) kop" where
  "kmod f s = Ret ((), f s)"

definition kpanic :: "string \<Rightarrow> ('s, 'a) kop" where
  "kpanic msg s = Panic msg"

definition kblock :: "string \<Rightarrow> ('s, 'a) kop" where
  "kblock c s = Block c"

definition kwhen :: "bool \<Rightarrow> ('s, unit) kop \<Rightarrow> ('s, unit) kop" where
  "kwhen b m = (if b then m else kret ())"

fun kfor :: "'i list \<Rightarrow> ('i \<Rightarrow> ('s, unit) kop) \<Rightarrow> ('s, unit) kop" where
  "kfor [] f = kret ()"
| "kfor (i # is) f = kthen (f i) (\<lambda>_. kfor is f)"

lemmas kop_defs = kret_def kthen_def kget_def kmod_def kpanic_def kblock_def kwhen_def

lemma kthen_cong [fundef_cong]:
  "m s = m' s \<Longrightarrow> s = s' \<Longrightarrow> (\<And>x s1. m' s' = Ret (x, s1) \<Longrightarrow> f x s1 = f' x s1) \<Longrightarrow>
   kthen m f s = kthen m' f' s'"
  by (cases "m' s'") (auto simp: kthen_def)

lemma kthen_Ret_iff [kres_simps]:
  "kthen m f s = Ret (y, s2) \<longleftrightarrow> (\<exists>x s1. m s = Ret (x, s1) \<and> f x s1 = Ret (y, s2))"
  by (cases "m s") (auto simp: kthen_def)

lemma kfor_snoc: "kfor (xs @ [x]) f s = kthen (kfor xs f) (\<lambda>_. f x) s"
proof (induction xs arbitrary: s)
  case (Cons y ys)
  then show ?case
    by (cases "f y s") (auto simp: kthen_def)
next
  case Nil
  show ?case by (cases "f x s") (auto simp: kthen_def kret_def)
qed

lemma kfor_frame:
  assumes "\<And>i s s1. f i s = Ret ((), s1) \<Longrightarrow> g s1 = g s"
  shows "kfor is f s = Ret ((), s1) \<Longrightarrow> g s1 = g s"
proof (induction "is" arbitrary: s)
  case Nil
  then show ?case by (simp add: kret_def)
next
  case (Cons i "is")
  then obtain s2 where "f i s = Ret ((), s2)" "kfor is f s2 = Ret ((), s1)"
    by (auto simp: kthen_Ret_iff)
  then show ?case using Cons.IH assms by metis
qed

section \<open>Words as natural numbers\<close>

lemma unat_of_nat_64 [simp]: "k < 2 ^ 64 \<Longrightarrow> unat (of_nat k :: u64) = k"
  by (simp add: unat_of_nat)

lemma unat_ucast_64 [simp]: "unat (ucast (n :: u32) :: u64) = unat n"
proof -
  have "unat n < 2 ^ 32" using unsigned_less [of n, where ?'a = nat] by simp
  then show ?thesis by (simp add: unsigned_ucast_eq take_bit_nat_eq_self)
qed

lemma unat_less_32: "unat (n :: u32) < 2 ^ 32"
  using unsigned_less [of n, where ?'a = nat] by simp

lemma unat_less_64: "unat (n :: u64) < 2 ^ 64"
  using unsigned_less [of n, where ?'a = nat] by simp

lemma unat_eqD: "unat x = unat y \<Longrightarrow> x = y"
  by (simp add: unsigned_word_eqI)

lemma unat_plus_of_nat: "unat p + k < 2 ^ 64 \<Longrightarrow> unat (p + of_nat k :: u64) = unat p + k"
  by (subst unat_add_lem [THEN iffD1]) simp_all

lemma of_nat_eq_diff: "unat (a - b) = k \<Longrightarrow> a = (b :: u64) + of_nat k"
  by auto

section \<open>Address ranges\<close>

text \<open>
  \<open>in_range a base n\<close>: the address \<open>a\<close> is one of the \<open>n\<close> bytes from \<open>base\<close> on. The
  offset is taken modulo \<open>2 ^ 64\<close>, so no side condition on overflow is needed.
\<close>

definition in_range :: "addr \<Rightarrow> addr \<Rightarrow> nat \<Rightarrow> bool" where
  "in_range a base n \<longleftrightarrow> unat (a - base) < n"

lemma in_range_0 [simp]: "\<not> in_range a base 0"
  by (simp add: in_range_def)

lemma in_range_base [simp]: "in_range base base n \<longleftrightarrow> 0 < n"
  by (simp add: in_range_def)

lemma in_range_offset [range_simps]:
  "k < 2 ^ 64 \<Longrightarrow> in_range (base + of_nat k) base n \<longleftrightarrow> k < n"
  by (simp add: in_range_def unat_of_nat)

lemma in_range_nowrap:
  assumes "unat base + n \<le> 2 ^ 64"
  shows "in_range a base n \<longleftrightarrow> unat base \<le> unat a \<and> unat a < unat base + n"
proof (cases "base \<le> a")
  case True
  then have "unat (a - base) = unat a - unat base"
    by (simp add: unat_sub)
  with True show ?thesis
    by (auto simp: in_range_def word_le_nat_alt)
next
  case False
  then have lt: "a < base" by simp
  then have "unat a < unat base" by (simp add: word_less_nat_alt)
  moreover have "unat (a - base) = unat a + 2 ^ 64 - unat base"
    using lt by (simp add: unat_sub_if_size word_less_nat_alt word_le_nat_alt wsst_TYs)
  ultimately show ?thesis using assms by (auto simp: in_range_def)
qed

section \<open>Little-endian loads and stores\<close>

text \<open>The \<open>k\<close>-byte little-endian value at an address, and a store of one.\<close>

fun load_le :: "nat \<Rightarrow> bytemem \<Rightarrow> addr \<Rightarrow> 'a::len word" where
  "load_le 0 m a = 0"
| "load_le (Suc k) m a = ucast (m a) OR push_bit 8 (load_le k m (a + 1))"

fun store_le :: "nat \<Rightarrow> bytemem \<Rightarrow> addr \<Rightarrow> 'a::len word \<Rightarrow> bytemem" where
  "store_le 0 m a v = m"
| "store_le (Suc k) m a v = store_le k (m(a := ucast v)) (a + 1) (drop_bit 8 v)"

definition load64 :: "bytemem \<Rightarrow> addr \<Rightarrow> u64" where
  "load64 m a = load_le 8 m a"

definition store64 :: "bytemem \<Rightarrow> addr \<Rightarrow> u64 \<Rightarrow> bytemem" where
  "store64 m a v = store_le 8 m a v"

definition load32 :: "bytemem \<Rightarrow> addr \<Rightarrow> u32" where
  "load32 m a = load_le 4 m a"

definition store32 :: "bytemem \<Rightarrow> addr \<Rightarrow> u32 \<Rightarrow> bytemem" where
  "store32 m a v = store_le 4 m a v"

lemma bit_load_le:
  "bit (load_le k m a :: 'a::len word) n \<longleftrightarrow>
     n < LENGTH('a) \<and> n < 8 * k \<and> bit (m (a + of_nat (n div 8))) (n mod 8)"
proof (induction k arbitrary: a n)
  case 0
  then show ?case by simp
next
  case (Suc k)
  show ?case
  proof (cases "n < 8")
    case True
    then show ?thesis by (auto simp: bit_or_iff bit_push_bit_iff bit_unsigned_iff)
  next
    case False
    then obtain p where n: "n = p + 8" by (metis add.commute le_Suc_ex not_less)
    have "(p + 8) div 8 = Suc (p div 8)" by simp
    then have step: "a + word_of_nat ((p + 8) div 8) = a + 1 + word_of_nat (p div 8)" by simp
    have "\<not> bit (m a) n" using False bit_imp_le_length [of "m a" n] by auto
    then show ?thesis using False Suc.IH [of "a + 1" p]
      unfolding n step by (auto simp: bit_or_iff bit_push_bit_iff bit_unsigned_iff)
  qed
qed

lemma unat_plus_one: "x \<noteq> - 1 \<Longrightarrow> unat ((x :: u64) + 1) = Suc (unat x)"
  by (metis add.commute unatSuc add_eq_0_iff)

lemma store_le_apply:
  assumes "k < 2 ^ 64"
  shows "store_le k m a (v :: 'a::len word) x =
    (if unat (x - a) < k then ucast (drop_bit (8 * unat (x - a)) v) else m x)"
  using assms
proof (induction k arbitrary: m a v)
  case 0
  then show ?case by simp
next
  case (Suc k)
  have k: "k < 2 ^ 64" using Suc.prems by simp
  show ?case
  proof (cases "x = a")
    case True
    then have "unat (x - (a + 1)) = 2 ^ 64 - 1" by (simp add: unsigned_minus_1_eq_mask mask_eq_exp_minus_1)
    moreover have "store_le (Suc k) m a v x =
      (if unat (x - (a + 1)) < k then ucast (drop_bit (8 * unat (x - (a + 1))) (drop_bit 8 v))
       else (m(a := ucast v)) x)"
      by (simp add: Suc.IH [OF k] del: fun_upd_apply)
    ultimately show ?thesis using True Suc.prems by simp
  next
    case False
    then have ne: "x - (a + 1) \<noteq> - 1" by auto
    have "unat (x - a) = Suc (unat (x - (a + 1)))"
      using unat_plus_one [OF ne] by (simp add: algebra_simps)
    then show ?thesis using False by (simp add: Suc.IH [OF k] add.commute)
  qed
qed

lemma load_le_cong: "(\<And>i. i < k \<Longrightarrow> m (a + of_nat i) = m' (a + of_nat i)) \<Longrightarrow>
  (load_le k m a :: 'a::len word) = load_le k m' a"
  by (rule bit_word_eqI) (auto simp: bit_load_le)

lemma load_store_le_other:
  assumes "k' < 2 ^ 64" and "\<And>i. i < k \<Longrightarrow> \<not> in_range (a + of_nat i) b k'"
  shows "(load_le k (store_le k' m b (v :: 'b::len word)) a :: 'a::len word) = load_le k m a"
  using assms by (intro load_le_cong) (simp add: store_le_apply in_range_def)

lemma load_store_le_same:
  assumes "LENGTH('a::len) = 8 * k" and "k < 2 ^ 64"
  shows "load_le k (store_le k m a (v :: 'a word)) a = v"
proof (rule bit_word_eqI)
  fix n assume n: "n < LENGTH('a)"
  then have d: "n div 8 < k" using assms by auto
  then have u: "unat (word_of_nat (n div 8) :: u64) = n div 8"
    using assms(2) by (simp add: unat_of_nat)
  have "8 * (n div 8) + n mod 8 = n" by simp
  then show "bit (load_le k (store_le k m a v) a :: 'a word) n = bit v n"
    using n d u assms by (simp add: bit_load_le store_le_apply bit_unsigned_iff bit_drop_bit_eq)
qed

lemma load64_store64_same [mem_simps]: "load64 (store64 m a v) a = v"
  by (simp add: load64_def store64_def load_store_le_same)

lemma load32_store32_same [mem_simps]: "load32 (store32 m a v) a = v"
  by (simp add: load32_def store32_def load_store_le_same)

text \<open>Eight-byte aligned slots either coincide or do not overlap.\<close>

definition aligned8 :: "addr \<Rightarrow> bool" where
  "aligned8 a \<longleftrightarrow> 8 dvd unat a"

lemma aligned8_disjoint:
  assumes "aligned8 a" "aligned8 b" "a \<noteq> b" "i < 8"
  shows "\<not> in_range (a + of_nat i) b 8"
proof
  assume r: "in_range (a + of_nat i) b 8"
  from assms(1) obtain p where p: "unat a = 8 * p" by (auto simp: aligned8_def elim: dvdE)
  from assms(2) obtain q where q: "unat b = 8 * q" by (auto simp: aligned8_def elim: dvdE)
  have "unat a < 2 ^ 64" "unat b < 2 ^ 64" using unsigned_less [of a, where ?'a = nat] unsigned_less [of b, where ?'a = nat] by simp_all
  then have pq: "8 * p + 8 \<le> 2 ^ 64" "8 * q + 8 \<le> 2 ^ 64" using p q by auto
  have ai: "unat (a + of_nat i) = 8 * p + i"
    using p pq assms(4) by (simp add: unat_word_ariths unat_of_nat)
  from r ai q pq have "8 * q \<le> 8 * p + i \<and> 8 * p + i < 8 * q + 8"
    by (simp add: in_range_nowrap)
  with assms(4) have "p = q" by linarith
  with p q have "unat a = unat b" by simp
  with assms(3) show False by (simp add: unsigned_word_eqI)
qed

lemma load64_store64_other [mem_simps]:
  "aligned8 a \<Longrightarrow> aligned8 b \<Longrightarrow> a \<noteq> b \<Longrightarrow> load64 (store64 m b v) a = load64 m a"
  unfolding load64_def store64_def
  by (rule load_store_le_other) (simp_all add: aligned8_disjoint)

lemma store64_apply: "store64 m a v x = (if in_range x a 8 then ucast (drop_bit (8 * unat (x - a)) v) else m x)"
  by (simp add: store64_def store_le_apply in_range_def)

lemma load64_cong: "(\<And>x. in_range x a 8 \<Longrightarrow> m x = m' x) \<Longrightarrow> load64 m a = load64 m' a"
  unfolding load64_def by (rule load_le_cong) (simp add: in_range_offset)

end
