(* ===== verification/Riscv.thy ===== *)
theory Riscv
  imports Prelude
begin

text \<open>
  The constants and macros of \<open>kernel/riscv.h\<close>, \<open>kernel/memlayout.h\<close> and
  \<open>kernel/param.h\<close>: pages, Sv39 page-table entries and indices, and the address-space
  layout, with the arithmetic facts the memory-management components rest on.
\<close>

section \<open>Constants\<close>

definition NPROC :: nat where "NPROC = 64"
definition NOFILE :: nat where "NOFILE = 16"
definition USERSTACK :: u64 where "USERSTACK = 1"

definition PGSIZE :: u64 where "PGSIZE = 4096"
definition KERNBASE :: u64 where "KERNBASE = 0x80000000"
definition PHYSTOP :: u64 where "PHYSTOP = KERNBASE + 128 * 1024 * 1024"
definition UART0 :: u64 where "UART0 = 0x10000000"
definition VIRTIO0 :: u64 where "VIRTIO0 = 0x10001000"
definition PLIC :: u64 where "PLIC = 0x0c000000"

definition MAXVA :: u64 where "MAXVA = push_bit (9 + 9 + 9 + 12 - 1) 1"
definition TRAMPOLINE :: u64 where "TRAMPOLINE = MAXVA - PGSIZE"
definition TRAPFRAME :: u64 where "TRAPFRAME = TRAMPOLINE - PGSIZE"

definition KSTACK :: "u64 \<Rightarrow> u64" where
  "KSTACK p = TRAMPOLINE - (p + 1) * 2 * PGSIZE"

definition PTE_V :: u64 where "PTE_V = push_bit 0 1"
definition PTE_R :: u64 where "PTE_R = push_bit 1 1"
definition PTE_W :: u64 where "PTE_W = push_bit 2 1"
definition PTE_X :: u64 where "PTE_X = push_bit 3 1"
definition PTE_U :: u64 where "PTE_U = push_bit 4 1"
definition PTE_COW :: u64 where "PTE_COW = push_bit 8 1"

lemmas PTE_defs = PTE_V_def PTE_R_def PTE_W_def PTE_X_def PTE_U_def PTE_COW_def

lemmas layout_defs = PGSIZE_def KERNBASE_def PHYSTOP_def UART0_def VIRTIO0_def PLIC_def
  MAXVA_def TRAMPOLINE_def TRAPFRAME_def

section \<open>Macros\<close>

definition PGROUNDUP :: "u64 \<Rightarrow> u64" where
  "PGROUNDUP sz = (sz + PGSIZE - 1) AND NOT (PGSIZE - 1)"

definition PGROUNDDOWN :: "u64 \<Rightarrow> u64" where
  "PGROUNDDOWN a = a AND NOT (PGSIZE - 1)"

definition PA2PTE :: "u64 \<Rightarrow> u64" where
  "PA2PTE pa = push_bit 10 (drop_bit 12 pa)"

definition PTE2PA :: "u64 \<Rightarrow> u64" where
  "PTE2PA pte = push_bit 12 (drop_bit 10 pte)"

definition PTE_FLAGS :: "u64 \<Rightarrow> u64" where
  "PTE_FLAGS pte = pte AND 0x3FF"

definition PXSHIFT :: "nat \<Rightarrow> nat" where
  "PXSHIFT level = 12 + 9 * level"

definition PX :: "nat \<Rightarrow> u64 \<Rightarrow> u64" where
  "PX level va = drop_bit (PXSHIFT level) va AND 0x1FF"

definition MAKE_SATP :: "u64 \<Rightarrow> u64" where
  "MAKE_SATP pagetable = push_bit 60 8 OR drop_bit 12 pagetable"

section \<open>Bit views of the macros\<close>

lemma numeral_masks:
  "(0x1FF :: u64) = mask 9" "(0x3FF :: u64) = mask 10" "(4095 :: u64) = mask 12"
  by (simp_all add: mask_eq_exp_minus_1)

lemma PGSIZE_mask: "PGSIZE - 1 = mask 12"
  by (simp add: PGSIZE_def mask_eq_exp_minus_1)

lemma mod_PGSIZE: "a mod PGSIZE = take_bit 12 a"
  by (simp add: PGSIZE_def take_bit_eq_mod)

lemma div_PGSIZE: "a div PGSIZE = drop_bit 12 a"
  by (simp add: PGSIZE_def drop_bit_eq_div)

lemma PGROUNDDOWN_bits: "PGROUNDDOWN a = push_bit 12 (drop_bit 12 a)"
  unfolding PGROUNDDOWN_def PGSIZE_mask
  by (rule bit_word_eqI) (auto simp: bit_simps)

lemma PTE_FLAGS_bits: "PTE_FLAGS pte = take_bit 10 pte"
  by (simp add: PTE_FLAGS_def numeral_masks take_bit_eq_mask)

lemma PX_bits: "PX l va = take_bit 9 (drop_bit (PXSHIFT l) va)"
  by (simp add: PX_def numeral_masks take_bit_eq_mask)

lemma bit_PTE [simp]:
  "bit PTE_V n \<longleftrightarrow> n = 0" "bit PTE_R n \<longleftrightarrow> n = 1" "bit PTE_W n \<longleftrightarrow> n = 2"
  "bit PTE_X n \<longleftrightarrow> n = 3" "bit PTE_U n \<longleftrightarrow> n = 4" "bit PTE_COW n \<longleftrightarrow> n = 8"
  unfolding PTE_defs bit_push_bit_iff by (auto simp: bit_1_iff)

lemma and_single_bit:
  "(\<And>n. bit m n \<longleftrightarrow> n = k) \<Longrightarrow> pte AND m = 0 \<longleftrightarrow> \<not> bit (pte :: u64) k"
  using bit_imp_le_length [of pte k] by (auto simp: bit_eq_iff [of "pte AND m" 0] bit_and_iff)

lemma and_PTE_eq_0:
  "pte AND PTE_V = 0 \<longleftrightarrow> \<not> bit pte 0" "pte AND PTE_R = 0 \<longleftrightarrow> \<not> bit pte 1"
  "pte AND PTE_W = 0 \<longleftrightarrow> \<not> bit pte 2" "pte AND PTE_X = 0 \<longleftrightarrow> \<not> bit pte 3"
  "pte AND PTE_U = 0 \<longleftrightarrow> \<not> bit pte 4" "pte AND PTE_COW = 0 \<longleftrightarrow> \<not> bit pte 8"
  by (rule and_single_bit, simp)+

section \<open>Page-table entries carry their page and their flags\<close>

lemma PTE2PA_PA2PTE:
  assumes "take_bit 10 f = f"
  shows "PTE2PA (PA2PTE pa OR f) = PGROUNDDOWN pa"
proof (rule bit_word_eqI)
  fix n assume n: "n < LENGTH(64)"
  have "\<not> bit f n" if "10 \<le> n" for n
    using that by (subst assms [symmetric]) (simp add: bit_simps)
  with n show "bit (PTE2PA (PA2PTE pa OR f)) n = bit (PGROUNDDOWN pa) n"
    by (auto simp: PTE2PA_def PA2PTE_def PGROUNDDOWN_bits bit_simps)
qed

lemma PTE_FLAGS_PA2PTE:
  assumes "take_bit 10 f = f"
  shows "PTE_FLAGS (PA2PTE pa OR f) = f"
proof (rule bit_word_eqI)
  fix n assume n: "n < LENGTH(64)"
  have "\<not> bit f n" if "10 \<le> n" for n
    using that by (subst assms [symmetric]) (simp add: bit_simps)
  with n show "bit (PTE_FLAGS (PA2PTE pa OR f)) n = bit f n"
    by (cases "10 \<le> n") (auto simp: PTE_FLAGS_bits PA2PTE_def bit_simps)
qed

lemma bit_PA2PTE_low: "n < 10 \<Longrightarrow> \<not> bit (PA2PTE pa) n"
  by (simp add: PA2PTE_def bit_simps)

lemma take_bit_PTE2PA [simp]: "take_bit 12 (PTE2PA pte) = 0"
  by (rule bit_word_eqI) (auto simp: PTE2PA_def bit_simps)

section \<open>Page rounding\<close>

lemma PGROUNDDOWN_aligned [simp]: "take_bit 12 (PGROUNDDOWN a) = 0"
  by (rule bit_word_eqI) (auto simp: PGROUNDDOWN_bits bit_simps)

lemma PGROUNDDOWN_plus: "PGROUNDDOWN a + take_bit 12 a = a"
  by (simp only: PGROUNDDOWN_bits bits_ident)

lemma PGROUNDDOWN_id: "take_bit 12 a = 0 \<Longrightarrow> PGROUNDDOWN a = a"
  using PGROUNDDOWN_plus [of a] by simp

lemma unat_PGROUNDDOWN: "unat (PGROUNDDOWN a) = 4096 * (unat a div 4096)"
proof -
  have "PGROUNDDOWN a = a - take_bit 12 a" by (metis PGROUNDDOWN_plus add_diff_cancel_right')
  moreover have "take_bit 12 a \<le> a" by (simp add: word_le_nat_alt unsigned_take_bit_eq take_bit_nat_def)
  moreover have "unat (take_bit 12 a) = unat a mod 4096"
    by (simp add: unsigned_take_bit_eq take_bit_nat_def)
  ultimately have "unat (PGROUNDDOWN a) = unat a - unat a mod 4096"
    by (simp only: unat_sub)
  then show ?thesis by (simp add: minus_mod_eq_mult_div)
qed

lemma PGROUNDDOWN_le: "PGROUNDDOWN a \<le> a"
  by (simp add: word_le_nat_alt unat_PGROUNDDOWN)

lemma PGROUNDUP_eq: "PGROUNDUP sz = PGROUNDDOWN (sz + 4095)"
  by (simp add: PGROUNDUP_def PGROUNDDOWN_def PGSIZE_def add.commute)

lemma unat_PGROUNDUP:
  "unat sz + 4095 < 2 ^ 64 \<Longrightarrow> unat (PGROUNDUP sz) = 4096 * ((unat sz + 4095) div 4096)"
  by (simp add: PGROUNDUP_eq unat_PGROUNDDOWN unat_word_ariths)

section \<open>Virtual addresses are determined by their indices\<close>

lemma PX_less: "PX l va < 512"
proof -
  have "PX l va \<le> 0x1FF" by (simp add: PX_def word_and_le1)
  then show ?thesis by (simp add: word_le_nat_alt word_less_nat_alt)
qed

lemma bit_high_MAXVA: "va < MAXVA \<Longrightarrow> 38 \<le> n \<Longrightarrow> \<not> bit va n"
proof -
  assume "va < MAXVA" "38 \<le> n"
  then have "unat va < 2 ^ 38" by (simp add: MAXVA_def word_less_nat_alt)
  also have "(2::nat) ^ 38 \<le> 2 ^ n" using \<open>38 \<le> n\<close> by (intro power_increasing) auto
  finally have "unat va div 2 ^ n = 0" by simp
  then have "\<not> bit (unat va) n" by (simp add: bit_iff_odd)
  then show ?thesis by (simp add: bit_unsigned_iff) 
qed

text \<open>
  The three nine-bit indices that \<open>walk\<close> uses and the page offset cover all 39 bits of
  a virtual address below \<open>MAXVA\<close>, so two pages with the same indices are the same page.
\<close>

lemma PX_inject:
  assumes "va < MAXVA" "va' < MAXVA" "take_bit 12 va = 0" "take_bit 12 va' = 0"
    and "PX 2 va = PX 2 va'" "PX 1 va = PX 1 va'" "PX 0 va = PX 0 va'"
  shows "va = va'"
proof (rule bit_word_eqI)
  fix n assume n: "n < LENGTH(64)"
  have px: "bit va (12 + 9 * l + k) = bit va' (12 + 9 * l + k)"
    if "PX l va = PX l va'" "k < 9" for l k
    using that by (auto simp: PX_bits PXSHIFT_def bit_eq_iff bit_simps add.commute add.left_commute dest: spec [of _ k])
  have low: "\<not> bit va n \<and> \<not> bit va' n" if "n < 12"
    using assms(3,4) that by (auto simp: bit_eq_iff bit_simps)
  consider "n < 12" | "12 \<le> n" "n < 21" | "21 \<le> n" "n < 30" | "30 \<le> n" "n < 39" | "39 \<le> n"
    by linarith
  then show "bit va n = bit va' n"
  proof cases
    case 1 then show ?thesis using low by blast
  next
    case 2 then show ?thesis using px [OF assms(7), of "n - 12"] by simp
  next
    case 3 then show ?thesis using px [OF assms(6), of "n - 21"] by simp
  next
    case 4 then show ?thesis using px [OF assms(5), of "n - 30"] by simp
  next
    case 5 then show ?thesis using bit_high_MAXVA assms(1,2) by auto
  qed
qed

end
