(* ===== verification/Cstring.thy ===== *)
theory Cstring
  imports Riscv
begin

text \<open>
  \<open>kernel/string.c\<close>: the byte-copying and C-string routines, as functions on
  byte-addressed memory. Pointers are addresses, loops are recursions on the number of
  iterations left, and \<open>strlen\<close>, which has no bound, is a partial function.
\<close>

section \<open>Blocks of memory\<close>

text \<open>\<open>memset\<close>: the loop over \<open>i\<close>.\<close>

fun memset_loop :: "bytemem \<Rightarrow> addr \<Rightarrow> u8 \<Rightarrow> nat \<Rightarrow> nat \<Rightarrow> bytemem" where
  "memset_loop m dst c i 0 = m"
| "memset_loop m dst c i (Suc k) = memset_loop (m(dst + of_nat i := c)) dst c (Suc i) k"

definition memset :: "bytemem \<Rightarrow> addr \<Rightarrow> u32 \<Rightarrow> u32 \<Rightarrow> bytemem" where
  "memset m dst c n = memset_loop m dst (ucast c) 0 (unat n)"

fun memcmp_loop :: "bytemem \<Rightarrow> addr \<Rightarrow> addr \<Rightarrow> nat \<Rightarrow> int" where
  "memcmp_loop m s1 s2 0 = 0"
| "memcmp_loop m s1 s2 (Suc n) =
     (if m s1 \<noteq> m s2 then uint (m s1) - uint (m s2) else memcmp_loop m (s1 + 1) (s2 + 1) n)"

definition memcmp :: "bytemem \<Rightarrow> addr \<Rightarrow> addr \<Rightarrow> u32 \<Rightarrow> int" where
  "memcmp m v1 v2 n = memcmp_loop m v1 v2 (unat n)"

text \<open>The two loops of \<open>memmove\<close>: \<open>*d++ = *s++\<close> and \<open>*--d = *--s\<close>.\<close>

fun copy_up :: "nat \<Rightarrow> bytemem \<Rightarrow> addr \<Rightarrow> addr \<Rightarrow> bytemem" where
  "copy_up 0 m d s = m"
| "copy_up (Suc n) m d s = copy_up n (m(d := m s)) (d + 1) (s + 1)"

fun copy_down :: "nat \<Rightarrow> bytemem \<Rightarrow> addr \<Rightarrow> addr \<Rightarrow> bytemem" where
  "copy_down 0 m d s = m"
| "copy_down (Suc n) m d s = copy_down n (m(d - 1 := m (s - 1))) (d - 1) (s - 1)"

definition memmove :: "bytemem \<Rightarrow> addr \<Rightarrow> addr \<Rightarrow> u32 \<Rightarrow> bytemem" where
  "memmove m dst src n =
     (if n = 0 then m
      else if src < dst \<and> src + ucast n > dst
      then copy_down (unat n) m (dst + ucast n) (src + ucast n)
      else copy_up (unat n) m dst src)"

definition memcpy :: "bytemem \<Rightarrow> addr \<Rightarrow> addr \<Rightarrow> u32 \<Rightarrow> bytemem" where
  "memcpy m dst src n = memmove m dst src n"

section \<open>C strings\<close>

fun strncmp_loop :: "bytemem \<Rightarrow> addr \<Rightarrow> addr \<Rightarrow> nat \<Rightarrow> int" where
  "strncmp_loop m p q 0 = 0"
| "strncmp_loop m p q (Suc n) =
     (if m p \<noteq> 0 \<and> m p = m q then strncmp_loop m (p + 1) (q + 1) n
      else uint (m p) - uint (m q))"

definition strncmp :: "bytemem \<Rightarrow> addr \<Rightarrow> addr \<Rightarrow> u32 \<Rightarrow> int" where
  "strncmp m p q n = strncmp_loop m p q (unat n)"

text \<open>\<open>strncpy\<close>: the copying loop up to and including a NUL, then the padding loop.\<close>

fun zero_fill :: "nat \<Rightarrow> bytemem \<Rightarrow> addr \<Rightarrow> bytemem" where
  "zero_fill 0 m s = m"
| "zero_fill (Suc n) m s = zero_fill n (m(s := 0)) (s + 1)"

fun strncpy_loop :: "nat \<Rightarrow> bytemem \<Rightarrow> addr \<Rightarrow> addr \<Rightarrow> bytemem" where
  "strncpy_loop 0 m s t = m"
| "strncpy_loop (Suc n) m s t =
     (if m t \<noteq> 0 then strncpy_loop n (m(s := m t)) (s + 1) (t + 1)
      else zero_fill n (m(s := m t)) (s + 1))"

definition strncpy :: "bytemem \<Rightarrow> addr \<Rightarrow> addr \<Rightarrow> int \<Rightarrow> bytemem" where
  "strncpy m s t n = strncpy_loop (nat n) m s t"

text \<open>
  \<open>safestrcpy\<close>: the argument counts the bytes still free at the loop test, before its
  \<open>--n\<close>; the loop yields the memory and the final value of \<open>s\<close>.
\<close>

fun safestrcpy_loop :: "nat \<Rightarrow> bytemem \<Rightarrow> addr \<Rightarrow> addr \<Rightarrow> bytemem \<times> addr" where
  "safestrcpy_loop 0 m s t = (m, s)"
| "safestrcpy_loop (Suc n) m s t =
     (if n > 0
      then (let m' = m(s := m t)
            in if m t \<noteq> 0 then safestrcpy_loop n m' (s + 1) (t + 1) else (m', s + 1))
      else (m, s))"

definition safestrcpy :: "bytemem \<Rightarrow> addr \<Rightarrow> addr \<Rightarrow> int \<Rightarrow> bytemem" where
  "safestrcpy m s t n =
     (if n \<le> 0 then m
      else (case safestrcpy_loop (nat n) m s t of (m', s') \<Rightarrow> m'(s' := 0)))"

partial_function (option) strlen_loop :: "bytemem \<Rightarrow> addr \<Rightarrow> nat \<Rightarrow> nat option" where
  "strlen_loop m s n = (if m (s + of_nat n) = 0 then Some n else strlen_loop m s (Suc n))"

definition strlen :: "bytemem \<Rightarrow> addr \<Rightarrow> nat option" where
  "strlen m s = strlen_loop m s 0"

section \<open>Block operations in closed form\<close>

lemma memset_loop_apply:
  "i + k < 2 ^ 64 \<Longrightarrow> memset_loop m dst c i k a =
     (if i \<le> unat (a - dst) \<and> unat (a - dst) < i + k then c else m a)"
proof (induction k arbitrary: i m)
  case 0
  then show ?case by auto
next
  case (Suc k)
  have eq: "a = dst + word_of_nat i \<longleftrightarrow> unat (a - dst) = i"
  proof
    assume "a = dst + word_of_nat i"
    then show "unat (a - dst) = i" using Suc.prems by (simp add: unat_of_nat)
  next
    assume "unat (a - dst) = i"
    then show "a = dst + word_of_nat i" by (rule of_nat_eq_diff)
  qed
  have "memset_loop m dst c i (Suc k) a =
    (if Suc i \<le> unat (a - dst) \<and> unat (a - dst) < Suc i + k then c
     else if a = dst + word_of_nat i then c else m a)"
    using Suc.prems by (simp add: Suc.IH)
  also have "\<dots> = (if i \<le> unat (a - dst) \<and> unat (a - dst) < i + Suc k then c else m a)"
    unfolding eq by auto
  finally show ?case .
qed

lemma memset_eq: "memset m dst c n = (\<lambda>a. if in_range a dst (unat n) then ucast c else m a)"
proof
  fix a
  have "unat n < 2 ^ 32" using unsigned_less [of n, where ?'a = nat] by simp
  then show "memset m dst c n a = (if in_range a dst (unat n) then ucast c else m a)"
    by (simp add: memset_def memset_loop_apply in_range_def)
qed

lemma in_range_Suc: "k < 2 ^ 64 - 1 \<Longrightarrow> in_range a d (Suc k) \<longleftrightarrow> a = d \<or> in_range a (d + 1) k"
proof (cases "a = d")
  case False
  then have "a - (d + 1) \<noteq> - 1" by auto
  then have "unat (a - d) = Suc (unat (a - (d + 1)))"
    using unat_plus_one [of "a - (d + 1)"] by (simp add: algebra_simps)
  with False show ?thesis by (simp add: in_range_def)
qed (simp add: in_range_def)

lemma copy_up_apply:
  assumes "k < 2 ^ 64 - 1" and "\<And>i. 0 < i \<Longrightarrow> i < k \<Longrightarrow> s + of_nat i \<noteq> d"
  shows "copy_up k m d s a = (if in_range a d k then m (s + (a - d)) else m a)"
  using assms
proof (induction k arbitrary: m d s)
  case 0
  then show ?case by simp
next
  case (Suc k)
  have IH: "copy_up k m' (d + 1) (s + 1) a =
      (if in_range a (d + 1) k then m' (s + 1 + (a - (d + 1))) else m' a)" for m'
  proof (rule Suc.IH)
    fix i :: nat assume "0 < i" "i < k"
    then have "s + of_nat i \<noteq> d" using Suc.prems(2) by simp
    then show "s + 1 + of_nat i \<noteq> d + 1" by auto
  qed (use Suc.prems in simp)
  have src: "s + (a - d) \<noteq> d" if r: "in_range a (d + 1) k"
  proof -
    from r have lt: "unat (a - (d + 1)) < k" by (simp add: in_range_def)
    have "s + of_nat (Suc (unat (a - (d + 1)))) \<noteq> d"
      using Suc.prems(2) [of "Suc (unat (a - (d + 1)))"] lt by simp
    then show ?thesis by (simp add: algebra_simps)
  qed
  have "s + 1 + (a - (d + 1)) = s + (a - d)" by simp
  then show ?case using Suc.prems(1) src by (auto simp: IH in_range_Suc)
qed

lemma in_range_Suc_end:
  assumes "k < 2 ^ 64"
  shows "in_range a d (Suc k) \<longleftrightarrow> a = d + of_nat k \<or> in_range a d k"
proof -
  have "a = d + of_nat k \<longleftrightarrow> unat (a - d) = k"
  proof
    assume "unat (a - d) = k"
    then have "of_nat k = a - d" by auto
    then show "a = d + of_nat k" by simp
  qed (use assms in \<open>simp add: unat_of_nat\<close>)
  then show ?thesis by (auto simp: in_range_def)
qed

lemma copy_down_apply:
  assumes "k < 2 ^ 64" and "\<And>i. i < k \<Longrightarrow> 0 < i \<Longrightarrow> s - of_nat i \<noteq> d"
  shows "copy_down k m d s a =
    (if in_range a (d - of_nat k) k then m (s + (a - d)) else m a)"
  using assms
proof (induction k arbitrary: m d s)
  case 0
  then show ?case by simp
next
  case (Suc k)
  have k: "k < 2 ^ 64" using Suc.prems by simp
  have IH: "copy_down k m' (d - 1) (s - 1) a =
      (if in_range a (d - 1 - of_nat k) k then m' (s - 1 + (a - (d - 1))) else m' a)" for m'
  proof (rule Suc.IH [OF k])
    fix i :: nat assume "i < k" "0 < i"
    then have "s - of_nat i \<noteq> d" using Suc.prems(2) by simp
    then show "s - 1 - of_nat i \<noteq> d - 1" by (simp add: algebra_simps)
  qed
  have base: "d - of_nat (Suc k) = d - 1 - of_nat k" by simp
  have split: "in_range a (d - of_nat (Suc k)) (Suc k) \<longleftrightarrow>
      a = d - 1 \<or> in_range a (d - 1 - of_nat k) k"
    unfolding base using in_range_Suc_end [OF k, of a "d - 1 - of_nat k"] by simp
  have src: "s + (a - d) \<noteq> d - 1" if r: "in_range a (d - 1 - of_nat k) k"
  proof
    define j where "j = unat (a - (d - 1 - of_nat k))"
    assume eq: "s + (a - d) = d - 1"
    have j: "j < k" using r by (simp add: j_def in_range_def)
    have "of_nat j = a - (d - 1 - of_nat k)" by (simp add: j_def)
    then have "a - d = of_nat j - of_nat k - 1" by (simp add: algebra_simps)
    with eq have "s - (of_nat k - of_nat j) = d" by (simp add: algebra_simps)
    then have "s - of_nat (k - j) = d" using j by (simp add: of_nat_diff)
    moreover have "k - j < Suc k" "0 < k - j" using j by auto
    ultimately show False using Suc.prems(2) by blast
  qed
  have eq: "s - 1 + (a - (d - 1)) = s + (a - d)" by simp
  show ?case unfolding split copy_down.simps IH eq using src by auto
qed

lemma memmove_eq:
  assumes "unat src + unat n < 2 ^ 64" and "unat dst + unat n < 2 ^ 64"
  shows "memmove m dst src n =
    (\<lambda>a. if in_range a dst (unat n) then m (src + (a - dst)) else m a)"
proof
  fix a
  have n: "unat n < 2 ^ 32" using unsigned_less [of n, where ?'a = nat] by simp
  have cast: "(ucast n :: u64) = of_nat (unat n)" by simp
  have sn: "unat (src + ucast n) = unat src + unat n" "unat (dst + ucast n) = unat dst + unat n"
    using assms by (simp_all add: unat_word_ariths)
  show "memmove m dst src n a = (if in_range a dst (unat n) then m (src + (a - dst)) else m a)"
  proof (cases "src < dst \<and> src + ucast n > dst")
    case True
    have "src + ucast n - of_nat i \<noteq> dst + ucast n" if "i < unat n" for i
    proof
      assume "src + ucast n - of_nat i = dst + ucast n"
      then have "src = dst + of_nat i" by (simp add: algebra_simps)
      then have "unat src = unat dst + i"
        using that assms n by (simp add: unat_word_ariths unat_of_nat)
      with True show False by (simp add: word_less_nat_alt)
    qed
    then have "copy_down (unat n) m (dst + ucast n) (src + ucast n) a =
      (if in_range a (dst + ucast n - of_nat (unat n)) (unat n)
       then m (src + ucast n + (a - (dst + ucast n))) else m a)"
      using n by (intro copy_down_apply) auto
    with True show ?thesis by (auto simp: memmove_def)
  next
    case False
    have "src + of_nat i \<noteq> dst" if "0 < i" "i < unat n" for i
    proof
      assume "src + of_nat i = dst"
      then have "unat dst = unat src + i"
        using that assms n by (auto simp: unat_word_ariths unat_of_nat)
      with False that sn show False by (simp add: word_less_nat_alt)
    qed
    then have "copy_up (unat n) m dst src a =
      (if in_range a dst (unat n) then m (src + (a - dst)) else m a)"
      using n by (intro copy_up_apply) auto
    with False show ?thesis by (auto simp: memmove_def)
  qed
qed

text \<open>
  C3. \<open>memmove\<close> copies correctly whatever the overlap of source and destination: every
  destination byte receives the original source byte at the same offset, and no other
  byte of memory changes. The only hypotheses are that neither region runs past the end
  of the address space.
\<close>

theorem memmove_correct:
  assumes "unat src + unat n < 2 ^ 64" and "unat dst + unat n < 2 ^ 64"
  shows "memmove m dst src n =
    (\<lambda>a. if in_range a dst (unat n) then m (src + (a - dst)) else m a)"
  using assms by (rule memmove_eq)

theorem memmove_correct_witness:
  "memmove (\<lambda>a. ucast a) 101 100 3 =
     (\<lambda>a. if in_range a 101 (unat (3 :: u32)) then ucast (100 + (a - 101)) else ucast a)"
proof -
  have "unat (100 :: u64) + unat (3 :: u32) < 2 ^ 64" "unat (101 :: u64) + unat (3 :: u32) < 2 ^ 64"
    by simp_all
  then show ?thesis by (rule memmove_correct)
qed

section \<open>C strings\<close>

text \<open>The bytes of a string buffer of \<open>n\<close> bytes: those before the first NUL.\<close>

definition cbytes :: "bytemem \<Rightarrow> addr \<Rightarrow> nat \<Rightarrow> u8 list" where
  "cbytes m p n = takeWhile (\<lambda>c. c \<noteq> 0) (map (\<lambda>i. m (p + of_nat i)) [0..<n])"

lemma cbytes_0 [simp]: "cbytes m p 0 = []"
  by (simp add: cbytes_def)

lemma cbytes_Suc: "cbytes m p (Suc n) = (if m p = 0 then [] else m p # cbytes m (p + 1) n)"
proof -
  have "map (\<lambda>i. m (p + of_nat i)) [0..<Suc n] = m p # map (\<lambda>i. m (p + 1 + of_nat i)) [0..<n]"
    by (simp add: upt_conv_Cons map_Suc_upt [symmetric] add.assoc del: upt_Suc)
  then show ?thesis by (simp add: cbytes_def)
qed

lemma cbytes_cong:
  "(\<And>i. i < n \<Longrightarrow> m (p + of_nat i) = m' (p + of_nat i)) \<Longrightarrow> cbytes m p n = cbytes m' p n"
  unfolding cbytes_def by (rule arg_cong [where f = "takeWhile _"]) simp

lemma strncmp_loop_0_iff: "strncmp_loop m p q n = 0 \<longleftrightarrow> cbytes m p n = cbytes m q n"
proof (induction n arbitrary: p q)
  case (Suc n)
  have "uint (m p) - uint (m q) = 0 \<longleftrightarrow> m p = m q" by (auto intro: unsigned_word_eqI)
  then show ?case using Suc.IH by (auto simp: cbytes_Suc uint_0_iff)
qed simp

text \<open>
  C4. \<open>strncmp\<close>, which \<open>namecmp\<close> uses to compare directory entries, returns 0 exactly
  when the two buffers hold the same string, where a string ends at its first NUL or at
  the \<open>n\<close>-byte bound, whichever is first.
\<close>

theorem strncmp_eq_0_iff: "strncmp m p q n = 0 \<longleftrightarrow> cbytes m p (unat n) = cbytes m q (unat n)"
  by (simp add: strncmp_def strncmp_loop_0_iff)

text \<open>Two \<open>n\<close>-byte buffers that share no byte.\<close>

definition apart :: "addr \<Rightarrow> addr \<Rightarrow> nat \<Rightarrow> bool" where
  "apart s t n \<longleftrightarrow> (\<forall>i < n. \<forall>j < n. s + of_nat i \<noteq> t + of_nat j)"

lemma apartI:
  assumes "unat s + n \<le> unat t" "unat t + n \<le> 2 ^ 64"
  shows "apart s t n"
proof (unfold apart_def, intro allI impI notI)
  fix i j assume ij: "i < n" "j < n" and eq: "s + of_nat i = t + of_nat j"
  have "unat (s + of_nat i) = unat s + i" "unat (t + of_nat j) = unat t + j"
    using assms ij by (simp_all add: unat_word_ariths)
  with eq ij assms show False by simp
qed

lemma apart_Suc: "apart s t (Suc n) \<Longrightarrow> apart (s + 1) (t + 1) n"
proof (unfold apart_def, intro allI impI)
  fix i j assume *: "\<forall>i<Suc n. \<forall>j<Suc n. s + of_nat i \<noteq> t + of_nat j" and "i < n" "j < n"
  then have "s + of_nat (Suc i) \<noteq> t + of_nat (Suc j)" by blast
  then show "s + 1 + of_nat i \<noteq> t + 1 + of_nat j" by (simp add: algebra_simps)
qed

lemma apart_0:
  assumes "apart s t (Suc n)" "i \<le> n"
  shows "t + of_nat i \<noteq> s"
proof -
  have "s + of_nat 0 \<noteq> t + of_nat i"
    using assms unfolding apart_def by (blast intro: le_imp_less_Suc zero_less_Suc)
  then show ?thesis by auto
qed

lemma zero_fill_apply:
  "k < 2 ^ 64 - 1 \<Longrightarrow> zero_fill k m s a = (if in_range a s k then 0 else m a)"
  by (induction k arbitrary: m s) (auto simp: in_range_Suc)

lemma strncpy_loop_outside:
  "n < 2 ^ 64 - 1 \<Longrightarrow> \<not> in_range a s n \<Longrightarrow> strncpy_loop n m s t a = m a"
  by (induction n arbitrary: m s t) (auto simp: in_range_Suc zero_fill_apply)

lemma cbytes_upd_outside:
  "(\<And>i. i < n \<Longrightarrow> t + of_nat i \<noteq> s) \<Longrightarrow> cbytes (m(s := c)) t n = cbytes m t n"
  by (rule cbytes_cong) simp

lemma strncpy_loop_cbytes:
  "n < 2 ^ 64 - 1 \<Longrightarrow> apart s t n \<Longrightarrow> cbytes (strncpy_loop n m s t) s n = cbytes m t n"
proof (induction n arbitrary: m s t)
  case (Suc n)
  have here: "\<not> in_range s (s + 1) n"
    using Suc.prems(1) by (simp add: in_range_def unsigned_minus_1_eq_mask mask_eq_exp_minus_1)
  have src: "cbytes (m(s := c)) (t + 1) n = cbytes m (t + 1) n" for c
  proof (rule cbytes_upd_outside)
    fix i assume "i < n"
    then have "t + of_nat (Suc i) \<noteq> s" by (intro apart_0 [OF Suc.prems(2)]) simp
    then show "t + 1 + of_nat i \<noteq> s" by (simp add: algebra_simps)
  qed
  have IH: "cbytes (strncpy_loop n m' (s + 1) (t + 1)) (s + 1) n = cbytes m' (t + 1) n" for m'
    using Suc.IH [of "s + 1" "t + 1"] Suc.prems apart_Suc by simp
  show ?case
    using Suc.prems(1) here
    by (simp add: cbytes_Suc IH src strncpy_loop_outside zero_fill_apply)
qed simp



text \<open>A NUL-terminated string of length \<open>k\<close> at \<open>p\<close>.\<close>

definition is_cstring :: "bytemem \<Rightarrow> addr \<Rightarrow> nat \<Rightarrow> bool" where
  "is_cstring m p k \<longleftrightarrow> (\<forall>i < k. m (p + of_nat i) \<noteq> 0) \<and> m (p + of_nat k) = 0"

lemma strlen_loop_cstring: "is_cstring m s k \<Longrightarrow> i \<le> k \<Longrightarrow> strlen_loop m s i = Some k"
proof (induction "k - i" arbitrary: i)
  case 0
  then have "i = k" by simp
  with 0 show ?case by (subst strlen_loop.simps) (simp add: is_cstring_def)
next
  case (Suc d)
  then have "i < k" by simp
  with Suc have "strlen_loop m s (Suc i) = Some k" "m (s + of_nat i) \<noteq> 0"
    by (auto simp: is_cstring_def)
  then show ?case by (subst strlen_loop.simps) simp
qed

lemma strlen_cstring: "is_cstring m s k \<Longrightarrow> strlen m s = Some k"
  by (simp add: strlen_def strlen_loop_cstring)

text \<open>The copying loop of \<open>safestrcpy\<close> copies a prefix of the source and stops in time.\<close>

lemma safestrcpy_loop_spec:
  assumes "0 < n" "n < 2 ^ 64 - 1" "apart s t n" "safestrcpy_loop n m s t = (m', s')"
  shows "\<exists>l < n. s' = s + of_nat l \<and>
    m' = (\<lambda>a. if in_range a s l then m (t + (a - s)) else m a) \<and>
    (\<forall>i. Suc i < l \<longrightarrow> m (t + of_nat i) \<noteq> 0) \<and>
    (Suc l = n \<and> (0 < l \<longrightarrow> m (t + of_nat (l - 1)) \<noteq> 0) \<or> 0 < l \<and> m (t + of_nat (l - 1)) = 0)"
  using assms
proof (induction n arbitrary: m s t)
  case (Suc n)
  show ?case
  proof (cases "n = 0")
    case True
    then show ?thesis using Suc.prems by auto
  next
    case n: False
    show ?thesis
    proof (cases "m t = 0")
      case True
      have "m(s := m t) = (\<lambda>a. if in_range a s 1 then m (t + (a - s)) else m a)"
        by (auto simp: fun_eq_iff in_range_def unat_eq_0)
      then show ?thesis using n True Suc.prems(4) by (intro exI [of _ 1]) auto
    next
      case False
      define m1 where "m1 = m(s := m t)"
      have "safestrcpy_loop n m1 (s + 1) (t + 1) = (m', s')"
        using n False Suc.prems(4) by (simp add: m1_def)
      from Suc.IH [OF _ _ _ this] n Suc.prems(2,3) obtain l where l: "l < n" "s' = s + 1 + of_nat l"
          "m' = (\<lambda>a. if in_range a (s + 1) l then m1 (t + 1 + (a - (s + 1))) else m1 a)"
          "\<forall>i. Suc i < l \<longrightarrow> m1 (t + 1 + of_nat i) \<noteq> 0"
          "Suc l = n \<and> (0 < l \<longrightarrow> m1 (t + 1 + of_nat (l - 1)) \<noteq> 0) \<or> 0 < l \<and> m1 (t + 1 + of_nat (l - 1)) = 0"
        using apart_Suc by auto
      have src: "m1 (t + 1 + of_nat i) = m (t + of_nat (Suc i))" if "i < n" for i
        using apart_0 [OF Suc.prems(3), of "Suc i"] that by (simp add: m1_def algebra_simps)
      have m': "m' = (\<lambda>a. if in_range a s (Suc l) then m (t + (a - s)) else m a)"
      proof
        fix a
        have "m1 (t + 1 + (a - (s + 1))) = m (t + (a - s))" if "in_range a (s + 1) l"
        proof -
          have "unat (a - (s + 1)) < n" using that l(1) by (simp add: in_range_def)
          from src [OF this] show ?thesis by (simp add: algebra_simps)
        qed
        then show "m' a = (if in_range a s (Suc l) then m (t + (a - s)) else m a)"
          using l(1,3) Suc.prems(2) by (auto simp: in_range_Suc m1_def)
      qed
      have nz: "m (t + of_nat i) \<noteq> 0" if "Suc i < Suc l" for i
      proof (cases i)
        case 0 then show ?thesis using False by simp
      next
        case (Suc j)
        then have "Suc j < Suc l" "Suc j \<le> l" using that by auto
        then show ?thesis using l(1,4,5) src [of j] Suc that by (cases "Suc j = l") auto
      qed
      show ?thesis
      proof (intro exI [of _ "Suc l"] conjI)
        show "Suc (Suc l) = Suc n \<and> (0 < Suc l \<longrightarrow> m (t + of_nat (Suc l - 1)) \<noteq> 0) \<or>
            0 < Suc l \<and> m (t + of_nat (Suc l - 1)) = 0"
          using l(1,5) src [of "l - 1"] False by (cases l) auto
      qed (use l m' nz in \<open>auto simp: algebra_simps\<close>)
    qed
  qed
qed simp

text \<open>
  C6. \<open>safestrcpy\<close> is safe: into an \<open>n\<close>-byte buffer that does not overlap the source it
  always leaves a NUL-terminated string, which is the source string cut to at most
  \<open>n - 1\<close> bytes, and it writes no byte outside the buffer.
\<close>

theorem safestrcpy_correct:
  assumes "0 < n" "n < 2 ^ 31" "apart s t (nat n)"
  shows "\<exists>l < nat n. is_cstring (safestrcpy m s t n) s l \<and>
    (\<forall>i < l. safestrcpy m s t n (s + of_nat i) = m (t + of_nat i)) \<and>
    (l = nat n - 1 \<or> m (t + of_nat l) = 0) \<and>
    (\<forall>a. \<not> in_range a s (nat n) \<longrightarrow> safestrcpy m s t n a = m a)"
proof -
  obtain m' s' where loop: "safestrcpy_loop (nat n) m s t = (m', s')" by (cases "safestrcpy_loop (nat n) m s t")
  have n: "0 < nat n" "nat n < 2 ^ 64 - 1" using assms(1,2) by auto
  from safestrcpy_loop_spec [OF n assms(3) loop] obtain l where l: "l < nat n" "s' = s + of_nat l"
      "m' = (\<lambda>a. if in_range a s l then m (t + (a - s)) else m a)"
      "\<forall>i. Suc i < l \<longrightarrow> m (t + of_nat i) \<noteq> 0"
      "Suc l = nat n \<and> (0 < l \<longrightarrow> m (t + of_nat (l - 1)) \<noteq> 0) \<or> 0 < l \<and> m (t + of_nat (l - 1)) = 0"
    by blast
  let ?r = "safestrcpy m s t n"
  have r: "?r = (\<lambda>a. if in_range a s l then m (t + (a - s)) else m a)(s + of_nat l := 0)"
    using assms(1) loop l by (simp add: safestrcpy_def)
  have ne: "s + of_nat i \<noteq> s + of_nat l" if "i < l" for i
  proof
    assume "s + of_nat i = s + of_nat l"
    then have "unat (of_nat i :: u64) = unat (of_nat l :: u64)" by simp
    with that l(1) n(2) show False by simp
  qed
  have copied: "?r (s + of_nat i) = m (t + of_nat i)" if "i < l" for i
    using that l(1) n(2) ne [OF that] by (simp add: r in_range_offset)
  have out: "?r a = m a" if "\<not> in_range a s (nat n)" for a
    using that l(1) n(2) by (auto simp: r in_range_def)
  show ?thesis
  proof (cases "0 < l \<and> m (t + of_nat (l - 1)) = 0")
    case True
    then obtain k where k: "l = Suc k" by (cases l) auto
    with True have z: "m (t + of_nat k) = 0" by simp
    have "is_cstring ?r s k"
      unfolding is_cstring_def using k z l(4) copied by simp
    with k z l(1) copied out show ?thesis by (intro exI [of _ k]) auto
  next
    case False
    have "m (t + of_nat i) \<noteq> 0" if "i < l" for i
      using that l(4,5) False by (cases "Suc i = l") auto
    then have "is_cstring ?r s l" using copied by (auto simp: is_cstring_def r)
    with False l(1,5) copied out show ?thesis by (intro exI [of _ l]) auto
  qed
qed

theorem safestrcpy_correct_witness:
  "\<exists>l < nat 3. is_cstring (safestrcpy (\<lambda>a. 7) 0 8 3) 0 l \<and>
    (\<forall>i < l. safestrcpy (\<lambda>a. 7) 0 8 3 (0 + of_nat i) = 7) \<and>
    (l = nat 3 - 1 \<or> (7 :: u8) = 0) \<and>
    (\<forall>a. \<not> in_range a 0 (nat 3) \<longrightarrow> safestrcpy (\<lambda>a. 7) 0 8 3 a = 7)"
proof -
  have "apart 0 8 (nat 3)" by (intro apartI) simp_all
  from safestrcpy_correct [OF _ _ this, of "\<lambda>a. 7"] show ?thesis by simp
qed

end
