(* ===== verification/Kalloc.thy ===== *)
theory Kalloc
  imports Cstring
begin

text \<open>
  \<open>kernel/kalloc.c\<close>: the buddy allocator for physical pages with its per-page reference
  counts. The state is \<open>kmem\<close>, together with the physical memory that \<open>kalloc\<close> and
  \<open>kfree\<close> fill with junk and the linker symbol \<open>end\<close>. A free list, in the source a chain
  of \<open>struct run\<close> threaded through the free pages, is the list of its nodes.
  The critical sections under \<open>kmem.lock\<close> are atomic.
\<close>

section \<open>State\<close>

definition MAX_ORDER :: nat where "MAX_ORDER = 10"

record kmem =
  kend :: addr
  freelist :: "nat \<Rightarrow> addr list"
  refcount :: "nat \<Rightarrow> u8"
  order_map :: "nat \<Rightarrow> u8"
  phys :: bytemem

section \<open>Helpers\<close>

definition pa2index :: "addr \<Rightarrow> nat" where
  "pa2index pa = unat (ucast ((pa - KERNBASE) div PGSIZE) :: u32)"

definition index2pa :: "nat \<Rightarrow> addr" where
  "index2pa index = KERNBASE + of_nat index * PGSIZE"

function get_order_loop :: "int \<Rightarrow> int \<Rightarrow> nat \<Rightarrow> nat" where
  "get_order_loop sz block_size order =
     (if block_size < sz \<and> order < MAX_ORDER
      then get_order_loop sz (2 * block_size) (Suc order) else order)"
  by pat_completeness auto
termination
  by (relation "measure (\<lambda>(sz, block_size, order). MAX_ORDER - order)") auto

definition get_order :: "int \<Rightarrow> nat" where
  "get_order sz = get_order_loop sz 4096 0"

definition get_buddy :: "addr \<Rightarrow> nat \<Rightarrow> addr" where
  "get_buddy pa order = pa XOR push_bit order PGSIZE"

definition is_aligned :: "addr \<Rightarrow> nat \<Rightarrow> bool" where
  "is_aligned pa order \<longleftrightarrow> pa AND (push_bit order PGSIZE - 1) = 0"

definition bad_pa :: "kmem \<Rightarrow> addr \<Rightarrow> bool" where
  "bad_pa s pa \<longleftrightarrow> pa mod PGSIZE \<noteq> 0 \<or> pa < kend s \<or> pa \<ge> PHYSTOP"

section \<open>Reference counts\<close>

definition incref :: "addr \<Rightarrow> kmem \<Rightarrow> kmem kres" where
  "incref pa s =
     (if bad_pa s pa then Panic ''incref: invalid pa''
      else let index = pa2index pa
           in Ret (if refcount s index < 255
                   then s\<lparr>refcount := (refcount s)(index := refcount s index + 1)\<rparr> else s))"

definition decref :: "addr \<Rightarrow> kmem \<Rightarrow> (bool \<times> kmem) kres" where
  "decref pa s =
     (if bad_pa s pa then Panic ''decref: invalid pa''
      else let index = pa2index pa
           in if refcount s index = 0 then Panic ''decref: refcount underflow''
              else let c = refcount s index - 1
                   in Ret (c = 0, s\<lparr>refcount := (refcount s)(index := c)\<rparr>))"

definition getref :: "addr \<Rightarrow> kmem \<Rightarrow> u8 kres" where
  "getref pa s =
     (if bad_pa s pa then Panic ''getref: invalid pa'' else Ret (refcount s (pa2index pa)))"

section \<open>Buddy allocation\<close>

definition push_free :: "nat \<Rightarrow> addr \<Rightarrow> kmem \<Rightarrow> kmem" where
  "push_free k r s = s\<lparr>freelist := (freelist s)(k := r # freelist s k)\<rparr>"

text \<open>Splitting: put the upper halves on the lists of the orders below, down to \<open>order\<close>.\<close>

fun split_block :: "nat \<Rightarrow> nat \<Rightarrow> addr \<Rightarrow> kmem \<Rightarrow> kmem" where
  "split_block order 0 r s = s"
| "split_block order (Suc c) r s =
     (if order < Suc c then split_block order c r (push_free c (get_buddy r c) s) else s)"

function buddy_alloc_loop :: "nat \<Rightarrow> nat \<Rightarrow> kmem \<Rightarrow> addr \<times> kmem" where
  "buddy_alloc_loop order current_order s =
     (if current_order \<le> MAX_ORDER
      then (case freelist s current_order of
              r # rs \<Rightarrow>
                let s1 = s\<lparr>freelist := (freelist s)(current_order := rs)\<rparr>;
                    s2 = split_block order current_order r s1
                in (r, s2\<lparr>order_map := (order_map s2)(pa2index r := of_nat order)\<rparr>)
            | [] \<Rightarrow> buddy_alloc_loop order (Suc current_order) s)
      else (0, s))"
  by pat_completeness auto
termination
  by (relation "measure (\<lambda>(order, c, s). Suc MAX_ORDER - c)") auto

definition buddy_alloc :: "nat \<Rightarrow> kmem \<Rightarrow> addr \<times> kmem" where
  "buddy_alloc order s = buddy_alloc_loop order order s"

text \<open>Scanning a free list for a node and unlinking it.\<close>

fun unlink_node :: "addr \<Rightarrow> addr list \<Rightarrow> bool \<times> addr list" where
  "unlink_node b [] = (False, [])"
| "unlink_node b (c # cs) =
     (if c = b then (True, cs) else (case unlink_node b cs of (found, cs') \<Rightarrow> (found, c # cs')))"

function merge_loop :: "addr \<Rightarrow> nat \<Rightarrow> kmem \<Rightarrow> addr \<times> nat \<times> kmem" where
  "merge_loop pa order s =
     (if order < MAX_ORDER
      then (let buddy = get_buddy pa order
            in case unlink_node buddy (freelist s order) of
                 (True, rest) \<Rightarrow>
                   merge_loop (if pa > buddy then buddy else pa) (Suc order)
                     (s\<lparr>freelist := (freelist s)(order := rest)\<rparr>)
               | (False, _) \<Rightarrow> (pa, order, s))
      else (pa, order, s))"
  by pat_completeness auto
termination
  by (relation "measure (\<lambda>(pa, order, s). MAX_ORDER - order)") auto

fun clear_orders :: "nat \<Rightarrow> nat \<Rightarrow> (nat \<Rightarrow> u8) \<Rightarrow> (nat \<Rightarrow> u8)" where
  "clear_orders 0 index f = f"
| "clear_orders (Suc n) index f = clear_orders n (Suc index) (f(index := 0))"

definition buddy_free :: "addr \<Rightarrow> nat \<Rightarrow> kmem \<Rightarrow> kmem" where
  "buddy_free pa order s =
     (case merge_loop pa order s of (current_pa, current_order, s1) \<Rightarrow>
        let s2 = push_free current_order current_pa s1
        in s2\<lparr>order_map := clear_orders (2 ^ current_order) (pa2index current_pa) (order_map s2)\<rparr>)"

section \<open>The page interface\<close>

definition kfree :: "addr \<Rightarrow> kmem \<Rightarrow> kmem kres" where
  "kfree pa s =
     (if bad_pa s pa then Panic ''kfree''
      else kbind (getref pa s) (\<lambda>count.
        if count > 0 then Ret s
        else let s1 = s\<lparr>phys := memset (phys s) pa 1 4096\<rparr>;
                 order = unat (order_map s1 (pa2index pa))
             in Ret (buddy_free pa order s1)))"

definition kalloc :: "kmem \<Rightarrow> addr \<times> kmem" where
  "kalloc s =
     (case buddy_alloc 0 s of (pa, s1) \<Rightarrow>
        if pa \<noteq> 0
        then (let s2 = s1\<lparr>phys := memset (phys s1) pa 5 4096\<rparr>
              in (pa, s2\<lparr>refcount := (refcount s2)(pa2index pa := 1)\<rparr>))
        else (pa, s1))"

section \<open>Initialisation\<close>

function max_order_loop :: "u64 \<Rightarrow> nat \<Rightarrow> u64 \<Rightarrow> nat \<times> u64" where
  "max_order_loop total_pages max_order max_block_size =
     (if max_order < MAX_ORDER \<and> max_block_size * 2 \<le> total_pages * PGSIZE
      then max_order_loop total_pages (Suc max_order) (push_bit 1 max_block_size)
      else (max_order, max_block_size))"
  by pat_completeness auto
termination
  by (relation "measure (\<lambda>(t, k, b). MAX_ORDER - k)") auto

text \<open>
  The two loops of \<open>freerange\<close> that put blocks on a free list: one with the largest
  block size, one with single pages. The result is the final \<open>current\<close> and the state.
\<close>

partial_function (option) add_blocks ::
  "nat \<Rightarrow> u64 \<Rightarrow> addr \<Rightarrow> addr \<Rightarrow> kmem \<Rightarrow> (addr \<times> kmem) option" where
  "add_blocks order block_size pa_end current s =
     (if current + block_size \<le> pa_end
      then add_blocks order block_size pa_end (current + block_size) (push_free order current s)
      else Some (current, s))"

definition freerange :: "addr \<Rightarrow> addr \<Rightarrow> kmem \<Rightarrow> kmem option" where
  "freerange pa_start pa_end s =
     (let p = PGROUNDUP pa_start;
          total_pages = (pa_end - p) div PGSIZE
      in case max_order_loop total_pages 0 PGSIZE of (max_order, max_block_size) \<Rightarrow>
           (case add_blocks max_order max_block_size pa_end p s of
              None \<Rightarrow> None
            | Some (current, s1) \<Rightarrow> map_option snd (add_blocks 0 PGSIZE pa_end current s1)))"

definition kinit :: "kmem \<Rightarrow> kmem option" where
  "kinit s = freerange (kend s) PHYSTOP
     (s\<lparr>freelist := (\<lambda>k. if k \<le> MAX_ORDER then [] else freelist s k),
        refcount := (\<lambda>i. if i < unat ((PHYSTOP - KERNBASE) div PGSIZE) then 0 else refcount s i),
        order_map := (\<lambda>i. if i < unat ((PHYSTOP - KERNBASE) div PGSIZE) then 0 else order_map s i)\<rparr>)"

declare get_order_loop.simps [simp del] buddy_alloc_loop.simps [simp del]
  merge_loop.simps [simp del] max_order_loop.simps [simp del]

section \<open>Blocks\<close>

text \<open>
  The block of order \<open>k\<close> that holds \<open>a\<close>: all addresses with the same bits from
  \<open>12 + k\<close> up. Blocks of one order partition memory, and a block is split into two
  buddies of the order below.
\<close>

definition block :: "addr \<Rightarrow> nat \<Rightarrow> addr set" where
  "block a k = {x. drop_bit (12 + k) x = drop_bit (12 + k) a}"

definition aligned :: "addr \<Rightarrow> nat \<Rightarrow> bool" where
  "aligned a k \<longleftrightarrow> take_bit (12 + k) a = 0"

lemma push_bit_PGSIZE: "push_bit k PGSIZE = push_bit (12 + k) 1"
  by (simp add: PGSIZE_def push_bit_eq_mult power_add)

lemma get_buddy_flip: "get_buddy a k = flip_bit (12 + k) a"
  unfolding get_buddy_def push_bit_PGSIZE by (simp add: flip_bit_eq_xor)

lemma is_aligned_iff: "k < 52 \<Longrightarrow> is_aligned a k \<longleftrightarrow> aligned a k"
  unfolding is_aligned_def aligned_def push_bit_PGSIZE
  by (simp add: take_bit_eq_mask mask_eq_exp_minus_1 push_bit_eq_mult)

lemma bit_get_buddy: "k < 52 \<Longrightarrow> bit (get_buddy a k) n \<longleftrightarrow> (bit a n \<noteq> (n = 12 + k))"
  using bit_imp_le_length [of a n] by (auto simp: get_buddy_flip bit_flip_bit_iff)

lemma get_buddy_twice [simp]: "get_buddy (get_buddy a k) k = a"
  by (simp add: get_buddy_def xor.assoc)

lemma mem_block_iff: "x \<in> block a k \<longleftrightarrow> (\<forall>n \<ge> 12 + k. bit x n = bit a n)"
proof
  assume "x \<in> block a k"
  then have eq: "drop_bit (12 + k) x = drop_bit (12 + k) a" by (simp add: block_def)
  show "\<forall>n \<ge> 12 + k. bit x n = bit a n"
  proof (intro allI impI)
    fix n assume "12 + k \<le> n"
    with arg_cong [OF eq, of "\<lambda>w. bit w (n - (12 + k))"] show "bit x n = bit a n"
      by (simp add: bit_drop_bit_eq)
  qed
next
  assume "\<forall>n \<ge> 12 + k. bit x n = bit a n"
  then show "x \<in> block a k"
    unfolding block_def mem_Collect_eq by (intro bit_word_eqI) (simp add: bit_drop_bit_eq)
qed

lemma aligned_iff: "aligned a k \<longleftrightarrow> (\<forall>n < 12 + k. \<not> bit a n)"
proof
  assume "aligned a k"
  then have "take_bit (12 + k) a = 0" by (simp add: aligned_def)
  then show "\<forall>n < 12 + k. \<not> bit a n"
    by (metis bit_0_eq bit_take_bit_iff bot_apply bot_bool_def)
next
  assume "\<forall>n < 12 + k. \<not> bit a n"
  then show "aligned a k" unfolding aligned_def by (intro bit_word_eqI) (auto simp: bit_take_bit_iff)
qed

lemma block_self [simp]: "a \<in> block a k"
  by (simp add: block_def)

lemma block_split: "k < 52 \<Longrightarrow> block a (Suc k) = block a k \<union> block (get_buddy a k) k"
proof (intro set_eqI iffI)
  fix x assume "k < 52" "x \<in> block a (Suc k)"
  then have "\<forall>n \<ge> Suc (12 + k). bit x n = bit a n" by (simp add: mem_block_iff)
  then have "\<forall>n \<ge> 12 + k. n \<noteq> 12 + k \<longrightarrow> bit x n = bit a n" by simp
  then show "x \<in> block a k \<union> block (get_buddy a k) k"
    using \<open>k < 52\<close> by (cases "bit x (12 + k) = bit a (12 + k)") (force simp: mem_block_iff bit_get_buddy)+
qed (auto simp: mem_block_iff bit_get_buddy)

lemma block_buddy_disjoint: "k < 52 \<Longrightarrow> block a k \<inter> block (get_buddy a k) k = {}"
  by (auto simp: mem_block_iff bit_get_buddy)

lemma block_buddy_eq: "k < 52 \<Longrightarrow> block (get_buddy a k) (Suc k) = block a (Suc k)"
  by (auto simp: mem_block_iff bit_get_buddy)

lemma block_eqI: "x \<in> block a k \<Longrightarrow> block a k = block x k"
  by (auto simp: block_def)

lemma aligned_block_inject: "aligned a k \<Longrightarrow> aligned b k \<Longrightarrow> block a k = block b k \<Longrightarrow> a = b"
proof (rule bit_word_eqI)
  fix n assume *: "aligned a k" "aligned b k" "block a k = block b k"
  then have "a \<in> block b k" by (metis block_self)
  with * show "bit a n = bit b n" by (cases "n < 12 + k") (auto simp: aligned_iff mem_block_iff)
qed

lemma aligned_mono: "aligned a (Suc k) \<Longrightarrow> aligned a k"
  by (auto simp: aligned_iff)

lemma aligned_get_buddy: "k < 52 \<Longrightarrow> aligned a k \<Longrightarrow> aligned (get_buddy a k) k"
  by (auto simp: aligned_iff bit_get_buddy)

text \<open>Merging: the lower of two buddies is aligned for the next order.\<close>

lemma get_buddy_less_iff: "k < 52 \<Longrightarrow> aligned a k \<Longrightarrow> get_buddy a k < a \<longleftrightarrow> bit a (12 + k)"
proof -
  assume k: "k < 52" and al: "aligned a k"
  show ?thesis
  proof (cases "bit a (12 + k)")
    case True
    have "get_buddy a k = unset_bit (12 + k) a"
      using k True by (simp add: get_buddy_flip flip_bit_eq_if)
    moreover have "unset_bit (12 + k) a AND a = unset_bit (12 + k) a"
      by (rule bit_word_eqI) (auto simp: bit_unset_bit_iff bit_and_iff)
    then have "unset_bit (12 + k) a \<le> a" by (metis word_and_le1)
    moreover have "get_buddy a k \<noteq> a" using bit_get_buddy [OF k, of a "12 + k"] by auto
    ultimately show ?thesis using True by auto
  next
    case False
    have "get_buddy a k AND a = a"
      using False k by (intro bit_word_eqI) (auto simp: bit_get_buddy bit_and_iff)
    then have "a \<le> get_buddy a k" by (metis word_and_le2)
    then show ?thesis using False by auto
  qed
qed

lemma merge_aligned:
  assumes "k < 52" "aligned a k"
  shows "aligned (if a > get_buddy a k then get_buddy a k else a) (Suc k)"
proof -
  have "aligned b (Suc k)" if "aligned b k" "\<not> bit b (12 + k)" for b
  proof -
    have "n < 12 + Suc k \<longleftrightarrow> n < 12 + k \<or> n = 12 + k" for n by auto
    then show ?thesis using that by (auto simp only: aligned_iff)
  qed
  then show ?thesis
    using assms get_buddy_less_iff [OF assms] aligned_get_buddy [OF assms] bit_get_buddy [OF assms(1), of a "12 + k"]
    by auto
qed

section \<open>Well-formed allocator states\<close>

text \<open>The free blocks, as pairs of order and address, and the addresses they cover.\<close>

definition free_blocks :: "kmem \<Rightarrow> (nat \<times> addr) set" where
  "free_blocks s = {(k, a). a \<in> set (freelist s k)}"

definition free_mem :: "kmem \<Rightarrow> addr set" where
  "free_mem s = (\<Union>(k, a) \<in> free_blocks s. block a k)"

definition usable :: "kmem \<Rightarrow> addr set" where
  "usable s = {x. kend s \<le> x \<and> x < PHYSTOP}"

text \<open>
  The invariant of the buddy allocator: free lists exist for the orders up to
  \<open>MAX_ORDER\<close> only, hold no node twice, and hold aligned blocks that are pairwise
  disjoint and lie between the end of the kernel and \<open>PHYSTOP\<close>.
\<close>

definition kmem_wf :: "kmem \<Rightarrow> bool" where
  "kmem_wf s \<longleftrightarrow>
     (\<forall>k. distinct (freelist s k)) \<and>
     (\<forall>(k, a) \<in> free_blocks s. k \<le> MAX_ORDER \<and> aligned a k) \<and>
     (\<forall>p \<in> free_blocks s. \<forall>q \<in> free_blocks s. p \<noteq> q \<longrightarrow>
        block (snd p) (fst p) \<inter> block (snd q) (fst q) = {}) \<and>
     free_mem s \<subseteq> usable s \<and> KERNBASE \<le> kend s"

text \<open>No two buddies are free at the same order: everything that can be merged is.\<close>

definition coalesced :: "kmem \<Rightarrow> bool" where
  "coalesced s \<longleftrightarrow> (\<forall>k < MAX_ORDER. \<forall>a \<in> set (freelist s k). get_buddy a k \<notin> set (freelist s k))"

lemma free_mem_iff: "x \<in> free_mem s \<longleftrightarrow> (\<exists>k a. a \<in> set (freelist s k) \<and> x \<in> block a k)"
  by (auto simp: free_mem_def free_blocks_def)

lemma free_nodeI: "a \<in> set (freelist s k) \<Longrightarrow> a \<in> free_mem s"
  unfolding free_mem_iff by (intro exI [of _ k] exI [of _ a]) simp

lemma free_blocks_push [simp]: "free_blocks (push_free k a s) = insert (k, a) (free_blocks s)"
  by (auto simp: free_blocks_def push_free_def split: if_splits)

lemma free_mem_push [simp]: "free_mem (push_free k a s) = block a k \<union> free_mem s"
  by (simp add: free_mem_def)

lemma kend_push [simp]: "kend (push_free k a s) = kend s"
  by (simp add: push_free_def)

lemma usable_push [simp]: "usable (push_free k a s) = usable s"
  by (simp add: usable_def)

text \<open>The fields a free-list operation leaves alone.\<close>

lemma push_free_frame [simp]:
  "refcount (push_free k a s) = refcount s" "order_map (push_free k a s) = order_map s"
  "phys (push_free k a s) = phys s"
  by (simp_all add: push_free_def)

lemma kmem_wf_cong:
  "freelist s' = freelist s \<Longrightarrow> kend s' = kend s \<Longrightarrow> kmem_wf s' = kmem_wf s"
  by (simp add: kmem_wf_def free_blocks_def free_mem_def usable_def)

lemma free_mem_cong: "freelist s' = freelist s \<Longrightarrow> free_mem s' = free_mem s"
  by (simp add: free_mem_def free_blocks_def)

lemma coalesced_cong: "freelist s' = freelist s \<Longrightarrow> coalesced s' = coalesced s"
  by (simp add: coalesced_def)

lemma kmem_wf_push:
  assumes "kmem_wf s" "k \<le> MAX_ORDER" "aligned a k" "block a k \<inter> free_mem s = {}" "block a k \<subseteq> usable s"
  shows "kmem_wf (push_free k a s)"
proof -
  have new: "block a k \<inter> block b j = {}" if "(j, b) \<in> free_blocks s" for j b
    using assms(4) that by (auto simp: free_mem_def)
  have "a \<notin> set (freelist s k)"
    using new [of k a] block_self [of a k] by (auto simp: free_blocks_def simp del: block_self)
  then have "distinct (freelist (push_free k a s) j)" for j
    using assms(1) by (simp add: kmem_wf_def push_free_def)
  moreover have "block (snd p) (fst p) \<inter> block (snd q) (fst q) = {}"
    if pq: "p \<in> insert (k, a) (free_blocks s)" "q \<in> insert (k, a) (free_blocks s)" "p \<noteq> q" for p q
  proof -
    consider "p = (k, a)" "q \<in> free_blocks s" | "q = (k, a)" "p \<in> free_blocks s"
      | "p \<in> free_blocks s" "q \<in> free_blocks s" using pq by blast
    then show ?thesis
    proof cases
      case 1 then show ?thesis using new [of "fst q" "snd q"] by simp
    next
      case 2 then show ?thesis using new [of "fst p" "snd p"] by (simp add: Int_commute)
    next
      case 3 then show ?thesis using assms(1) pq(3) by (simp add: kmem_wf_def)
    qed
  qed
  ultimately show ?thesis
    using assms unfolding kmem_wf_def free_blocks_push free_mem_push usable_push kend_push by simp
qed

text \<open>Taking a node off its list removes exactly its block.\<close>

lemma kmem_wf_take:
  assumes "kmem_wf s" "freelist s k = xs @ a # ys"
  defines "t \<equiv> s\<lparr>freelist := (freelist s)(k := xs @ ys)\<rparr>"
  shows "kmem_wf t" "free_mem t = free_mem s - block a k" "block a k \<subseteq> free_mem s"
    "free_blocks t = free_blocks s - {(k, a)}" "aligned a k" "k \<le> MAX_ORDER"
proof -
  have ka: "(k, a) \<in> free_blocks s" using assms(2) by (simp add: free_blocks_def)
  have d: "distinct (xs @ a # ys)" using assms(1,2) by (metis kmem_wf_def)
  then show fb: "free_blocks t = free_blocks s - {(k, a)}"
    using assms(2) by (auto simp: t_def free_blocks_def split: if_splits)
  show "block a k \<subseteq> free_mem s" using ka by (auto simp: free_mem_def)
  show al: "aligned a k" "k \<le> MAX_ORDER" using assms(1) ka by (auto simp: kmem_wf_def)
  have dis: "block b j \<inter> block a k = {}" if "(j, b) \<in> free_blocks s" "(j, b) \<noteq> (k, a)" for j b
  proof -
    have "\<forall>p \<in> free_blocks s. \<forall>q \<in> free_blocks s. p \<noteq> q \<longrightarrow>
        block (snd p) (fst p) \<inter> block (snd q) (fst q) = {}"
      using assms(1) by (simp add: kmem_wf_def)
    from this [rule_format, OF that(1) ka that(2)] show ?thesis by simp
  qed
  then show fm: "free_mem t = free_mem s - block a k"
    unfolding free_mem_def fb by auto
  have "distinct (freelist t j)" for j
    using d assms(1) by (auto simp: t_def kmem_wf_def)
  moreover have "usable t = usable s" "kend t = kend s" by (simp_all add: t_def usable_def)
  ultimately show "kmem_wf t"
    using assms(1) unfolding kmem_wf_def fb fm by auto
qed

section \<open>Allocation\<close>

lemma coalesced_push:
  assumes "coalesced s" "get_buddy a c \<notin> set (freelist s c)" "get_buddy a c \<noteq> a"
  shows "coalesced (push_free c a s)"
  unfolding coalesced_def
proof (intro allI impI ballI)
  fix k x assume k: "k < MAX_ORDER" and x: "x \<in> set (freelist (push_free c a s) k)"
  show "get_buddy x k \<notin> set (freelist (push_free c a s) k)"
  proof (cases "k = c")
    case False
    then show ?thesis using assms(1) k x by (simp add: coalesced_def push_free_def)
  next
    case True
    have "get_buddy x c \<noteq> a" if "x \<in> set (freelist s c)"
    proof
      assume "get_buddy x c = a"
      then have "x = get_buddy a c" by (metis get_buddy_twice)
      with that assms(2) show False by simp
    qed
    then show ?thesis using assms k x True by (auto simp: coalesced_def push_free_def)
  qed
qed

lemma freelist_push_other: "j \<noteq> k \<Longrightarrow> freelist (push_free k a s) j = freelist s j"
  by (simp add: push_free_def)

text \<open>
  Splitting an aligned block that is not free returns to the free lists everything of
  it but the lowest block of the requested order.
\<close>

lemma split_block_spec:
  assumes "order \<le> c" "c \<le> MAX_ORDER" "kmem_wf s" "aligned r c"
    and "block r c \<inter> free_mem s = {}" "block r c \<subseteq> usable s"
  shows "kmem_wf (split_block order c r s) \<and>
    free_mem (split_block order c r s) = free_mem s \<union> (block r c - block r order) \<and>
    usable (split_block order c r s) = usable s \<and>
    (coalesced s \<longrightarrow> coalesced (split_block order c r s))"
  using assms
proof (induction c arbitrary: s)
  case 0
  then show ?case by simp
next
  case (Suc c)
  show ?case
  proof (cases "order = Suc c")
    case True
    then show ?thesis using Suc.prems(3) by simp
  next
    case False
    then have oc: "order \<le> c" "order < Suc c" using Suc.prems(1) by auto
    have c52: "c < 52" using Suc.prems(2) by (simp add: MAX_ORDER_def)
    let ?b = "get_buddy r c"
    let ?s = "push_free c ?b s"
    have al: "aligned r c" "aligned ?b c"
      using Suc.prems(4) c52 aligned_mono aligned_get_buddy by blast+
    have parts: "block r (Suc c) = block r c \<union> block ?b c" "block r c \<inter> block ?b c = {}"
      using block_split [OF c52] block_buddy_disjoint [OF c52] by auto
    have wf: "kmem_wf ?s" using Suc.prems parts al by (intro kmem_wf_push) auto
    have co: "coalesced ?s" if "coalesced s"
    proof -
      have "r \<notin> set (freelist s c)"
      proof
        assume "r \<in> set (freelist s c)"
        then have "r \<in> free_mem s" by (rule free_nodeI)
        with Suc.prems(5) show False using block_self [of r "Suc c"] by blast
      qed
      moreover have "?b \<noteq> r" using bit_get_buddy [OF c52, of r "12 + c"] by auto
      then have "r \<noteq> ?b" by simp
      ultimately show ?thesis using that by (intro coalesced_push) auto
    qed
    have sub: "block r order \<subseteq> block r c"
      using oc by (auto simp: mem_block_iff)
    have IH: "kmem_wf (split_block order c r ?s) \<and>
        free_mem (split_block order c r ?s) = free_mem ?s \<union> (block r c - block r order) \<and>
        usable (split_block order c r ?s) = usable ?s \<and>
        (coalesced ?s \<longrightarrow> coalesced (split_block order c r ?s))"
      using Suc.IH [of ?s] oc Suc.prems(2,5,6) wf al parts by auto
    then show ?thesis using oc parts sub co by auto
  qed
qed

lemma split_block_frame [simp]:
  "kend (split_block order c r s) = kend s" "refcount (split_block order c r s) = refcount s"
  "order_map (split_block order c r s) = order_map s" "phys (split_block order c r s) = phys s"
  by (induction c arbitrary: s) simp_all

lemma aligned_antimono: "aligned a k \<Longrightarrow> j \<le> k \<Longrightarrow> aligned a j"
  by (auto simp: aligned_iff)

lemma block_mono: "j \<le> k \<Longrightarrow> block a j \<subseteq> block a k"
  by (auto simp: mem_block_iff)

lemma usable_nonzero: "KERNBASE \<le> kend s \<Longrightarrow> x \<in> usable s \<Longrightarrow> x \<noteq> 0"
  by (auto simp: usable_def KERNBASE_def)

lemma coalesced_take:
  "coalesced s \<Longrightarrow> freelist s k = xs @ a # ys \<Longrightarrow>
     coalesced (s\<lparr>freelist := (freelist s)(k := xs @ ys)\<rparr>)"
  unfolding coalesced_def by (auto split: if_splits)

text \<open>What an allocation that took the block \<open>pa\<close> of the given order has done.\<close>

definition took :: "nat \<Rightarrow> kmem \<Rightarrow> addr \<Rightarrow> kmem \<Rightarrow> bool" where
  "took order s pa s' \<longleftrightarrow>
     pa \<noteq> 0 \<and> aligned pa order \<and> block pa order \<subseteq> free_mem s \<and> kmem_wf s' \<and>
     free_mem s' = free_mem s - block pa order \<and> kend s' = kend s \<and> refcount s' = refcount s \<and>
     phys s' = phys s \<and> order_map s' = (order_map s)(pa2index pa := of_nat order) \<and>
     (coalesced s \<longrightarrow> coalesced s')"

lemma took_split:
  assumes wf: "kmem_wf s" and oc: "order \<le> c" and fl: "freelist s c = r # rs"
  shows "took order s r
    ((split_block order c r (s\<lparr>freelist := (freelist s)(c := rs)\<rparr>))
       \<lparr>order_map := (order_map s)(pa2index r := of_nat order)\<rparr>)"
proof -
  define s1 where "s1 = s\<lparr>freelist := (freelist s)(c := rs)\<rparr>"
  define s2 where "s2 = split_block order c r s1"
  have fl': "freelist s c = [] @ r # rs" using fl by simp
  note take = kmem_wf_take [OF wf fl', simplified, folded s1_def]
  have us: "usable s1 = usable s" by (simp add: usable_def s1_def)
  have sub: "block r c \<subseteq> usable s"
    using take(3) wf by (auto simp: kmem_wf_def)
  have sp: "kmem_wf s2 \<and> free_mem s2 = free_mem s1 \<union> (block r c - block r order) \<and>
      usable s2 = usable s1 \<and> (coalesced s1 \<longrightarrow> coalesced s2)"
    unfolding s2_def using oc take sub us by (intro split_block_spec) auto
  have r0: "r \<noteq> 0"
    using sub block_self [of r c] usable_nonzero wf unfolding kmem_wf_def by blast
  have fm: "free_mem s2 = free_mem s - block r order"
    using sp take(2,3) block_mono [OF oc, of r] by auto
  have co: "coalesced s1" if "coalesced s"
    using coalesced_take [OF that fl'] by (simp add: s1_def)
  have bl: "block r order \<subseteq> free_mem s" using take(3) block_mono [OF oc, of r] by blast
  define s3 where "s3 = s2\<lparr>order_map := (order_map s)(pa2index r := of_nat order)\<rparr>"
  have "freelist s3 = freelist s2" "kend s3 = kend s2" by (simp_all add: s3_def)
  then have "kmem_wf s3 = kmem_wf s2" "free_mem s3 = free_mem s2" "coalesced s3 = coalesced s2"
    by (intro kmem_wf_cong free_mem_cong coalesced_cong; simp)+
  moreover have "kend s3 = kend s" "refcount s3 = refcount s" "phys s3 = phys s"
      "order_map s3 = (order_map s)(pa2index r := of_nat order)"
    by (simp_all add: s3_def s2_def s1_def)
  ultimately have "took order s r s3"
    using r0 fm co bl sp aligned_antimono [OF take(5) oc] unfolding took_def by simp
  then show ?thesis by (simp add: s3_def s2_def s1_def)
qed

lemma buddy_alloc_loop_spec:
  assumes "kmem_wf s" "order \<le> c" "buddy_alloc_loop order c s = (pa, s')"
  shows "(pa = 0 \<and> s' = s \<and> (\<forall>k. c \<le> k \<and> k \<le> MAX_ORDER \<longrightarrow> freelist s k = [])) \<or> took order s pa s'"
  using assms
proof (induction order c s rule: buddy_alloc_loop.induct)
  case (1 order c s)
  show ?case
  proof (cases "c \<le> MAX_ORDER")
    case False
    then show ?thesis using "1.prems"(3) by (auto simp: buddy_alloc_loop.simps)
  next
    case c: True
    show ?thesis
    proof (cases "freelist s c")
      case Nil
      have "buddy_alloc_loop order (Suc c) s = (pa, s')"
        using "1.prems"(3) c Nil by (subst (asm) buddy_alloc_loop.simps) simp
      then have "(pa = 0 \<and> s' = s \<and> (\<forall>k. Suc c \<le> k \<and> k \<le> MAX_ORDER \<longrightarrow> freelist s k = [])) \<or> took order s pa s'"
        using "1.IH" [OF c Nil "1.prems"(1)] "1.prems"(2) by simp
      moreover have "freelist s k = []" if "c \<le> k" "\<not> Suc c \<le> k" for k
        using that Nil by (metis le_antisym not_less_eq_eq)
      ultimately show ?thesis by blast
    next
      case (Cons r rs)
      then have "pa = r" "s' = (split_block order c r (s\<lparr>freelist := (freelist s)(c := rs)\<rparr>))
          \<lparr>order_map := (order_map s)(pa2index r := of_nat order)\<rparr>"
        using "1.prems"(3) c by (subst (asm) buddy_alloc_loop.simps, simp add: Let_def)+
      with took_split [OF "1.prems"(1,2) Cons] show ?thesis by simp
    qed
  qed
qed

section \<open>Blocks as intervals\<close>

lemma unat_drop_bit: "unat (drop_bit n (x :: u64)) = unat x div 2 ^ n"
  unfolding unsigned_drop_bit_eq
  using take_bit_nat_eq_self [OF unat_less_64, of x] by (simp add: drop_bit_eq_div)

lemma mem_block_unat: "x \<in> block a k \<longleftrightarrow> unat x div 2 ^ (12 + k) = unat a div 2 ^ (12 + k)"
  unfolding block_def mem_Collect_eq by (metis unat_drop_bit unat_eqD)

lemma aligned_unat: "aligned a k \<longleftrightarrow> 2 ^ (12 + k) dvd unat a"
proof -
  have "take_bit (12 + k) a = 0 \<longleftrightarrow> unat (take_bit (12 + k) a) = 0" by (simp add: unat_eq_0)
  also have "\<dots> \<longleftrightarrow> unat a mod 2 ^ (12 + k) = 0" by (simp add: unsigned_take_bit_eq) (simp add: take_bit_eq_mod)
  finally show ?thesis by (simp add: aligned_def dvd_eq_mod_eq_0)
qed

lemma block_interval:
  assumes "aligned a k"
  shows "x \<in> block a k \<longleftrightarrow> unat a \<le> unat x \<and> unat x < unat a + 2 ^ (12 + k)"
proof -
  from assms obtain q where q: "unat a = 2 ^ (12 + k) * q" by (auto simp: aligned_unat elim: dvdE)
  have pos: "(0::nat) < 2 ^ (12 + k)" by simp
  have "unat x div 2 ^ (12 + k) = q \<longleftrightarrow> 2 ^ (12 + k) * q \<le> unat x \<and> unat x < 2 ^ (12 + k) * q + 2 ^ (12 + k)"
    using pos by (metis add.commute div_nat_eqI dividend_less_times_div mult.commute mult_Suc_right times_div_less_eq_dividend)
  with q pos show ?thesis unfolding mem_block_unat by simp
qed

text \<open>A small allocator state: one free block of four pages, 4 MB above the kernel.\<close>

definition sample_kmem :: kmem where
  "sample_kmem = \<lparr>kend = 0x80400000, freelist = (\<lambda>k. if k = 2 then [0x80400000] else []),
     refcount = (\<lambda>i. 0), order_map = (\<lambda>i. 0), phys = (\<lambda>a. 0)\<rparr>"

lemma sample_free_blocks: "free_blocks sample_kmem = {(2, 0x80400000)}"
  by (auto simp: free_blocks_def sample_kmem_def split: if_splits)

lemma sample_aligned: "aligned 0x80400000 2" "aligned 0x80400000 0"
  by (simp_all add: aligned_unat)

lemma sample_wf: "kmem_wf sample_kmem"
proof -
  have fm: "free_mem sample_kmem = block 0x80400000 2"
    by (simp add: free_mem_def sample_free_blocks)
  have "block 0x80400000 2 \<subseteq> usable sample_kmem"
    by (auto simp: block_interval [OF sample_aligned(1)] usable_def sample_kmem_def
        word_le_nat_alt word_less_nat_alt PHYSTOP_def KERNBASE_def)
  then show ?thesis
    unfolding kmem_wf_def fm sample_free_blocks
    using sample_aligned by (simp add: sample_kmem_def MAX_ORDER_def KERNBASE_def)
qed

text \<open>
  C1. Buddy allocation is exact. In a well-formed state \<open>buddy_alloc(order)\<close> either
  returns null, leaves the state unchanged and every list from that order up is empty, or
  returns the address of an aligned block that was wholly free; then precisely that block
  has left the free memory, and the invariant, the coalescing of the free lists and all
  reference counts are kept.
\<close>

theorem buddy_alloc_correct:
  assumes "kmem_wf s" "buddy_alloc order s = (pa, s')"
  shows "(pa = 0 \<and> s' = s \<and> (\<forall>k. order \<le> k \<and> k \<le> MAX_ORDER \<longrightarrow> freelist s k = [])) \<or>
    (pa \<noteq> 0 \<and> aligned pa order \<and> block pa order \<subseteq> free_mem s \<and>
     free_mem s' = free_mem s - block pa order \<and> kmem_wf s' \<and>
     (coalesced s \<longrightarrow> coalesced s') \<and> refcount s' = refcount s \<and> phys s' = phys s)"
  using buddy_alloc_loop_spec [of s order order pa s'] assms
  by (auto simp: buddy_alloc_def took_def)

theorem buddy_alloc_correct_witness:
  "kmem_wf sample_kmem \<and> fst (buddy_alloc 0 sample_kmem) = 0x80400000 \<and>
   free_mem (snd (buddy_alloc 0 sample_kmem)) = free_mem sample_kmem - block 0x80400000 0"
proof -
  have e: "fst (buddy_alloc 0 sample_kmem) = 0x80400000"
    by (simp add: buddy_alloc_def buddy_alloc_loop.simps sample_kmem_def MAX_ORDER_def Let_def)
  have "buddy_alloc 0 sample_kmem = (0x80400000, snd (buddy_alloc 0 sample_kmem))"
    using e by (metis prod.collapse)
  from buddy_alloc_correct [OF sample_wf this] show ?thesis using e sample_wf by simp
qed

section \<open>Freeing\<close>

lemma unlink_node_True:
  "unlink_node b cs = (True, rest) \<Longrightarrow> \<exists>xs ys. cs = xs @ b # ys \<and> rest = xs @ ys"
proof (induction cs arbitrary: rest)
  case (Cons c cs)
  show ?case
  proof (cases "c = b")
    case True
    then show ?thesis using Cons.prems by (intro exI [of _ "[]"] exI [of _ cs]) auto
  next
    case False
    then obtain r' where "unlink_node b cs = (True, r')" "rest = c # r'"
      using Cons.prems by (auto split: prod.splits)
    with Cons.IH obtain xs ys where "cs = xs @ b # ys" "r' = xs @ ys" by blast
    then show ?thesis using \<open>rest = c # r'\<close> by (intro exI [of _ "c # xs"] exI [of _ ys]) auto
  qed
qed simp

lemma unlink_node_False: "unlink_node b cs = (False, rest) \<Longrightarrow> b \<notin> set cs \<and> rest = cs"
  by (induction cs arbitrary: rest) (auto split: if_splits prod.splits)

text \<open>
  The merging loop: the block it ends with and the free lists that remain cover what was
  free before together with the block it started from, and at the end the block has no
  free buddy unless it has the maximal order.
\<close>

definition merged :: "kmem \<Rightarrow> addr \<Rightarrow> nat \<Rightarrow> addr \<Rightarrow> nat \<Rightarrow> kmem \<Rightarrow> bool" where
  "merged s pa k pa' k' s' \<longleftrightarrow>
     kmem_wf s' \<and> k' \<le> MAX_ORDER \<and> aligned pa' k' \<and> block pa' k' \<inter> free_mem s' = {} \<and>
     free_mem s' \<union> block pa' k' = free_mem s \<union> block pa k \<and>
     (k' < MAX_ORDER \<longrightarrow> get_buddy pa' k' \<notin> set (freelist s' k')) \<and>
     (coalesced s \<longrightarrow> coalesced s') \<and>
     kend s' = kend s \<and> refcount s' = refcount s \<and> phys s' = phys s \<and> order_map s' = order_map s"

lemma merge_loop_spec:
  assumes "kmem_wf s" "k \<le> MAX_ORDER" "aligned pa k" "block pa k \<inter> free_mem s = {}"
    and "merge_loop pa k s = (pa', k', s')"
  shows "merged s pa k pa' k' s'"
  using assms
proof (induction "MAX_ORDER - k" arbitrary: pa k s rule: less_induct)
  case (less k pa s)
  show ?case
  proof (cases "k < MAX_ORDER")
    case False
    then show ?thesis using less.prems by (simp add: merge_loop.simps merged_def)
  next
    case k: True
    then have k52: "k < 52" by (simp add: MAX_ORDER_def)
    let ?b = "get_buddy pa k"
    let ?lo = "if ?b < pa then ?b else pa"
    obtain found rest where u: "unlink_node ?b (freelist s k) = (found, rest)"
      by (cases "unlink_node ?b (freelist s k)")
    show ?thesis
    proof (cases found)
      case False
      then have "?b \<notin> set (freelist s k)" using u unlink_node_False [of ?b "freelist s k" rest] by simp
      then show ?thesis
        using False u k less.prems by (simp add: merge_loop.simps [of pa k s] merged_def)
    next
      case True
      with u obtain xs ys where fl: "freelist s k = xs @ ?b # ys" and rest: "rest = xs @ ys"
        using unlink_node_True [of ?b "freelist s k" rest] by auto
      define s1 where "s1 = s\<lparr>freelist := (freelist s)(k := rest)\<rparr>"
      note take = kmem_wf_take [OF less.prems(1) fl, folded rest, folded s1_def]
      have lo: "block ?lo (Suc k) = block pa k \<union> block ?b k"
        using block_split [OF k52, of pa] block_buddy_eq [OF k52, of pa] by simp
      have step: "merge_loop ?lo (Suc k) s1 = (pa', k', s')"
        using less.prems(5) k u True by (simp add: merge_loop.simps [of pa k s] s1_def Let_def)
      have "merged s1 ?lo (Suc k) pa' k' s'"
      proof (rule less.hyps)
        show "aligned ?lo (Suc k)" using merge_aligned [OF k52 less.prems(3)] by simp
        show "block ?lo (Suc k) \<inter> free_mem s1 = {}"
          unfolding lo take(2) using less.prems(4) by auto
      qed (use k take(1) step in auto)
      moreover have "free_mem s1 \<union> block ?lo (Suc k) = free_mem s \<union> block pa k"
        unfolding lo take(2) using take(3) by auto
      moreover have "coalesced s1" if "coalesced s"
        using coalesced_take [OF that fl] by (simp add: s1_def rest)
      moreover have "kend s1 = kend s" "refcount s1 = refcount s" "phys s1 = phys s"
          "order_map s1 = order_map s" by (simp_all add: s1_def)
      ultimately show ?thesis by (simp add: merged_def)
    qed
  qed
qed

lemma clear_orders_apply:
  "clear_orders n i f j = (if i \<le> j \<and> j < i + n then 0 else f j)"
  by (induction n arbitrary: i f) auto

lemma buddy_free_spec:
  assumes "kmem_wf s" "k \<le> MAX_ORDER" "aligned pa k" "block pa k \<inter> free_mem s = {}"
    and "block pa k \<subseteq> usable s"
  shows "kmem_wf (buddy_free pa k s) \<and> free_mem (buddy_free pa k s) = free_mem s \<union> block pa k \<and>
    (coalesced s \<longrightarrow> coalesced (buddy_free pa k s)) \<and>
    refcount (buddy_free pa k s) = refcount s \<and> phys (buddy_free pa k s) = phys s \<and>
    kend (buddy_free pa k s) = kend s \<and>
    (\<forall>i. order_map (buddy_free pa k s) i = 0 \<or> order_map (buddy_free pa k s) i = order_map s i)"
proof -
  obtain pa' k' s1 where ml: "merge_loop pa k s = (pa', k', s1)" by (cases "merge_loop pa k s")
  note m = merge_loop_spec [OF assms(1-4) ml, unfolded merged_def]
  define s2 where "s2 = push_free k' pa' s1"
  define s3 where "s3 = buddy_free pa k s"
  have us: "usable s1 = usable s" using m by (simp add: usable_def)
  have fs: "free_mem s \<subseteq> usable s" using assms(1) by (simp add: kmem_wf_def)
  have "block pa' k' \<subseteq> usable s1" using m fs assms(5) unfolding us by blast
  then have wf: "kmem_wf s2" unfolding s2_def using m by (intro kmem_wf_push) auto
  have "k' < 52" using m by (simp add: MAX_ORDER_def)
  then have "get_buddy pa' k' \<noteq> pa'" using bit_get_buddy [of k' pa' "12 + k'"] by auto
  then have co: "coalesced s2" if "coalesced s" "k' < MAX_ORDER"
    unfolding s2_def using that m by (intro coalesced_push) auto
  have co': "coalesced s2" if "coalesced s" "\<not> k' < MAX_ORDER"
    using that m unfolding coalesced_def s2_def push_free_def by auto
  have "freelist s3 = freelist s2" "kend s3 = kend s2"
    by (simp_all add: s3_def buddy_free_def ml s2_def Let_def)
  then have "kmem_wf s3 = kmem_wf s2" "free_mem s3 = free_mem s2" "coalesced s3 = coalesced s2"
    by (intro kmem_wf_cong free_mem_cong coalesced_cong; simp)+
  moreover have "refcount s3 = refcount s" "phys s3 = phys s" "kend s3 = kend s"
      "\<forall>i. order_map s3 i = 0 \<or> order_map s3 i = order_map s i"
    using m by (simp_all add: s3_def buddy_free_def ml Let_def clear_orders_apply)
  moreover have "free_mem s2 = free_mem s \<union> block pa k"
    using m by (simp add: s2_def Un_commute)
  ultimately show ?thesis using wf co co' unfolding s3_def [symmetric] by blast
qed

text \<open>
  C2. Freeing is exact. Returning an aligned block that is not free and lies in the usable
  range adds precisely that block to the free memory, whatever merging takes place; the
  invariant holds again and, if no two buddies were free before, none are afterwards.
\<close>

theorem buddy_free_correct:
  assumes "kmem_wf s" "k \<le> MAX_ORDER" "aligned pa k" "block pa k \<inter> free_mem s = {}"
    and "block pa k \<subseteq> usable s"
  shows "kmem_wf (buddy_free pa k s) \<and> free_mem (buddy_free pa k s) = free_mem s \<union> block pa k \<and>
    (coalesced s \<longrightarrow> coalesced (buddy_free pa k s)) \<and>
    refcount (buddy_free pa k s) = refcount s \<and> phys (buddy_free pa k s) = phys s"
  using buddy_free_spec [OF assms] by blast

theorem buddy_free_correct_witness:
  "free_mem (buddy_free 0x80404000 0 sample_kmem) = free_mem sample_kmem \<union> block 0x80404000 0"
proof -
  have al: "aligned 0x80404000 0" by (simp add: aligned_unat)
  have fm: "free_mem sample_kmem = block 0x80400000 2"
    by (simp add: free_mem_def sample_free_blocks)
  have "block 0x80404000 0 \<inter> free_mem sample_kmem = {}"
    unfolding fm by (auto simp: block_interval [OF al] block_interval [OF sample_aligned(1)])
  moreover have "block 0x80404000 0 \<subseteq> usable sample_kmem"
    by (auto simp: block_interval [OF al] usable_def sample_kmem_def
        word_le_nat_alt word_less_nat_alt PHYSTOP_def KERNBASE_def)
  ultimately show ?thesis
    using buddy_free_correct [OF sample_wf _ al] by simp
qed

end
