(* ===== verification/Kpages.thy ===== *)
theory Kpages
  imports Kalloc
begin

text \<open>
  The page interface of \<open>kernel/kalloc.c\<close> over the buddy allocator: what \<open>kalloc\<close>,
  \<open>kfree\<close> and the reference counts guarantee, the interface the memory-management code
  relies on, and what \<open>kinit\<close> establishes.
\<close>

section \<open>Page indices\<close>

lemma pa2index_unat:
  assumes "KERNBASE \<le> x" "x < PHYSTOP"
  shows "pa2index x = (unat x - unat KERNBASE) div 4096" "pa2index x < 32768"
proof -
  have u: "unat (x - KERNBASE) = unat x - unat KERNBASE" using assms(1) by (simp add: unat_sub)
  have ph: "unat PHYSTOP = unat KERNBASE + 134217728" by (simp add: PHYSTOP_def KERNBASE_def)
  have lt: "unat x - unat KERNBASE < 134217728"
    using assms(2) ph by (simp add: word_less_nat_alt)
  have d: "unat ((x - KERNBASE) div PGSIZE) = (unat x - unat KERNBASE) div 4096"
    by (simp add: unat_div_distrib u PGSIZE_def)
  have small: "(unat x - unat KERNBASE) div 4096 < 32768" using lt by simp
  have "unat (ucast ((x - KERNBASE) div PGSIZE) :: u32) = take_bit 32 (unat ((x - KERNBASE) div PGSIZE))"
    by (simp add: unsigned_ucast_eq)
  then show "pa2index x = (unat x - unat KERNBASE) div 4096"
    using d small by (simp add: pa2index_def take_bit_nat_eq_self)
  with small show "pa2index x < 32768" by simp
qed

lemma pa2index_eq_iff:
  assumes "KERNBASE \<le> x" "x < PHYSTOP" "KERNBASE \<le> y" "y < PHYSTOP"
  shows "pa2index x = pa2index y \<longleftrightarrow> y \<in> block x 0"
proof -
  obtain p q where p: "unat x = unat KERNBASE + p" and q: "unat y = unat KERNBASE + q"
    using assms by (metis le_Suc_ex word_le_nat_alt)
  have "unat KERNBASE = 4096 * 524288" by (simp add: KERNBASE_def)
  then have "unat x div 4096 = 524288 + p div 4096" "unat y div 4096 = 524288 + q div 4096"
    using p q by (simp_all add: div_mult_self4)
  then show ?thesis
    using p q by (auto simp: pa2index_unat(1) [OF assms(1,2)] pa2index_unat(1) [OF assms(3,4)] mem_block_unat)
qed

section \<open>The allocator invariant with reference counts\<close>

text \<open>
  Only blocks of order 0 are ever handed out, so \<open>order_map\<close> is 0 on every page, and a
  free page has reference count 0.
\<close>

definition kmem_inv :: "kmem \<Rightarrow> bool" where
  "kmem_inv s \<longleftrightarrow> kmem_wf s \<and> (\<forall>x \<in> usable s. order_map s (pa2index x) = 0) \<and>
     (\<forall>x \<in> free_mem s. refcount s (pa2index x) = 0)"

definition page_of :: "addr \<Rightarrow> addr set" where
  "page_of pa = block pa 0"

text \<open>A page that is in use: page-aligned, in the usable range and not free.\<close>

definition in_use :: "kmem \<Rightarrow> addr \<Rightarrow> bool" where
  "in_use s pa \<longleftrightarrow> aligned pa 0 \<and> page_of pa \<subseteq> usable s \<and> page_of pa \<inter> free_mem s = {}"

lemma usable_bounds:
  "kmem_wf s \<Longrightarrow> x \<in> usable s \<Longrightarrow> KERNBASE \<le> x \<and> x < PHYSTOP"
  by (auto simp: kmem_wf_def usable_def)

lemma pa2index_usable:
  "kmem_wf s \<Longrightarrow> x \<in> usable s \<Longrightarrow> y \<in> usable s \<Longrightarrow> pa2index x = pa2index y \<longleftrightarrow> y \<in> page_of x"
  unfolding page_of_def using pa2index_eq_iff usable_bounds by blast

lemma page_of_self [simp]: "pa \<in> page_of pa"
  by (simp add: page_of_def)

lemma page_of_range: "aligned pa 0 \<Longrightarrow> x \<in> page_of pa \<longleftrightarrow> in_range x pa 4096"
proof -
  assume al: "aligned pa 0"
  have "unat pa + 4096 \<le> 2 ^ 64"
    using al unat_less_64 [of pa] by (auto simp: aligned_unat elim!: dvdE)
  then show ?thesis
    by (simp add: page_of_def block_interval [OF al] in_range_nowrap)
qed

lemma page_of_disjoint:
  "aligned p 0 \<Longrightarrow> aligned q 0 \<Longrightarrow> p \<noteq> q \<Longrightarrow> page_of p \<inter> page_of q = {}"
  unfolding page_of_def by (metis aligned_block_inject block_eqI disjoint_iff)

lemma in_use_usable: "in_use s pa \<Longrightarrow> pa \<in> usable s"
  using page_of_self [of pa] by (auto simp: in_use_def)

lemma not_bad_pa: "in_use s pa \<Longrightarrow> \<not> bad_pa s pa"
  using in_use_usable [of s pa]
  by (auto simp: in_use_def bad_pa_def usable_def mod_PGSIZE aligned_def)

lemma free_mem_page_subset:
  assumes "kmem_wf s" "x \<in> free_mem s"
  shows "page_of x \<subseteq> free_mem s"
proof -
  obtain k a where "a \<in> set (freelist s k)" "x \<in> block a k" using assms(2) by (auto simp: free_mem_iff)
  moreover have "page_of x \<subseteq> block a k" if "x \<in> block a k"
    unfolding page_of_def using that block_mono [of 0 k x] block_eqI [OF that] by auto
  ultimately show ?thesis unfolding free_mem_iff subset_iff by blast
qed

lemma in_useI:
  assumes "kmem_wf s" "\<not> bad_pa s pa" "kend s mod PGSIZE = 0" "pa \<notin> free_mem s"
  shows "in_use s pa"
proof -
  have al: "aligned pa 0" using assms(2) by (simp add: bad_pa_def mod_PGSIZE aligned_def)
  have "page_of pa \<subseteq> usable s"
  proof
    fix x assume "x \<in> page_of pa"
    then have x: "unat pa \<le> unat x" "unat x < unat pa + 4096"
      using block_interval [OF al, of x] by (auto simp: page_of_def)
    have ph: "4096 dvd unat PHYSTOP" by (simp add: PHYSTOP_def KERNBASE_def)
    have "4096 dvd unat pa" using al by (simp add: aligned_unat)
    moreover have "unat pa < unat PHYSTOP" using assms(2) by (auto simp: bad_pa_def word_less_nat_alt word_le_nat_alt)
    ultimately have "unat pa + 4096 \<le> unat PHYSTOP" using ph by (metis add_le_mono1 dvd_diff_nat dvd_imp_le le_add_diff_inverse2 less_imp_le_nat zero_less_diff add.commute)
    then have "x < PHYSTOP" using x by (simp add: word_less_nat_alt)
    moreover have "kend s \<le> x" using assms(2) x by (auto simp: bad_pa_def word_less_nat_alt word_le_nat_alt)
    ultimately show "x \<in> usable s" by (simp add: usable_def)
  qed
  moreover have "page_of pa \<inter> free_mem s = {}"
  proof (rule ccontr)
    assume "page_of pa \<inter> free_mem s \<noteq> {}"
    then obtain x where "x \<in> page_of pa" "x \<in> free_mem s" by blast
    then have "pa \<in> page_of x" by (metis block_eqI block_self page_of_def)
    with free_mem_page_subset [OF assms(1) \<open>x \<in> free_mem s\<close>] assms(4) show False by blast
  qed
  ultimately show ?thesis using al by (simp add: in_use_def)
qed

section \<open>kalloc\<close>

lemma kalloc_spec:
  assumes "kmem_inv s" "kalloc s = (pa, s')"
  shows "(pa = 0 \<and> s' = s \<and> free_mem s = {}) \<or>
    (pa \<noteq> 0 \<and> kmem_inv s' \<and> in_use s' pa \<and> page_of pa \<subseteq> free_mem s \<and>
     free_mem s' = free_mem s - page_of pa \<and> kend s' = kend s \<and>
     refcount s' = (refcount s)(pa2index pa := 1) \<and>
     phys s' = (\<lambda>a. if a \<in> page_of pa then 5 else phys s a))"
proof -
  obtain p s1 where ba: "buddy_alloc 0 s = (p, s1)" by (cases "buddy_alloc 0 s")
  have wf: "kmem_wf s" using assms(1) by (simp add: kmem_inv_def)
  from buddy_alloc_loop_spec [OF wf order_refl, of 0] ba
  consider (none) "p = 0" "s1 = s" "\<forall>k. 0 \<le> k \<and> k \<le> MAX_ORDER \<longrightarrow> freelist s k = []"
    | (some) "took 0 s p s1"
    unfolding buddy_alloc_def by blast
  then show ?thesis
  proof cases
    case none
    have "k \<le> MAX_ORDER" if "a \<in> set (freelist s k)" for a k
      using that wf by (auto simp: kmem_wf_def free_blocks_def)
    then have "free_mem s = {}" using none(3) by (fastforce simp: free_mem_iff)
    then show ?thesis using none assms(2) ba by (simp add: kalloc_def)
  next
    case some
    note t = some [unfolded took_def, folded page_of_def]
    let ?s2 = "s1\<lparr>phys := memset (phys s1) p 5 4096\<rparr>"
    have s': "pa = p" "s' = ?s2\<lparr>refcount := (refcount s1)(pa2index p := 1)\<rparr>"
      using t assms(2) ba by (auto simp: kalloc_def Let_def)
    have wf': "kmem_wf s'" using t s'(2) kmem_wf_cong [of s' s1] by simp
    have fm: "free_mem s' = free_mem s - page_of p" using t s'(2) free_mem_cong [of s' s1] by simp
    have us: "usable s' = usable s" using t s'(2) by (simp add: usable_def)
    have fu: "free_mem s \<subseteq> usable s" using wf by (simp add: kmem_wf_def)
    have rc: "refcount s' = (refcount s)(pa2index p := 1)" using t s'(2) by simp
    have om: "order_map s' (pa2index x) = 0" if "x \<in> usable s" for x
      using that assms(1) t s'(2) by (simp add: kmem_inv_def)
    have "refcount s' (pa2index x) = 0" if x: "x \<in> free_mem s'" for x
    proof -
      have "x \<in> free_mem s" "x \<notin> page_of p" using x fm by auto
      moreover have "p \<in> usable s" using t fu page_of_self [of p] by blast
      ultimately have "pa2index p \<noteq> pa2index x"
        using pa2index_eq_iff [of p x] usable_bounds [OF wf] fu unfolding page_of_def by blast
      then show ?thesis using \<open>x \<in> free_mem s\<close> assms(1) by (simp add: rc kmem_inv_def)
    qed
    then have inv: "kmem_inv s'" using wf' om us by (simp add: kmem_inv_def)
    have "phys s' = (\<lambda>a. if a \<in> page_of p then 5 else phys s a)"
      using t s'(2) by (simp add: memset_eq page_of_range fun_eq_iff)
    moreover have "in_use s' p" using t fm us fu by (auto simp: in_use_def)
    moreover have "kend s' = kend s" using t s'(2) by simp
    ultimately show ?thesis using s'(1) t inv fm rc by simp
  qed
qed


lemma sample_inv: "kmem_inv sample_kmem"
  by (simp add: kmem_inv_def sample_wf) (simp add: sample_kmem_def)

lemma sample_kalloc: "fst (kalloc sample_kmem) = 0x80400000"
  by (simp add: kalloc_def buddy_alloc_def buddy_alloc_loop.simps sample_kmem_def MAX_ORDER_def Let_def)


section \<open>Reference counts and kfree\<close>

lemma kmem_inv_refcount:
  assumes "kmem_inv s" "in_use s pa"
  shows "kmem_inv (s\<lparr>refcount := (refcount s)(pa2index pa := n)\<rparr>)"
proof -
  let ?s = "s\<lparr>refcount := (refcount s)(pa2index pa := n)\<rparr>"
  have wf: "kmem_wf s" and fu: "free_mem s \<subseteq> usable s" using assms(1) by (auto simp: kmem_inv_def kmem_wf_def)
  have "pa2index x \<noteq> pa2index pa" if "x \<in> free_mem s" for x
    using pa2index_eq_iff [of pa x] usable_bounds [OF wf, of x] usable_bounds [OF wf in_use_usable [OF assms(2)]]
      assms(2) that fu unfolding in_use_def page_of_def by fastforce
  then show ?thesis
    using assms(1) kmem_wf_cong [of ?s s] free_mem_cong [of ?s s]
    by (auto simp: kmem_inv_def usable_def)
qed

lemma kfree_spec:
  assumes "kmem_inv s" "in_use s pa" "refcount s (pa2index pa) = 0"
  shows "\<exists>s'. kfree pa s = Ret s' \<and> kmem_inv s' \<and> free_mem s' = free_mem s \<union> page_of pa \<and>
    kend s' = kend s \<and> refcount s' = refcount s \<and>
    phys s' = (\<lambda>a. if a \<in> page_of pa then 1 else phys s a)"
proof -
  let ?s1 = "s\<lparr>phys := memset (phys s) pa 1 4096\<rparr>"
  have wf: "kmem_wf s" using assms(1) by (simp add: kmem_inv_def)
  have om: "order_map s (pa2index pa) = 0"
    using assms(1) in_use_usable [OF assms(2)] by (simp add: kmem_inv_def)
  have kf: "kfree pa s = Ret (buddy_free pa 0 ?s1)"
    using not_bad_pa [OF assms(2)] assms(3) om by (simp add: kfree_def getref_def Let_def)
  have al: "aligned pa 0" using assms(2) by (simp add: in_use_def)
  have c1: "kmem_wf ?s1 = kmem_wf s" "free_mem ?s1 = free_mem s" "usable ?s1 = usable s"
    using kmem_wf_cong [of ?s1 s] free_mem_cong [of ?s1 s] by (simp_all add: usable_def)
  define s' where "s' = buddy_free pa 0 ?s1"
  have sp: "kmem_wf s'" "free_mem s' = free_mem s \<union> page_of pa" "refcount s' = refcount s"
      "phys s' = memset (phys s) pa 1 4096" "kend s' = kend s"
      "\<forall>i. order_map s' i = 0 \<or> order_map s' i = order_map s i"
    using buddy_free_spec [of ?s1 0 pa] wf assms(2) c1 unfolding s'_def in_use_def page_of_def by simp_all
  have us: "usable s' = usable s" using sp(5) by (simp add: usable_def)
  have ref0: "refcount s (pa2index x) = 0" if "x \<in> page_of pa" for x
  proof -
    have "x \<in> usable s" using that assms(2) by (auto simp: in_use_def)
    then have "pa2index pa = pa2index x"
      using that pa2index_eq_iff [of pa x] usable_bounds [OF wf, of x]
        usable_bounds [OF wf in_use_usable [OF assms(2)]] unfolding page_of_def by blast
    then show ?thesis using assms(3) by simp
  qed
  have "kmem_inv s'"
    using sp us ref0 assms(1) unfolding kmem_inv_def by (metis Un_iff)
  then show ?thesis
    using sp kf unfolding s'_def [symmetric] by (auto simp: memset_eq page_of_range [OF al] fun_eq_iff)
qed

text \<open>
  C11. A page fresh from \<open>kalloc\<close> carries reference count 1, and \<open>kfree\<close> does nothing on a
  page whose count is positive: giving a page straight back with \<open>kfree\<close>, without \<open>decref\<close>,
  leaves the whole allocator state unchanged, so the page stays allocated.
\<close>

theorem kfree_without_decref:
  assumes "kmem_inv s" "kalloc s = (pa, s')" "pa \<noteq> 0"
  shows "kfree pa s' = Ret s' \<and> page_of pa \<inter> free_mem s' = {}"
proof -
  have k: "in_use s' pa" "refcount s' (pa2index pa) = 1" "free_mem s' = free_mem s - page_of pa"
    using kalloc_spec [OF assms(1,2)] assms(3) by simp_all
  then show ?thesis using not_bad_pa [OF k(1)] by (auto simp: kfree_def getref_def)
qed

theorem kfree_without_decref_witness:
  "kfree 0x80400000 (snd (kalloc sample_kmem)) = Ret (snd (kalloc sample_kmem))"
proof -
  have "kalloc sample_kmem = (0x80400000, snd (kalloc sample_kmem))"
    using sample_kalloc by (metis prod.collapse)
  from kfree_without_decref [OF sample_inv this] show ?thesis by simp
qed

text \<open>
  How \<open>uvmunmap\<close> gives up a reference: \<open>decref\<close>, and \<open>kfree\<close> when it was the last one. A
  page shared \<open>n\<close> times and then given up \<open>m\<close> times is described by iterating the operations.
\<close>

definition drop_ref :: "addr \<Rightarrow> kmem \<Rightarrow> kmem kres" where
  "drop_ref pa s = kbind (decref pa s) (\<lambda>(last, s1). if last then kfree pa s1 else Ret s1)"

primrec increfs :: "nat \<Rightarrow> addr \<Rightarrow> kmem \<Rightarrow> kmem kres" where
  "increfs 0 pa s = Ret s"
| "increfs (Suc n) pa s = kbind (incref pa s) (increfs n pa)"

primrec drop_refs :: "nat \<Rightarrow> addr \<Rightarrow> kmem \<Rightarrow> kmem kres" where
  "drop_refs 0 pa s = Ret s"
| "drop_refs (Suc n) pa s = kbind (drop_ref pa s) (drop_refs n pa)"

definition with_ref :: "addr \<Rightarrow> nat \<Rightarrow> kmem \<Rightarrow> kmem" where
  "with_ref pa n s = s\<lparr>refcount := (refcount s)(pa2index pa := of_nat n)\<rparr>"

lemma free_mem_with_ref [simp]: "free_mem (with_ref pa n s) = free_mem s"
  by (intro free_mem_cong) (simp add: with_ref_def)

lemma with_ref_fields [simp]:
  "refcount (with_ref pa n s) = (refcount s)(pa2index pa := of_nat n)"
  "kend (with_ref pa n s) = kend s" "phys (with_ref pa n s) = phys s"
  "with_ref pa m (with_ref pa n s) = with_ref pa m s"
  by (simp_all add: with_ref_def)

lemma in_use_with_ref [simp]: "in_use (with_ref pa n s) q = in_use s q"
  by (simp add: in_use_def usable_def)

lemma bad_pa_with_ref [simp]: "bad_pa (with_ref pa n s) q = bad_pa s q"
  by (simp add: bad_pa_def)

lemma with_ref_upd: "(with_ref pa n s)\<lparr>refcount := (refcount s)(pa2index pa := of_nat m)\<rparr> = with_ref pa m s"
  by (simp add: with_ref_def)

lemma with_ref_1: "refcount s (pa2index pa) = 1 \<Longrightarrow> with_ref pa 1 s = s"
proof -
  assume "refcount s (pa2index pa) = 1"
  then have "(refcount s)(pa2index pa := 1) = refcount s" by (simp add: fun_upd_idem)
  then show ?thesis by (simp add: with_ref_def)
qed

lemma of_nat_u8_less: "n < 256 \<Longrightarrow> (of_nat n :: u8) < 255 \<longleftrightarrow> n < 255"
  by (simp add: word_less_nat_alt unat_of_nat)

lemma of_nat_u8_eq_0: "n < 256 \<Longrightarrow> (of_nat n :: u8) = 0 \<longleftrightarrow> n = 0"
  by (auto simp: unat_eq_0 [symmetric] unat_of_nat)

lemma incref_with_ref:
  assumes "in_use s pa" "n \<le> 255"
  shows "incref pa (with_ref pa n s) = Ret (with_ref pa (min (Suc n) 255) s)"
  using assms not_bad_pa [of s pa] with_ref_upd [of s pa "Suc n" n]
  by (cases "n = 255") (auto simp: incref_def Let_def of_nat_u8_less min_def add.commute)

lemma increfs_with_ref:
  assumes "in_use s pa" "n \<le> 255"
  shows "increfs k pa (with_ref pa n s) = Ret (with_ref pa (min (k + n) 255) s)"
  using assms(2)
proof (induction k arbitrary: n)
  case (Suc k)
  then show ?case
    using incref_with_ref [OF assms(1), of n] Suc.IH [of "min (Suc n) 255"] by (simp add: min_def)
qed (simp add: min_def)

lemma drop_ref_shared:
  assumes "in_use s pa" "0 < n" "n < 255"
  shows "drop_ref pa (with_ref pa (Suc n) s) = Ret (with_ref pa n s)"
  using assms not_bad_pa [of s pa] of_nat_u8_eq_0 [of n] of_nat_u8_eq_0 [of "Suc n"] with_ref_upd [of s pa n "Suc n"]
  by (simp add: drop_ref_def decref_def Let_def)

lemma drop_refs_shared:
  assumes "in_use s pa" "0 < n" "m + n \<le> 255"
  shows "drop_refs m pa (with_ref pa (m + n) s) = Ret (with_ref pa n s)"
  using assms(3)
proof (induction m)
  case (Suc m)
  then show ?case using drop_ref_shared [OF assms(1), of "m + n"] assms(2) by simp
qed simp

lemma drop_ref_last:
  assumes "kmem_inv s" "in_use s pa"
  shows "\<exists>s'. drop_ref pa (with_ref pa 1 s) = Ret s' \<and> kmem_inv s' \<and>
    free_mem s' = free_mem s \<union> page_of pa \<and> refcount s' = (refcount s)(pa2index pa := 0) \<and>
    kend s' = kend s \<and> phys s' = (\<lambda>a. if a \<in> page_of pa then 1 else phys s a)"
proof -
  have "drop_ref pa (with_ref pa 1 s) = kfree pa (with_ref pa 0 s)"
    using assms(2) not_bad_pa [of s pa] with_ref_upd [of s pa 0 1]
    by (simp add: drop_ref_def decref_def Let_def)
  moreover have "kmem_inv (with_ref pa 0 s)"
    using kmem_inv_refcount [OF assms, of 0] by (simp add: with_ref_def)
  ultimately show ?thesis using kfree_spec [of "with_ref pa 0 s" pa] assms(2) by (auto cong: if_cong)
qed

lemma drop_refs_add: "drop_refs (m + n) pa s = kbind (drop_refs m pa s) (drop_refs n pa)"
proof (induction m arbitrary: s)
  case (Suc m)
  then show ?case by (cases "drop_ref pa s") simp_all
qed simp

lemma drop_refs_all:
  assumes "kmem_inv s" "in_use s pa" "n < 255"
  shows "\<exists>s'. drop_refs (Suc n) pa (with_ref pa (Suc n) s) = Ret s' \<and> kmem_inv s' \<and>
    free_mem s' = free_mem s \<union> page_of pa \<and> refcount s' = (refcount s)(pa2index pa := 0)"
proof -
  have "drop_refs (Suc n) pa (with_ref pa (Suc n) s) = drop_ref pa (with_ref pa 1 s)"
    using drop_refs_add [of n 1 pa] drop_refs_shared [OF assms(2), of 1 n] assms(3)
    by (cases "drop_ref pa (with_ref pa 1 s)") simp_all
  then show ?thesis using drop_ref_last [OF assms(1,2)] by metis
qed

text \<open>
  C9. The life of a shared page. A page from \<open>kalloc\<close> that is shared up to 254 more times
  stays in use, with the exact number of references left in its count, until the last
  reference is given up; then it is free again, and free memory and all reference counts
  are what they were before the allocation.
\<close>

theorem shared_page_lifecycle:
  assumes "kmem_inv s" "kalloc s = (pa, s1)" "pa \<noteq> 0" "n \<le> 254"
  shows "\<exists>s2. increfs n pa s1 = Ret s2 \<and>
    (\<forall>m \<le> n. \<exists>s3. drop_refs m pa s2 = Ret s3 \<and> in_use s3 pa \<and>
       refcount s3 (pa2index pa) = of_nat (n + 1 - m)) \<and>
    (\<exists>s4. drop_refs (n + 1) pa s2 = Ret s4 \<and> kmem_inv s4 \<and>
       free_mem s4 = free_mem s \<and> refcount s4 = refcount s)"
proof -
  have k: "in_use s1 pa" "kmem_inv s1" "page_of pa \<subseteq> free_mem s" "free_mem s1 = free_mem s - page_of pa"
      "refcount s1 = (refcount s)(pa2index pa := 1)"
    using kalloc_spec [OF assms(1,2)] assms(3) by simp_all
  have s1: "with_ref pa 1 s1 = s1" using k(5) by (intro with_ref_1) simp
  have z: "refcount s (pa2index pa) = 0" using assms(1) k(3) page_of_self [of pa] unfolding kmem_inv_def by blast
  have i: "increfs n pa s1 = Ret (with_ref pa (Suc n) s1)"
    using increfs_with_ref [OF k(1), of 1 n] assms(4) s1 by (simp add: min_def)
  have sh: "drop_refs m pa (with_ref pa (Suc n) s1) = Ret (with_ref pa (n + 1 - m) s1)" if "m \<le> n" for m
    using drop_refs_shared [OF k(1), of "n + 1 - m" m] that assms(4) by simp
  have "free_mem s1 \<union> page_of pa = free_mem s" using k(3,4) by blast
  moreover have "(refcount s1)(pa2index pa := 0) = refcount s" using k(5) z by (simp add: fun_eq_iff)
  ultimately show ?thesis
    using i sh k(1) drop_refs_all [OF k(2,1), of n] assms(4) by auto
qed

theorem shared_page_lifecycle_witness:
  "\<exists>s2 s4. increfs 3 0x80400000 (snd (kalloc sample_kmem)) = Ret s2 \<and>
     drop_refs 4 0x80400000 s2 = Ret s4 \<and> free_mem s4 = free_mem sample_kmem"
proof -
  have "kalloc sample_kmem = (0x80400000, snd (kalloc sample_kmem))"
    using sample_kalloc by (metis prod.collapse)
  from shared_page_lifecycle [OF sample_inv this, of 3] show ?thesis by auto
qed

text \<open>
  C10. The count saturates at 255, while giving up a reference always decrements it. A page
  referenced more than 255 times is freed after 255 references are given up, although
  references to it remain.
\<close>

theorem refcount_saturation_frees_early:
  assumes "kmem_inv s" "kalloc s = (pa, s1)" "pa \<noteq> 0" "n > 254"
  shows "\<exists>s2 s3. increfs n pa s1 = Ret s2 \<and> drop_refs 255 pa s2 = Ret s3 \<and>
    255 < n + 1 \<and> page_of pa \<subseteq> free_mem s3"
proof -
  have k: "in_use s1 pa" "kmem_inv s1" "refcount s1 = (refcount s)(pa2index pa := 1)"
    using kalloc_spec [OF assms(1,2)] assms(3) by simp_all
  have "increfs n pa s1 = Ret (with_ref pa 255 s1)"
    using increfs_with_ref [OF k(1), of 1 n] assms(4) k(3) with_ref_1 [of s1 pa] by (simp add: min_def)
  then show ?thesis using drop_refs_all [OF k(2,1), of 254] assms(4) by auto
qed

theorem refcount_saturation_frees_early_witness:
  "\<exists>s2 s3. increfs 255 0x80400000 (snd (kalloc sample_kmem)) = Ret s2 \<and>
     drop_refs 255 0x80400000 s2 = Ret s3 \<and> page_of 0x80400000 \<subseteq> free_mem s3"
proof -
  have "kalloc sample_kmem = (0x80400000, snd (kalloc sample_kmem))"
    using sample_kalloc by (metis prod.collapse)
  from refcount_saturation_frees_early [OF sample_inv this, of 255] show ?thesis by auto
qed

section \<open>The interface of a page allocator\<close>

text \<open>
  What the memory-management code relies on: an allocation takes a whole page out of free
  memory, or fails and changes nothing.
\<close>

primrec alloc_pages :: "('s \<Rightarrow> addr \<times> 's) \<Rightarrow> nat \<Rightarrow> 's \<Rightarrow> addr list \<times> 's" where
  "alloc_pages alloc 0 s = ([], s)"
| "alloc_pages alloc (Suc n) s =
     (case alloc s of (pa, s1) \<Rightarrow>
        if pa = 0 then ([], s1)
        else (case alloc_pages alloc n s1 of (pas, s2) \<Rightarrow> (pa # pas, s2)))"

locale page_allocator =
  fixes alloc :: "'s \<Rightarrow> addr \<times> 's"
    and inv :: "'s \<Rightarrow> bool"
    and free :: "'s \<Rightarrow> addr set"
    and page :: "addr \<Rightarrow> addr set"
  assumes page_self: "pa \<in> page pa"
    and alloc_fail: "inv s \<Longrightarrow> alloc s = (0, s') \<Longrightarrow> s' = s \<and> free s = {}"
    and alloc_ok: "inv s \<Longrightarrow> alloc s = (pa, s') \<Longrightarrow> pa \<noteq> 0 \<Longrightarrow>
      inv s' \<and> page pa \<subseteq> free s \<and> free s' = free s - page pa"
begin

lemma alloc_inv: "inv s \<Longrightarrow> alloc s = (pa, s') \<Longrightarrow> inv s'"
  using alloc_ok [of s pa s'] alloc_fail [of s s'] by (cases "pa = 0") auto

lemma alloc_free_mono: "inv s \<Longrightarrow> alloc s = (pa, s') \<Longrightarrow> free s' \<subseteq> free s"
  using alloc_ok [of s pa s'] alloc_fail [of s s'] by (cases "pa = 0") auto

lemma alloc_pages_spec:
  assumes "inv s" "alloc_pages alloc n s = (pas, s')"
  shows "inv s' \<and> 0 \<notin> set pas \<and> (\<forall>pa \<in> set pas. page pa \<subseteq> free s) \<and>
    free s' = free s - (\<Union>pa \<in> set pas. page pa) \<and> distinct pas \<and>
    (\<forall>p \<in> set pas. \<forall>q \<in> set pas. p \<noteq> q \<longrightarrow> page p \<inter> page q = {}) \<and>
    (length pas < n \<longrightarrow> free s' = {})"
  using assms
proof (induction n arbitrary: s pas s')
  case (Suc n)
  obtain pa s1 where a: "alloc s = (pa, s1)" by (cases "alloc s")
  show ?case
  proof (cases "pa = 0")
    case True
    then show ?thesis using Suc.prems a alloc_fail [of s s1] by auto
  next
    case False
    obtain qs s2 where r: "alloc_pages alloc n s1 = (qs, s2)" by (cases "alloc_pages alloc n s1")
    have ok: "inv s1" "page pa \<subseteq> free s" "free s1 = free s - page pa"
      using alloc_ok [OF Suc.prems(1) a False] by auto
    note IH = Suc.IH [OF ok(1) r]
    have out: "pas = pa # qs" "s' = s2" using Suc.prems(2) a False r by auto
    have dis: "page pa \<inter> page q = {}" if "q \<in> set qs" for q using IH ok(3) that by blast
    have "pa \<notin> set qs" using dis page_self by blast
    moreover have "\<forall>q \<in> set pas. page q \<subseteq> free s" using IH ok(2,3) out(1) by auto
    moreover have "free s' = free s - (\<Union>q \<in> set pas. page q)" using IH ok(3) out by auto
    moreover have "\<forall>p \<in> set pas. \<forall>q \<in> set pas. p \<noteq> q \<longrightarrow> page p \<inter> page q = {}"
      using IH dis out(1) by (auto simp: Int_commute)
    moreover have "length pas < Suc n \<longrightarrow> free s' = {}" using IH out by auto
    moreover have "inv s'" "0 \<notin> set pas" "distinct pas" using IH out False \<open>pa \<notin> set qs\<close> by auto
    ultimately show ?thesis by blast
  qed
qed simp

end

interpretation kpages: page_allocator kalloc kmem_inv free_mem page_of
proof
  fix s s' :: kmem and pa
  show "pa \<in> page_of pa" by simp
  show "s' = s \<and> free_mem s = {}" if "kmem_inv s" "kalloc s = (0, s')"
    using kalloc_spec [OF that] by auto
  show "kmem_inv s' \<and> page_of pa \<subseteq> free_mem s \<and> free_mem s' = free_mem s - page_of pa"
    if "kmem_inv s" "kalloc s = (pa, s')" "pa \<noteq> 0"
    using kalloc_spec [OF that(1,2)] that(3) by auto
qed

text \<open>
  C8. Successive calls of \<open>kalloc\<close> never hand out the same memory twice: the pages are
  distinct, pairwise disjoint, non-null and were all free; and fewer pages than asked for
  come back only when free memory is exhausted.
\<close>

theorem kalloc_pages_disjoint:
  assumes "kmem_inv s" "alloc_pages kalloc n s = (pas, s')"
  shows "distinct pas \<and> 0 \<notin> set pas \<and>
    (\<forall>p \<in> set pas. page_of p \<subseteq> free_mem s \<and> (\<forall>q \<in> set pas. p \<noteq> q \<longrightarrow> page_of p \<inter> page_of q = {})) \<and>
    kmem_inv s' \<and> free_mem s' = free_mem s - (\<Union>p \<in> set pas. page_of p) \<and>
    (length pas < n \<longrightarrow> free_mem s' = {})"
  using kpages.alloc_pages_spec [OF assms] by auto

theorem kalloc_pages_disjoint_witness:
  "distinct (fst (alloc_pages kalloc 3 sample_kmem)) \<and>
   hd (fst (alloc_pages kalloc 3 sample_kmem)) = 0x80400000"
proof -
  have "hd (fst (alloc_pages kalloc 3 sample_kmem)) = 0x80400000"
    using sample_kalloc by (cases "kalloc sample_kmem") (simp add: numeral_3_eq_3 split: prod.splits)
  with kalloc_pages_disjoint [OF sample_inv surjective_pairing [of "alloc_pages kalloc 3 sample_kmem"]]
  show ?thesis by blast
qed

end
