(* ===== verification/Kinit.thy ===== *)
theory Kinit
  imports Kpages
begin

text \<open>
  What \<open>kinit\<close> and \<open>freerange\<close> of \<open>kernel/kalloc.c\<close> build. The loops always end. When the
  page after the kernel image is aligned to the largest block size, the allocator starts
  in a state that satisfies its invariant and all usable memory is free; when it is not, the
  free lists overlap as soon as a large block is split.
\<close>

section \<open>The loops of freerange\<close>

lemma add_blocks_spec:
  assumes "unat pa_end + unat bs < 2 ^ 64" "0 < unat bs"
    and "unat current + n * unat bs \<le> unat pa_end" "unat pa_end < unat current + Suc n * unat bs"
  shows "add_blocks k bs pa_end current s =
    Some (current + of_nat n * bs,
      s\<lparr>freelist := (freelist s)(k := rev (map (\<lambda>i. current + of_nat i * bs) [0..<n]) @ freelist s k)\<rparr>)"
  using assms(3,4)
proof (induction n arbitrary: current s)
  case 0
  then have "unat (current + bs) = unat current + unat bs"
    using assms(1) by (intro unat_add_lem [THEN iffD1]) simp
  then have "\<not> current + bs \<le> pa_end" using 0 by (simp add: word_le_nat_alt)
  then show ?case by (simp add: add_blocks.simps)
next
  case (Suc n)
  have u: "unat (current + bs) = unat current + unat bs"
    using assms(1) Suc.prems by (intro unat_add_lem [THEN iffD1]) simp
  then have le: "current + bs \<le> pa_end" using Suc.prems(1) by (simp add: word_le_nat_alt)
  have IH: "add_blocks k bs pa_end (current + bs) (push_free k current s) =
    Some (current + bs + of_nat n * bs, (push_free k current s)\<lparr>freelist := (freelist (push_free k current s))
      (k := rev (map (\<lambda>i. current + bs + of_nat i * bs) [0..<n]) @ freelist (push_free k current s) k)\<rparr>)"
    by (rule Suc.IH) (use Suc.prems u in \<open>simp_all add: algebra_simps\<close>)
  have l: "rev (map (\<lambda>i. current + of_nat i * bs) [0..<Suc n]) =
      rev (map (\<lambda>i. current + bs + of_nat i * bs) [0..<n]) @ [current]"
    by (simp only: upt_conv_Cons [of 0 "Suc n"] map_Suc_upt [symmetric]) (simp add: comp_def algebra_simps)
  show ?case
    unfolding add_blocks.simps [of k bs pa_end current s] l using le IH
    by (simp add: push_free_def algebra_simps fun_upd_def cong: if_cong)
qed

lemma max_order_loop_max:
  assumes "0x400000 \<le> t * PGSIZE"
  shows "max_order_loop t 0 PGSIZE = (MAX_ORDER, 0x400000)"
proof -
  have le: "c \<le> t * PGSIZE" if "c \<le> 0x400000" for c using that assms by simp
  have step: "max_order_loop t k b = max_order_loop t (Suc k) (2 * b)"
    if "k < 10" "b * 2 \<le> 0x400000" for k b
    using that le [of "b * 2"]
    by (subst max_order_loop.simps) (simp add: push_bit_eq_mult mult.commute MAX_ORDER_def)
  have last: "max_order_loop t k b = (10, b)" if "k = 10" for k b
    using that by (subst max_order_loop.simps) (simp add: MAX_ORDER_def)
  show ?thesis by (simp add: PGSIZE_def step last MAX_ORDER_def)
qed

section \<open>An aligned start\<close>

lemma add_blocks_wf:
  assumes "kmem_wf s" "k \<le> MAX_ORDER" "aligned current k" "kend s \<le> current"
    and "unat current + n * 2 ^ (12 + k) \<le> unat PHYSTOP" "free_mem s \<inter> {x. current \<le> x} = {}"
  shows "kmem_wf (s\<lparr>freelist := (freelist s)(k := rev (map (\<lambda>i. current + of_nat i * 2 ^ (12 + k)) [0..<n]) @ freelist s k)\<rparr>) \<and>
    free_mem (s\<lparr>freelist := (freelist s)(k := rev (map (\<lambda>i. current + of_nat i * 2 ^ (12 + k)) [0..<n]) @ freelist s k)\<rparr>) =
    free_mem s \<union> {x. unat current \<le> unat x \<and> unat x < unat current + n * 2 ^ (12 + k)}"
  using assms(5)
proof (induction n)
  case 0
  then show ?case using assms(1) by auto
next
  case (Suc n)
  let ?bs = "2 ^ (12 + k) :: u64"
  let ?upd = "\<lambda>n. s\<lparr>freelist := (freelist s)(k := rev (map (\<lambda>i. current + of_nat i * ?bs) [0..<n]) @ freelist s k)\<rparr>"
  define a where "a = current + of_nat n * ?bs"
  have ph: "unat PHYSTOP < 2 ^ 64" by (rule unat_less_64)
  have k52: "12 + k < 64" using assms(2) by (simp add: MAX_ORDER_def)
  have un: "unat (of_nat n * ?bs) = n * 2 ^ (12 + k)"
  proof -
    have "n * 2 ^ (12 + k) < 2 ^ 64" using Suc.prems ph by simp
    then have "unat (of_nat (n * 2 ^ (12 + k)) :: u64) = n * 2 ^ (12 + k)" by (intro unat_of_nat_64) 
    then show ?thesis by simp
  qed
  have ua: "unat a = unat current + n * 2 ^ (12 + k)"
    unfolding a_def using Suc.prems ph un by (subst unat_add_lem [THEN iffD1]) simp_all
  have al: "aligned a k" using assms(3) by (simp add: aligned_unat ua)
  have step: "?upd (Suc n) = push_free k a (?upd n)" by (simp add: push_free_def a_def)
  have IH: "kmem_wf (?upd n)" "free_mem (?upd n) =
      free_mem s \<union> {x. unat current \<le> unat x \<and> unat x < unat current + n * 2 ^ (12 + k)}"
    using Suc.IH [OF le_trans [OF _ Suc.prems]] by (blast intro: add_left_mono mult_le_mono1 le_SucI)+
  have bl: "x \<in> block a k \<longleftrightarrow> unat a \<le> unat x \<and> unat x < unat a + 2 ^ (12 + k)" for x
    using block_interval [OF al, of x] by simp
  have "block a k \<inter> free_mem (?upd n) = {}"
    unfolding IH(2) using assms(6) by (auto simp: bl ua word_le_nat_alt)
  moreover have "block a k \<subseteq> usable (?upd n)"
    using Suc.prems assms(4) by (auto simp: bl ua usable_def word_le_nat_alt word_less_nat_alt)
  ultimately have "kmem_wf (push_free k a (?upd n))" using IH(1) assms(2) al by (intro kmem_wf_push)
  moreover have "free_mem (push_free k a (?upd n)) =
      free_mem s \<union> {x. unat current \<le> unat x \<and> unat x < unat current + Suc n * 2 ^ (12 + k)}"
    unfolding free_mem_push IH(2) by (auto simp: bl ua)
  ultimately show ?case unfolding step by blast
qed

definition boot_kmem :: "kmem \<Rightarrow> kmem" where
  "boot_kmem s = s\<lparr>freelist := (\<lambda>k. if k \<le> MAX_ORDER then [] else freelist s k),
     refcount := (\<lambda>i. if i < unat ((PHYSTOP - KERNBASE) div PGSIZE) then 0 else refcount s i),
     order_map := (\<lambda>i. if i < unat ((PHYSTOP - KERNBASE) div PGSIZE) then 0 else order_map s i)\<rparr>"

text \<open>With at least one largest block between \<open>p\<close> and \<open>PHYSTOP\<close>, \<open>kinit\<close> fills list 10 and list 0.\<close>

lemma kinit_eq:
  assumes "p = PGROUNDUP (kend s)" "KERNBASE \<le> p" "unat p + 0x400000 \<le> unat PHYSTOP"
    and n: "n = (unat PHYSTOP - unat p) div 0x400000" and m: "m = (unat PHYSTOP - unat p) mod 0x400000 div 4096"
  shows "kinit s = Some ((boot_kmem s)\<lparr>freelist := ((freelist (boot_kmem s))
      (MAX_ORDER := rev (map (\<lambda>i. p + of_nat i * 0x400000) [0..<n])))
      (0 := rev (map (\<lambda>i. p + of_nat n * 0x400000 + of_nat i * 4096) [0..<m]))\<rparr>)"
proof -
  define c where "c = p + of_nat n * 0x400000"
  define F where "F = rev (map (\<lambda>i. p + of_nat i * 0x400000) [0..<n])"
  define G where "G = rev (map (\<lambda>i. c + of_nat i * 4096) [0..<m])"
  have ph: "unat PHYSTOP = 0x88000000" by (simp add: PHYSTOP_def KERNBASE_def)
  define D where "D = unat PHYSTOP - unat p"
  have uph: "unat PHYSTOP = unat p + D" using assms(3) by (simp add: D_def)
  have nD: "n * 0x400000 + D mod 0x400000 = D" "D mod 0x400000 < 0x400000"
    unfolding n D_def [symmetric] by simp_all
  have mD: "m * 4096 + D mod 0x400000 mod 4096 = D mod 0x400000" "D mod 0x400000 mod 4096 < 4096"
    unfolding m D_def [symmetric] by simp_all
  have n4: "unat p + n * 0x400000 \<le> unat PHYSTOP" "unat PHYSTOP < unat p + Suc n * 0x400000"
    unfolding uph mult_Suc using nD by linarith+
  have m4: "unat p + n * 0x400000 + m * 4096 \<le> unat PHYSTOP" "unat PHYSTOP < unat p + n * 0x400000 + Suc m * 4096"
    unfolding uph mult_Suc using nD(1) mD by linarith+
  have un: "unat (of_nat n * 0x400000 :: u64) = n * 0x400000"
  proof -
    have "n * 0x400000 < 2 ^ 64" using n4(1) ph by simp
    then have "unat (of_nat (n * 0x400000) :: u64) = n * 0x400000" by (rule unat_of_nat_64)
    then show ?thesis by simp
  qed
  have uc: "unat c = unat p + n * 0x400000"
    unfolding c_def using n4(1) ph un by (subst unat_add_lem [THEN iffD1]) simp_all
  have d: "unat (PHYSTOP - p) = unat PHYSTOP - unat p"
    using assms(3) by (simp add: unat_sub word_le_nat_alt)
  have tot: "unat ((PHYSTOP - p) div PGSIZE * PGSIZE) = (unat PHYSTOP - unat p) div 4096 * 4096"
    using ph by (simp add: unat_mult_lem [THEN iffD1] unat_div_distrib d PGSIZE_def
        order_le_less_trans [OF div_times_less_eq_dividend])
  have "0x400000 \<le> (PHYSTOP - p) div PGSIZE * PGSIZE"
    unfolding word_le_nat_alt tot D_def [symmetric]
    using div_le_mono [of "0x400000" D 4096] assms(3) by (simp add: D_def)
  then have mo: "max_order_loop ((PHYSTOP - p) div PGSIZE) 0 PGSIZE = (MAX_ORDER, 0x400000)"
    by (rule max_order_loop_max)
  let ?s1 = "(boot_kmem s)\<lparr>freelist := (freelist (boot_kmem s))(MAX_ORDER := F)\<rparr>"
  have b1: "add_blocks MAX_ORDER 0x400000 PHYSTOP p (boot_kmem s) = Some (c, ?s1)"
    using add_blocks_spec [of PHYSTOP "0x400000" p n MAX_ORDER "boot_kmem s"] n4 ph
    by (simp add: c_def F_def boot_kmem_def)
  have b2: "add_blocks 0 PGSIZE PHYSTOP c ?s1 = Some (c + of_nat m * PGSIZE,
      ?s1\<lparr>freelist := (freelist ?s1)(0 := G)\<rparr>)"
    using add_blocks_spec [of PHYSTOP PGSIZE c m 0 ?s1] m4 ph uc
    by (simp add: PGSIZE_def G_def MAX_ORDER_def boot_kmem_def)
  show ?thesis
    unfolding F_def [symmetric] c_def [symmetric] G_def [symmetric]
    using mo b1 b2 by (simp add: kinit_def freerange_def Let_def assms(1) [symmetric] boot_kmem_def)
qed

text \<open>
  C12. Boot. When the kernel image ends at a multiple of the largest block size (4 MB),
  \<open>kinit\<close> ends, establishes the allocator invariant, and makes all memory from the end of
  the kernel to \<open>PHYSTOP\<close> free. The free lists are those of orders up to \<open>MAX_ORDER\<close>.
\<close>

theorem kinit_correct:
  assumes "aligned (kend s) MAX_ORDER" "KERNBASE \<le> kend s" "kend s < PHYSTOP"
    and "\<forall>k > MAX_ORDER. freelist s k = []"
  shows "\<exists>s'. kinit s = Some s' \<and> kmem_inv s' \<and> free_mem s' = usable s \<and> kend s' = kend s"
proof -
  let ?p = "kend s"
  let ?fl = "\<lambda>s xs. s\<lparr>freelist := (freelist s)(MAX_ORDER := rev xs @ freelist s MAX_ORDER)\<rparr>"
  have ph: "unat PHYSTOP = 0x400000 * 544" by (simp add: PHYSTOP_def KERNBASE_def)
  obtain q where q: "unat ?p = 0x400000 * q" using assms(1) by (auto simp: aligned_unat MAX_ORDER_def elim: dvdE)
  have q544: "q < 544" using assms(3) ph q by (simp add: word_less_nat_alt)
  have sub: "unat PHYSTOP - unat ?p = 0x400000 * (544 - q)"
    unfolding ph q by (simp only: diff_mult_distrib2)
  define n where "n = (unat PHYSTOP - unat ?p) div 0x400000"
  have n: "n = 544 - q" unfolding n_def sub by simp
  have "unat (PGROUNDUP ?p) = unat ?p"
    using q q544 unat_PGROUNDUP [of ?p] by simp
  then have rnd: "?p = PGROUNDUP ?p" by (rule unat_eqD [symmetric])
  have room: "unat ?p + 0x400000 \<le> unat PHYSTOP" unfolding ph q using q544 by simp
  have m0: "(unat PHYSTOP - unat ?p) mod 0x400000 div 4096 = 0" unfolding sub by simp
  have full: "unat ?p + n * 0x400000 = unat PHYSTOP" unfolding ph n q using q544 by simp
  define xs where "xs = map (\<lambda>i. ?p + of_nat i * 0x400000) [0..<n]"
  define s' where "s' = ?fl (boot_kmem s) xs"
  have "freelist (boot_kmem s) k = []" for k using assms(4) by (simp add: boot_kmem_def)
  then have b0: "freelist (boot_kmem s) = (\<lambda>_. [])" by (rule ext)
  have "((\<lambda>_. [])(MAX_ORDER := rev xs))(0 := []) = (\<lambda>_. [])(MAX_ORDER := rev xs)"
    by (simp add: fun_eq_iff MAX_ORDER_def)
  then have k: "kinit s = Some s'"
    using kinit_eq [OF rnd assms(2) room n_def refl] unfolding m0 b0 s'_def xs_def [symmetric]
    by simp
  from b0 have fb: "free_blocks (boot_kmem s) = {}" "free_mem (boot_kmem s) = {}"
    by (auto simp: free_blocks_def free_mem_def)
  have ke: "kend (boot_kmem s) = kend s" by (simp add: boot_kmem_def)
  have wf0: "kmem_wf (boot_kmem s)"
    using fb assms(2) b0 ke by (simp add: kmem_wf_def)
  have e22: "(2 :: u64) ^ (12 + MAX_ORDER) = 0x400000" "(2 :: nat) ^ (12 + MAX_ORDER) = 0x400000"
    by (simp_all add: MAX_ORDER_def)
  have wf: "kmem_wf s'" "free_mem s' = {x. unat ?p \<le> unat x \<and> unat x < unat PHYSTOP}"
    using add_blocks_wf [of "boot_kmem s" MAX_ORDER ?p n] wf0 fb(2) ke assms(1) full
    unfolding e22 s'_def xs_def by simp_all
  have fm: "free_mem s' = usable s" unfolding wf(2) by (simp add: usable_def word_le_nat_alt word_less_nat_alt)
  have ks: "kend s' = kend s" using ke by (simp add: s'_def)
  have ix: "pa2index x < unat ((PHYSTOP - KERNBASE) div PGSIZE)" if "x \<in> usable s" for x
  proof -
    have "KERNBASE \<le> x" "x < PHYSTOP" using that assms(2) by (auto simp: usable_def)
    from pa2index_unat(2) [OF this] show ?thesis by (simp add: PHYSTOP_def KERNBASE_def PGSIZE_def)
  qed
  have "kmem_inv s'"
    using wf(1) fm ks ix by (simp add: kmem_inv_def usable_def) (simp add: s'_def boot_kmem_def)
  then show ?thesis using k fm ks by blast
qed

theorem kinit_correct_witness:
  "\<exists>s'. kinit (sample_kmem\<lparr>freelist := \<lambda>_. [], kend := 0x80400000\<rparr>) = Some s' \<and> kmem_inv s'"
proof -
  have "aligned 0x80400000 MAX_ORDER" by (simp add: aligned_unat MAX_ORDER_def)
  then show ?thesis
    using kinit_correct [of "sample_kmem\<lparr>freelist := \<lambda>_. [], kend := 0x80400000\<rparr>"]
    by (auto simp: KERNBASE_def PHYSTOP_def)
qed

section \<open>A start that is not aligned\<close>

text \<open>The bytes a node of list \<open>k\<close> stands for, whether or not it is aligned.\<close>

definition span :: "nat \<times> addr \<Rightarrow> addr set" where
  "span b = {x. in_range x (snd b) (2 ^ (12 + fst b))}"

lemma kalloc_single:
  "freelist s 0 = a # L \<Longrightarrow> a \<noteq> 0 \<Longrightarrow>
   fst (kalloc s) = a \<and> freelist (snd (kalloc s)) = (freelist s)(0 := L)"
  by (simp add: kalloc_def buddy_alloc_def buddy_alloc_loop.simps Let_def)

lemma alloc_pages_singles:
  "freelist s 0 = L \<Longrightarrow> 0 \<notin> set L \<Longrightarrow>
   freelist (snd (alloc_pages kalloc (length L) s)) = (freelist s)(0 := []) \<and>
   length (fst (alloc_pages kalloc (length L) s)) = length L"
proof (induction L arbitrary: s)
  case Nil
  then show ?case by (simp add: fun_upd_idem)
next
  case (Cons a L)
  then have k: "fst (kalloc s) = a" "freelist (snd (kalloc s)) = (freelist s)(0 := L)"
    using kalloc_single [of s a L] by auto
  then show ?case
    using Cons.IH [of "snd (kalloc s)"] Cons.prems(2)
    by (cases "kalloc s"; cases "alloc_pages kalloc (length L) (snd (kalloc s))") auto
qed

lemma split_block_nodes:
  "order \<le> j \<Longrightarrow> j < c \<Longrightarrow> get_buddy r j \<in> set (freelist (split_block order c r s) j)"
  "c \<le> k \<Longrightarrow> freelist (split_block order c r s) k = freelist s k"
proof -
  have up: "c \<le> k \<Longrightarrow> freelist (split_block order c r s) k = freelist s k" for c k s
    by (induction c arbitrary: s) (auto simp: push_free_def)
  then show "c \<le> k \<Longrightarrow> freelist (split_block order c r s) k = freelist s k" .
  show "order \<le> j \<Longrightarrow> j < c \<Longrightarrow> get_buddy r j \<in> set (freelist (split_block order c r s) j)"
  proof (induction c arbitrary: s)
    case (Suc c)
    then show ?case by (cases "j = c") (auto simp: up push_free_def)
  qed simp
qed

lemma kalloc_split_top:
  assumes "\<forall>k < MAX_ORDER. freelist s k = []" "freelist s MAX_ORDER = r # rest" "r \<noteq> 0"
  shows "freelist (snd (kalloc s)) MAX_ORDER = rest \<and> fst (kalloc s) = r \<and>
    (\<forall>j < MAX_ORDER. get_buddy r j \<in> set (freelist (snd (kalloc s)) j))"
proof -
  have skip: "c \<le> MAX_ORDER \<Longrightarrow> buddy_alloc_loop 0 c s = buddy_alloc_loop 0 MAX_ORDER s" for c
  proof (induction "MAX_ORDER - c" arbitrary: c)
    case (Suc d)
    then have "buddy_alloc_loop 0 c s = buddy_alloc_loop 0 (Suc c) s"
      using assms(1) by (subst buddy_alloc_loop.simps) simp
    then show ?case using Suc by simp
  qed simp
  let ?s1 = "split_block 0 MAX_ORDER r (s\<lparr>freelist := (freelist s)(MAX_ORDER := rest)\<rparr>)"
  have "buddy_alloc 0 s = (r, ?s1\<lparr>order_map := (order_map ?s1)(pa2index r := 0)\<rparr>)"
    unfolding buddy_alloc_def skip [OF le0] using assms(2)
    by (subst buddy_alloc_loop.simps) (simp add: Let_def)
  then have "fst (kalloc s) = r \<and> freelist (snd (kalloc s)) = freelist ?s1"
    using assms(3) by (simp add: kalloc_def Let_def)
  then show ?thesis using split_block_nodes by simp
qed

lemma get_buddy_below:
  assumes "bit r (12 + j)" "j < 52"
  shows "unat (get_buddy r j) + 2 ^ (12 + j) = unat r"
proof -
  let ?g = "get_buddy r j"
  have g: "bit ?g n \<longleftrightarrow> bit r n \<and> n \<noteq> 12 + j" for n
    using assms bit_get_buddy [of j r n] by auto
  have b: "bit (2 ^ (12 + j) :: u64) n \<longleftrightarrow> n = 12 + j" for n
    using assms(2) by (auto simp: bit_exp_iff)
  have "?g + 2 ^ (12 + j) = ?g OR 2 ^ (12 + j)"
    by (rule disjunctive_add) (simp add: g b)
  also have "\<dots> = r" by (rule bit_word_eqI) (use assms(1) in \<open>auto simp: bit_or_iff g b\<close>)
  finally have r: "r = ?g + 2 ^ (12 + j)" by simp
  have "?g AND r = ?g" by (rule bit_word_eqI) (auto simp: bit_and_iff g)
  then have "?g \<le> r" by (metis word_and_le1)
  then have "unat (r - ?g) = unat r - unat ?g" by (rule unat_sub)
  moreover have "r - ?g = of_nat (2 ^ (12 + j))" using r by (simp add: algebra_simps)
  moreover have "(2 :: nat) ^ (12 + j) < 2 ^ 64" using assms(2) by (intro power_strict_increasing) auto
  ultimately have "2 ^ (12 + j) = unat r - unat ?g" using unat_of_nat_64 by metis
  then show ?thesis using \<open>?g \<le> r\<close> unfolding word_le_nat_alt by simp
qed

lemma alloc_pages_Suc_end:
  "length (fst (alloc_pages alloc n s)) = n \<Longrightarrow> fst (alloc (snd (alloc_pages alloc n s))) \<noteq> 0 \<Longrightarrow>
   snd (alloc_pages alloc (Suc n) s) = snd (alloc (snd (alloc_pages alloc n s))) \<and>
   length (fst (alloc_pages alloc (Suc n) s)) = Suc n"
proof (induction n arbitrary: s)
  case (Suc n)
  obtain pa s1 where a: "alloc s = (pa, s1)" by (cases "alloc s")
  with Suc.prems(1) have "pa \<noteq> 0" by (auto split: if_splits)
  then show ?case
    using Suc.prems Suc.IH [of s1] a
    by (cases "alloc_pages alloc n s1"; cases "alloc_pages alloc (Suc n) s1") (simp del: alloc_pages.simps(2) add: alloc_pages.simps(2) [of alloc _ s])
qed (auto split: prod.splits)

lemma bit_plus_blocks:
  assumes "n < 22" "unat r = unat p + k * 0x400000"
  shows "bit r n = bit (p :: u64) n"
proof -
  have "take_bit 22 (unat r) = take_bit 22 (unat p)"
    unfolding assms(2) by (simp add: take_bit_eq_mod)
  then have "bit (take_bit 22 (unat r)) n = bit (take_bit 22 (unat p)) n" by simp
  then show ?thesis using assms(1) by (simp add: bit_take_bit_iff bit_unsigned_iff)
qed

text \<open>
  C13. When the first page after the kernel is not aligned to the largest block size, and at
  least 8 MB of memory follow it, the allocator built by \<open>kinit\<close> is not sound: after
  finitely many successful calls of \<open>kalloc\<close> two different nodes of the free lists stand
  for overlapping memory, so that the same page can be handed out twice. The buddy of a
  block is found by flipping an address bit, which is right only for aligned blocks.
\<close>

theorem kinit_misaligned_overlap:
  assumes "p = PGROUNDUP (kend s)" "\<not> aligned p MAX_ORDER" "KERNBASE \<le> p"
    and "unat p + 0x800000 \<le> unat PHYSTOP"
  shows "\<exists>s' n b c. kinit s = Some s' \<and>
    length (fst (alloc_pages kalloc n s')) = n \<and>
    b \<in> free_blocks (snd (alloc_pages kalloc n s')) \<and>
    c \<in> free_blocks (snd (alloc_pages kalloc n s')) \<and> b \<noteq> c \<and> span b \<inter> span c \<noteq> {}"
proof -
  have ph: "unat PHYSTOP = 0x88000000" by (simp add: PHYSTOP_def KERNBASE_def)
  define n where "n = (unat PHYSTOP - unat p) div 0x400000"
  define m where "m = (unat PHYSTOP - unat p) mod 0x400000 div 4096"
  define L where "L = rev (map (\<lambda>i. p + of_nat n * 0x400000 + of_nat i * 4096) [0..<m])"
  obtain s' where k: "kinit s = Some s'"
    and f10: "freelist s' MAX_ORDER = rev (map (\<lambda>i. p + of_nat i * 0x400000) [0..<n])"
    and f0: "freelist s' 0 = L" and fm: "\<forall>k < MAX_ORDER. k \<noteq> 0 \<longrightarrow> freelist s' k = []"
    using kinit_eq [OF assms(1,3) _ n_def m_def] assms(4)
    by (simp add: L_def boot_kmem_def MAX_ORDER_def)
  have "2 \<le> n" using div_le_mono [of "0x800000" "unat PHYSTOP - unat p" "0x400000"] assms(4) by (simp add: n_def)
  then obtain i where i: "n = Suc (Suc i)" by (metis One_nat_def Suc_1 Suc_le_D le_SucE not_less_eq_eq Suc_le_mono)
  define r where "r = p + of_nat (Suc i) * 0x400000"
  define q where "q = p + of_nat i * 0x400000"
  define rest where "rest = rev (map (\<lambda>i. p + of_nat i * 0x400000) [0..<i])"
  have top: "freelist s' MAX_ORDER = r # q # rest" unfolding f10 i r_def q_def rest_def by simp
  have "n * 0x400000 \<le> unat PHYSTOP - unat p" by (simp add: n_def)
  then have bound: "unat p + i * 0x400000 + 0x800000 \<le> unat PHYSTOP" using assms(4) by (simp add: i)
  have uq: "unat q = unat p + i * 0x400000"
    using unat_plus_of_nat [of p "i * 0x400000"] bound ph by (simp add: q_def)
  have ur: "unat r = unat q + 0x400000"
    using unat_plus_of_nat [of p "Suc i * 0x400000"] bound ph uq by (simp add: r_def algebra_simps)
  have rn: "r \<noteq> 0" using ur by auto
  have pn: "0 < unat p" using assms(3) by (auto simp: word_le_nat_alt KERNBASE_def)
  have "x \<noteq> 0" if "x \<in> set L" for x
  proof -
    from that obtain a where a: "a < m" "x = p + of_nat (n * 0x400000 + a * 4096)" by (auto simp: L_def add.assoc)
    have "n * 0x400000 + m * 4096 \<le> unat PHYSTOP - unat p"
      unfolding n_def m_def using div_mult_mod_eq [of "unat PHYSTOP - unat p" "0x400000"]
        div_times_less_eq_dividend [of "(unat PHYSTOP - unat p) mod 0x400000" 4096] by linarith
    then have "unat x = unat p + (n * 0x400000 + a * 4096)"
      using a ph assms(4) by (simp only: a(2)) (intro unat_plus_of_nat, simp)
    then show ?thesis using pn by auto
  qed
  then have L0: "0 \<notin> set L" by blast
  define s1 where "s1 = snd (alloc_pages kalloc (length L) s')"
  have s1: "freelist s1 = (freelist s')(0 := [])" "length (fst (alloc_pages kalloc (length L) s')) = length L"
    using alloc_pages_singles [OF f0 L0] by (simp_all add: s1_def)
  have e: "\<forall>k < MAX_ORDER. freelist s1 k = []" "freelist s1 MAX_ORDER = r # q # rest"
    using fm top by (simp_all add: s1 MAX_ORDER_def)
  define s2 where "s2 = snd (kalloc s1)"
  note ks = kalloc_split_top [OF e rn, folded s2_def]
  have s2: "snd (alloc_pages kalloc (Suc (length L)) s') = s2"
      "length (fst (alloc_pages kalloc (Suc (length L)) s')) = Suc (length L)"
    using alloc_pages_Suc_end [OF s1(2)] ks rn by (simp_all add: s1_def s2_def)
  obtain d where d: "d < 22" "bit p d" using assms(2) by (auto simp: aligned_iff MAX_ORDER_def)
  have "12 \<le> d"
  proof (rule ccontr)
    assume "\<not> 12 \<le> d"
    then show False using d(2) by (simp add: assms(1) PGROUNDUP_eq PGROUNDDOWN_bits bit_push_bit_iff)
  qed
  then obtain j where j: "d = 12 + j" "j < MAX_ORDER" using d(1) by (auto simp: MAX_ORDER_def le_iff_add)
  have j52: "j < 52" using j(2) by (simp add: MAX_ORDER_def)
  have "bit r (12 + j)" using d bit_plus_blocks [of d r p "Suc i"] ur uq by (simp add: j)
  from get_buddy_below [OF this j52] have ug: "unat (get_buddy r j) + 2 ^ (12 + j) = unat r" .
  have small: "(2 :: nat) ^ (12 + j) \<le> 2 ^ 22" using j(2) by (intro power_increasing) (auto simp: MAX_ORDER_def)
  have "get_buddy r j \<in> span (j, get_buddy r j)" by (simp add: span_def)
  moreover have "get_buddy r j \<in> span (MAX_ORDER, q)"
  proof -
    have "unat (get_buddy r j) < unat r" using ug by (metis less_add_same_cancel1 zero_less_numeral zero_less_power)
    then show ?thesis
      using ug ur small bound uq ph by (simp add: span_def in_range_nowrap MAX_ORDER_def)
  qed
  moreover have "(j, get_buddy r j) \<in> free_blocks s2" "(MAX_ORDER, q) \<in> free_blocks s2"
    using ks j(2) by (simp_all add: free_blocks_def)
  moreover have "(j, get_buddy r j) \<noteq> (MAX_ORDER, q)" using j(2) by simp
  ultimately show ?thesis using k s2 by blast
qed

theorem kinit_misaligned_overlap_witness:
  "\<exists>s' n b c. kinit (sample_kmem\<lparr>kend := 0x80021d40\<rparr>) = Some s' \<and>
    b \<in> free_blocks (snd (alloc_pages kalloc n s')) \<and>
    c \<in> free_blocks (snd (alloc_pages kalloc n s')) \<and> b \<noteq> c \<and> span b \<inter> span c \<noteq> {}"
proof -
  have "PGROUNDUP 0x80021d40 = 0x80022000" by (simp add: PGROUNDUP_def PGSIZE_def)
  then show ?thesis
    using kinit_misaligned_overlap [of "0x80022000" "sample_kmem\<lparr>kend := 0x80021d40\<rparr>"]
    by (simp add: aligned_unat MAX_ORDER_def KERNBASE_def PHYSTOP_def) blast
qed

end
