(* ===== verification/Spinlock.thy ===== *)
theory Spinlock
  imports Riscv
begin

text \<open>
  \<open>kernel/spinlock.c\<close>: spin locks and the nesting of interrupt-disabled sections. The state of
  the machine is the array \<open>cpus\<close>, the hart that executes the code (\<open>r_tp()\<close>), the interrupt
  enable bit of each hart, and the locks, which are named by what they protect. An \<open>acquire\<close> of a lock that
  another hart holds spins: it is \<open>Block\<close>.
\<close>

definition NCPU :: nat where "NCPU = 8"

datatype lockid =
    LProc nat | LPid | LWait | LTicks | LFtable | LPipe addr | LCons | LUart | LPr

record spinlock =
  locked :: bool
  lk_cpu :: "nat option"

record cpu =
  cproc :: "nat option"
  noff :: int
  intena :: bool

record machine =
  hart :: nat
  cpus :: "nat \<Rightarrow> cpu"
  sie :: "nat \<Rightarrow> bool"
  locks :: "lockid \<Rightarrow> spinlock"

section \<open>Operations\<close>

definition mycpu :: "'a machine_scheme \<Rightarrow> cpu" where
  "mycpu s = cpus s (hart s)"

definition set_cpu :: "(cpu \<Rightarrow> cpu) \<Rightarrow> 'a machine_scheme \<Rightarrow> 'a machine_scheme" where
  "set_cpu f s = s\<lparr>cpus := (cpus s)(hart s := f (cpus s (hart s)))\<rparr>"

definition set_lock :: "lockid \<Rightarrow> spinlock \<Rightarrow> 'a machine_scheme \<Rightarrow> 'a machine_scheme" where
  "set_lock l k s = s\<lparr>locks := (locks s)(l := k)\<rparr>"

definition intr_get :: "'a machine_scheme \<Rightarrow> bool" where
  "intr_get s = sie s (hart s)"

definition intr_on :: "'a machine_scheme \<Rightarrow> 'a machine_scheme" where
  "intr_on s = s\<lparr>sie := (sie s)(hart s := True)\<rparr>"

definition intr_off :: "'a machine_scheme \<Rightarrow> 'a machine_scheme" where
  "intr_off s = s\<lparr>sie := (sie s)(hart s := False)\<rparr>"

definition initlock :: "lockid \<Rightarrow> 'a machine_scheme \<Rightarrow> 'a machine_scheme" where
  "initlock l = set_lock l \<lparr>locked = False, lk_cpu = None\<rparr>"

definition holding :: "lockid \<Rightarrow> 'a machine_scheme \<Rightarrow> bool" where
  "holding l s \<longleftrightarrow> locked (locks s l) \<and> lk_cpu (locks s l) = Some (hart s)"

definition push_off :: "'a machine_scheme \<Rightarrow> 'a machine_scheme" where
  "push_off s =
     (let old = intr_get s
      in set_cpu (\<lambda>c. (if noff c = 0 then c\<lparr>intena := old\<rparr> else c)\<lparr>noff := noff c + 1\<rparr>) (intr_off s))"

definition pop_off :: "('a machine_scheme, unit) kop" where
  "pop_off s =
     (if intr_get s then Panic ''pop_off - interruptible''
      else if noff (mycpu s) < 1 then Panic ''pop_off''
      else let s1 = set_cpu (\<lambda>c. c\<lparr>noff := noff c - 1\<rparr>) s
           in Ret ((), if noff (mycpu s1) = 0 \<and> intena (mycpu s1) then intr_on s1 else s1))"

definition acquire :: "lockid \<Rightarrow> ('a machine_scheme, unit) kop" where
  "acquire l s =
     (let s1 = push_off s
      in if holding l s1 then Panic ''acquire''
         else if locked (locks s1 l) then Block ''spinlock''
         else Ret ((), set_lock l \<lparr>locked = True, lk_cpu = Some (hart s1)\<rparr> s1))"

definition release :: "lockid \<Rightarrow> ('a machine_scheme, unit) kop" where
  "release l s =
     (if \<not> holding l s then Panic ''release''
      else pop_off (set_lock l \<lparr>locked = False, lk_cpu = None\<rparr> s))"

text \<open>\<open>myproc()\<close> of \<open>proc.c\<close>.\<close>

definition myproc :: "('a machine_scheme, nat option) kop" where
  "myproc s = (let s1 = push_off s; p = cproc (mycpu s1) in kthen pop_off (\<lambda>_. kret p) s1)"

text \<open>The current process where the code dereferences it; a null pointer faults in the kernel.\<close>

definition curproc :: "('a machine_scheme, nat) kop" where
  "curproc = kthen myproc (\<lambda>p. case p of Some i \<Rightarrow> kret i | None \<Rightarrow> kpanic ''kerneltrap'')"

section \<open>What lock operations leave alone\<close>

text \<open>The lock operations change the processor and lock state only, and not which process runs.\<close>

definition locks_only :: "'a machine_scheme \<Rightarrow> 'a machine_scheme \<Rightarrow> bool" where
  "locks_only s s1 \<longleftrightarrow> s1 = s\<lparr>cpus := cpus s1, sie := sie s1, locks := locks s1\<rparr> \<and>
     (\<forall>h. cproc (cpus s1 h) = cproc (cpus s h))"

lemma locks_only_trans: "locks_only s s1 \<Longrightarrow> locks_only s1 s2 \<Longrightarrow> locks_only s s2"
  by (cases s; cases s1; cases s2) (simp add: locks_only_def)

lemma push_off_locks_only: "locks_only s (push_off s)"
  by (simp add: locks_only_def push_off_def set_cpu_def intr_off_def Let_def)

lemma pop_off_locks_only: "pop_off s = Ret (u, s1) \<Longrightarrow> locks_only s s1"
  by (auto simp: locks_only_def pop_off_def set_cpu_def intr_on_def Let_def split: if_splits)

lemma set_lock_locks_only: "locks_only s (set_lock l k s)"
  by (simp add: locks_only_def set_lock_def)

lemma acquire_locks_only: "acquire l s = Ret (u, s1) \<Longrightarrow> locks_only s s1"
  by (auto simp: acquire_def Let_def split: if_splits
      intro: locks_only_trans [OF push_off_locks_only set_lock_locks_only])

lemma release_locks_only: "release l s = Ret (u, s1) \<Longrightarrow> locks_only s s1"
  by (auto simp: release_def split: if_splits
      intro: locks_only_trans [OF set_lock_locks_only pop_off_locks_only])

lemma myproc_locks_only: "myproc s = Ret (p, s1) \<Longrightarrow> locks_only s s1"
  by (auto simp: myproc_def Let_def kthen_Ret_iff kret_def
      intro: locks_only_trans [OF push_off_locks_only pop_off_locks_only])

lemmas locks_only_dests = acquire_locks_only release_locks_only myproc_locks_only

section \<open>Critical sections\<close>

text \<open>
  A hart is in order when its nesting depth is not negative and interrupts are off while it is
  positive. \<open>settle\<close> is what a matched pair of \<open>push_off\<close> and \<open>pop_off\<close> leaves behind:
  outside any section it records the interrupt flag in \<open>intena\<close>.
\<close>

definition cpu_ok :: "'a machine_scheme \<Rightarrow> bool" where
  "cpu_ok s \<longleftrightarrow> 0 \<le> noff (mycpu s) \<and> (0 < noff (mycpu s) \<longrightarrow> \<not> intr_get s)"

definition settle :: "'a machine_scheme \<Rightarrow> 'a machine_scheme" where
  "settle s = set_cpu (\<lambda>c. if noff c = 0 then c\<lparr>intena := intr_get s\<rparr> else c) s"

definition free_lock :: spinlock where
  "free_lock = \<lparr>locked = False, lk_cpu = None\<rparr>"

definition grab :: "lockid \<Rightarrow> 'a machine_scheme \<Rightarrow> 'a machine_scheme" where
  "grab l s = set_lock l \<lparr>locked = True, lk_cpu = Some (hart s)\<rparr> (push_off s)"

lemmas machine_defs = mycpu_def set_cpu_def set_lock_def intr_get_def intr_on_def intr_off_def
  push_off_def pop_off_def holding_def settle_def free_lock_def grab_def

lemma hart_frame [simp]:
  "hart (push_off s) = hart s" "hart (settle s) = hart s" "hart (grab l s) = hart s"
  "hart (set_lock l k s) = hart s" "hart (set_cpu f s) = hart s"
  by (simp_all add: machine_defs Let_def)

lemma locks_frame [simp]:
  "locks (push_off s) = locks s" "locks (settle s) = locks s"
  "locks (grab l s) = (locks s)(l := \<lparr>locked = True, lk_cpu = Some (hart s)\<rparr>)"
  by (simp_all add: machine_defs Let_def)

lemma cpus_settle: "cpus (settle s) = (cpus s)(hart s := (if noff (mycpu s) = 0 then (mycpu s)\<lparr>intena := intr_get s\<rparr> else mycpu s))"
  by (simp add: machine_defs)

lemma cproc_settle [simp]: "cproc (mycpu (settle s)) = cproc (mycpu s)"
  by (simp add: machine_defs)

lemma noff_settle [simp]: "noff (mycpu (settle s)) = noff (mycpu s)"
  by (simp add: machine_defs)

lemma intr_settle [simp]: "intr_get (settle s) = intr_get s"
  by (simp add: machine_defs)

lemma cpu_ok_settle [simp]: "cpu_ok (settle s) = cpu_ok s"
  by (simp add: cpu_ok_def)

lemma settle_idem [simp]: "settle (settle s) = settle s"
  by (simp add: machine_defs)

lemma settle_nested: "0 < noff (mycpu s) \<Longrightarrow> settle s = s"
  by (simp add: machine_defs)

lemma cpu_ok_grab [simp]: "cpu_ok s \<Longrightarrow> cpu_ok (grab l s)"
  by (auto simp: cpu_ok_def machine_defs Let_def)

lemma noff_grab [simp]: "noff (mycpu (grab l s)) = noff (mycpu s) + 1"
  by (simp add: machine_defs Let_def)

lemma intr_grab [simp]: "\<not> intr_get (grab l s)"
  by (simp add: machine_defs Let_def)

lemma cproc_grab [simp]: "cproc (mycpu (grab l s)) = cproc (mycpu s)"
  by (simp add: machine_defs Let_def)

lemma settle_grab [simp]: "cpu_ok s \<Longrightarrow> settle (grab l s) = grab l s"
  by (rule settle_nested) (simp add: cpu_ok_def)

lemma holding_grab [simp]: "holding l (grab l s)"
  by (simp add: holding_def)

lemma acquire_free: "\<not> locked (locks s l) \<Longrightarrow> acquire l s = Ret ((), grab l s)"
  by (simp add: acquire_def grab_def holding_def Let_def)

lemma acquire_own: "holding l s \<Longrightarrow> acquire l s = Panic ''acquire''"
  by (simp add: acquire_def holding_def Let_def)

lemma acquire_other:
  "locked (locks s l) \<Longrightarrow> lk_cpu (locks s l) \<noteq> Some (hart s) \<Longrightarrow> acquire l s = Block ''spinlock''"
  by (simp add: acquire_def holding_def Let_def)

lemma noff_upd_same:
  "noff c = n \<Longrightarrow> c\<lparr>noff := n\<rparr> = c" "noff c = n \<Longrightarrow> c\<lparr>intena := b, noff := n\<rparr> = c\<lparr>intena := b\<rparr>"
  by (cases c; simp)+

lemma myproc_ok [simp]: "cpu_ok s \<Longrightarrow> myproc s = Ret (cproc (mycpu s), settle s)"
  by (cases "intr_get s"; cases "noff (mycpu s) = 0")
    (auto simp: myproc_def machine_defs Let_def kop_defs cpu_ok_def fun_upd_idem noff_upd_same)

lemma curproc_ok: "cpu_ok s \<Longrightarrow> cproc (mycpu s) = Some p \<Longrightarrow> curproc s = Ret (p, settle s)"
  by (simp add: curproc_def kop_defs)

text \<open>The end of a section entered by \<open>grab\<close>.\<close>

lemma release_grab:
  "cpu_ok s \<Longrightarrow> locks s l = free_lock \<Longrightarrow> release l (grab l s) = Ret ((), settle s)"
  by (cases "intr_get s"; cases "noff (mycpu s) = 0")
    (auto simp: release_def machine_defs Let_def cpu_ok_def fun_upd_idem noff_upd_same)

section \<open>Mutual exclusion between harts\<close>

text \<open>
  Harts take turns executing lock operations, and a hart outside every section may switch its
  interrupts on or off.
\<close>

inductive spin_step :: "machine \<Rightarrow> machine \<Rightarrow> bool" where
  Acquire: "acquire l (s\<lparr>hart := h\<rparr>) = Ret ((), s') \<Longrightarrow> spin_step s s'"
| Release: "release l (s\<lparr>hart := h\<rparr>) = Ret ((), s') \<Longrightarrow> spin_step s s'"
| Intr_on: "noff (cpus s h) = 0 \<Longrightarrow> spin_step s (intr_on (s\<lparr>hart := h\<rparr>))"
| Intr_off: "noff (cpus s h) = 0 \<Longrightarrow> spin_step s (intr_off (s\<lparr>hart := h\<rparr>))"

inductive spin_reach :: "machine \<Rightarrow> bool" where
  Boot: "(\<And>l. locks s l = free_lock) \<Longrightarrow> (\<And>h. noff (cpus s h) = 0) \<Longrightarrow> spin_reach s"
| Step: "spin_reach s \<Longrightarrow> spin_step s s' \<Longrightarrow> spin_reach s'"

definition held_by :: "'a machine_scheme \<Rightarrow> nat \<Rightarrow> lockid set" where
  "held_by s h = {l. lk_cpu (locks s l) = Some h}"

definition spin_inv :: "'a machine_scheme \<Rightarrow> bool" where
  "spin_inv s \<longleftrightarrow>
     (\<forall>l. locked (locks s l) \<longleftrightarrow> lk_cpu (locks s l) \<noteq> None) \<and>
     (\<forall>h. finite (held_by s h) \<and> noff (cpus s h) = int (card (held_by s h))) \<and>
     (\<forall>h. 0 < noff (cpus s h) \<longrightarrow> \<not> sie s h)"

lemma spin_invD:
  assumes "spin_inv s"
  shows "locked (locks s l) \<longleftrightarrow> lk_cpu (locks s l) \<noteq> None" "finite (held_by s h)"
    "noff (cpus s h) = int (card (held_by s h))" "0 < noff (cpus s h) \<Longrightarrow> \<not> sie s h"
  using assms by (auto simp: spin_inv_def)

lemma spin_inv_hart [simp]: "spin_inv (s\<lparr>hart := h\<rparr>) = spin_inv s"
  by (simp add: spin_inv_def held_by_def)

lemma spin_inv_cpu_ok: "spin_inv s \<Longrightarrow> cpu_ok s"
  by (auto simp: spin_inv_def cpu_ok_def mycpu_def intr_get_def)

lemma spin_inv_grab:
  assumes inv: "spin_inv s" and free: "\<not> locked (locks s l)"
  shows "spin_inv (grab l s)"
proof -
  have none: "lk_cpu (locks s l) = None" using spin_invD(1) [OF inv] free by metis
  have held: "held_by (grab l s) h = (if h = hart s then insert l (held_by s h) else held_by s h)" for h
    using none by (auto simp: held_by_def)
  have "l \<notin> held_by s h" for h using none by (simp add: held_by_def)
  then show ?thesis
    using spin_invD [OF inv] unfolding spin_inv_def held
    by (auto simp: machine_defs Let_def)
qed

lemma spin_inv_release:
  assumes inv: "spin_inv s" and rel: "release l s = Ret ((), s')"
  shows "spin_inv s'"
proof -
  let ?s1 = "set_lock l \<lparr>locked = False, lk_cpu = None\<rparr> s"
  have hold: "holding l s" and pop: "pop_off ?s1 = Ret ((), s')"
    using rel by (auto simp: release_def split: if_splits)
  have mem: "l \<in> held_by s (hart s)" using hold by (simp add: holding_def held_by_def)
  have held: "held_by s' h = (if h = hart s then held_by s h - {l} else held_by s h)" for h
    using pop hold by (auto simp: pop_off_def held_by_def machine_defs Let_def split: if_splits)
  have card: "int (card (held_by s (hart s) - {l})) = int (card (held_by s (hart s))) - 1"
    using mem spin_invD(2) [OF inv, of "hart s"] card_gt_0_iff [of "held_by s (hart s)"]
    by (subst card_Diff_singleton) (auto simp: of_nat_diff Suc_le_eq)
  show ?thesis
    using pop spin_invD [OF inv] card unfolding spin_inv_def held
    by (auto simp: pop_off_def machine_defs Let_def split: if_splits)
qed

lemma spin_inv_intr:
  assumes "spin_inv s" "noff (cpus s h) = 0"
  shows "spin_inv (intr_on (s\<lparr>hart := h\<rparr>))" "spin_inv (intr_off (s\<lparr>hart := h\<rparr>))"
  using assms by (auto simp: spin_inv_def held_by_def intr_on_def intr_off_def)

lemma spin_reach_inv: "spin_reach s \<Longrightarrow> spin_inv s"
proof (induction rule: spin_reach.induct)
  case (Boot s)
  then show ?case by (simp add: spin_inv_def held_by_def free_lock_def)
next
  case (Step s s')
  from \<open>spin_step s s'\<close> show ?case
  proof cases
    case (Acquire l h)
    then have "\<not> locked (locks s l)" by (auto simp: acquire_def Let_def split: if_splits)
    then show ?thesis using Acquire Step.IH spin_inv_grab [of "s\<lparr>hart := h\<rparr>" l]
      by (simp add: acquire_free)
  next
    case (Release l h)
    then show ?thesis using Step.IH spin_inv_release [of "s\<lparr>hart := h\<rparr>" l s'] by simp
  qed (use Step.IH spin_inv_intr in auto)
qed

lemma release_ok:
  assumes inv: "spin_inv s" and hold: "holding l s"
  shows "\<exists>s'. release l s = Ret ((), s')"
proof -
  have "l \<in> held_by s (hart s)" using hold by (simp add: holding_def held_by_def)
  then have "0 < card (held_by s (hart s))" using spin_invD(2) [OF inv] card_gt_0_iff by blast
  then have "0 < noff (mycpu s)" "\<not> intr_get s"
    using spin_invD(3,4) [OF inv, of "hart s"] by (simp_all add: mycpu_def intr_get_def)
  then show ?thesis using hold
    by (auto simp: release_def pop_off_def Let_def set_lock_def mycpu_def intr_get_def)
qed


text \<open>A machine with two harts, in which hart 0 holds the lock of the ticks.\<close>

definition boot_machine :: machine where
  "boot_machine = \<lparr>hart = 0, cpus = (\<lambda>h. \<lparr>cproc = None, noff = 0, intena = False\<rparr>), sie = (\<lambda>h. True),
     locks = (\<lambda>l. free_lock)\<rparr>"

lemma boot_reach: "spin_reach (grab LTicks boot_machine)"
proof -
  have "spin_reach boot_machine" by (rule Boot) (simp_all add: boot_machine_def)
  moreover have "acquire LTicks (boot_machine\<lparr>hart := 0\<rparr>) = Ret ((), grab LTicks boot_machine)"
    by (simp add: acquire_free boot_machine_def free_lock_def)
  ultimately show ?thesis by (blast intro: Step spin_step.Acquire)
qed


end
