(* ===== verification/Sleeplock.thy ===== *)
theory Sleeplock
  imports Cstring Spinlock
begin

text \<open>
  \<open>kernel/sleeplock.c\<close>, and what the file-system layers need of byte buffers. The spinlock
  inside a sleep lock only makes each operation atomic. The operations take the process
  identifier of the caller; \<open>acquiresleep\<close> on a held lock waits.
\<close>

section \<open>Sleep locks\<close>

record sleeplock =
  slocked :: bool
  spid :: int

definition initsleeplock :: sleeplock where
  "initsleeplock = \<lparr>slocked = False, spid = 0\<rparr>"

definition acquiresleep :: "int \<Rightarrow> sleeplock \<Rightarrow> sleeplock kres" where
  "acquiresleep pid lk =
     (if slocked lk then Block ''sleep lock'' else Ret (lk\<lparr>slocked := True, spid := pid\<rparr>))"

definition releasesleep :: "sleeplock \<Rightarrow> sleeplock" where
  "releasesleep lk = lk\<lparr>slocked := False, spid := 0\<rparr>"

definition holdingsleep :: "int \<Rightarrow> sleeplock \<Rightarrow> bool" where
  "holdingsleep pid lk \<longleftrightarrow> slocked lk \<and> spid lk = pid"

section \<open>Sleep channels\<close>

text \<open>The kernel objects whose addresses the code sleeps on.\<close>

datatype chan =
    ChanProc nat | ChanTicks | ChanLog | ChanBuf nat | ChanInode nat
  | ChanPipeRead addr | ChanPipeWrite addr | ChanCons | ChanUart | ChanDisk

section \<open>Integers in byte buffers\<close>

definition get16 :: "u8 list \<Rightarrow> nat \<Rightarrow> u16" where
  "get16 bs i = ucast (bs ! i) OR push_bit 8 (ucast (bs ! (i + 1)))"

definition put16 :: "u8 list \<Rightarrow> nat \<Rightarrow> u16 \<Rightarrow> u8 list" where
  "put16 bs i v = bs[i := ucast v, i + 1 := ucast (drop_bit 8 v)]"

definition get32 :: "u8 list \<Rightarrow> nat \<Rightarrow> u32" where
  "get32 bs i = ucast (bs ! i) OR push_bit 8 (ucast (bs ! (i + 1))) OR
     push_bit 16 (ucast (bs ! (i + 2))) OR push_bit 24 (ucast (bs ! (i + 3)))"

definition put32 :: "u8 list \<Rightarrow> nat \<Rightarrow> u32 \<Rightarrow> u8 list" where
  "put32 bs i v = bs[i := ucast v, i + 1 := ucast (drop_bit 8 v),
     i + 2 := ucast (drop_bit 16 v), i + 3 := ucast (drop_bit 24 v)]"

definition splice :: "u8 list \<Rightarrow> nat \<Rightarrow> u8 list \<Rightarrow> u8 list" where
  "splice bs i xs = take i bs @ xs @ drop (i + length xs) bs"

lemma length_put16 [simp]: "length (put16 bs i v) = length bs"
  by (simp add: put16_def)

lemma length_put32 [simp]: "length (put32 bs i v) = length bs"
  by (simp add: put32_def)

lemma length_splice [simp]: "i + length xs \<le> length bs \<Longrightarrow> length (splice bs i xs) = length bs"
  by (simp add: splice_def)

lemma get32_put32 [mem_simps]:
  assumes "i + 3 < length bs"
  shows "get32 (put32 bs i v) i = v"
proof (rule bit_word_eqI)
  fix n assume "n < LENGTH(32)"
  then have n: "n < 32" by simp
  then consider "n < 8" | "8 \<le> n" "n < 16" | "16 \<le> n" "n < 24" | "24 \<le> n" by linarith
  then show "bit (get32 (put32 bs i v) i) n = bit v n"
    using assms n
    by cases (auto simp: get32_def put32_def bit_simps nth_list_update)
qed

lemma get16_put16 [mem_simps]:
  assumes "i + 1 < length bs"
  shows "get16 (put16 bs i v) i = v"
proof (rule bit_word_eqI)
  fix n assume "n < LENGTH(16)"
  then have n: "n < 16" by simp
  then consider "n < 8" | "8 \<le> n" by linarith
  then show "bit (get16 (put16 bs i v) i) n = bit v n"
    using assms n
    by cases (auto simp: get16_def put16_def bit_simps nth_list_update)
qed

lemma get32_put32_other [mem_simps]:
  "j + 3 < i \<or> i + 3 < j \<Longrightarrow> get32 (put32 bs i v) j = get32 bs j"
  by (auto simp: get32_def put32_def nth_list_update)

lemma get16_put16_other [mem_simps]:
  "j + 1 < i \<or> i + 1 < j \<Longrightarrow> get16 (put16 bs i v) j = get16 bs j"
  by (auto simp: get16_def put16_def nth_list_update)

end
