(* ===== verification/Bio.thy ===== *)
theory Bio
  imports Sleeplock
begin

text \<open>
  \<open>kernel/bio.c\<close>: the buffer cache. A buffer pointer is its index in \<open>bcache.buf\<close>, and the
  doubly linked list is the list \<open>lru\<close> of these indices from \<open>head.next\<close> (most recently used)
  to \<open>head.prev\<close>. The state also holds the disk behind \<open>virtio_disk_rw\<close> with the history of
  the writes it received, the process identifier of the running process, and the channels that
  were woken up. The sections under \<open>bcache.lock\<close> are atomic.
\<close>

definition NBUF :: nat where "NBUF = 30"
definition BSIZE :: nat where "BSIZE = 1024"

record buf =
  valid :: bool
  bdev :: u32
  blockno :: u32
  block_lock :: sleeplock
  refcnt :: u32
  bdata :: "u8 list"

record bio = machine +
  bufs :: "nat \<Rightarrow> buf"
  lru :: "nat list"
  disk :: "u32 \<Rightarrow> u8 list"
  disk_writes :: "(u32 \<times> u8 list) list"
  curpid :: int
  woken :: "chan list"

section \<open>Operations\<close>

definition set_buf :: "nat \<Rightarrow> (buf \<Rightarrow> buf) \<Rightarrow> 'a bio_scheme \<Rightarrow> 'a bio_scheme" where
  "set_buf i f s = s\<lparr>bufs := (bufs s)(i := f (bufs s i))\<rparr>"

text \<open>Every buffer is put at the front in turn.\<close>

definition binit :: "'a bio_scheme \<Rightarrow> 'a bio_scheme" where
  "binit s = s\<lparr>bufs := (\<lambda>i. if i < NBUF then (bufs s i)\<lparr>block_lock := initsleeplock\<rparr> else bufs s i),
     lru := rev [0..<NBUF]\<rparr>"

definition lock_buf :: "nat \<Rightarrow> ('a bio_scheme, nat) kop" where
  "lock_buf i s =
     kbind (acquiresleep (curpid s) (block_lock (bufs s i))) (\<lambda>lk.
       Ret (i, set_buf i (\<lambda>b. b\<lparr>block_lock := lk\<rparr>) s))"

definition bget :: "u32 \<Rightarrow> u32 \<Rightarrow> ('a bio_scheme, nat) kop" where
  "bget dev bno s =
     (case find (\<lambda>i. bdev (bufs s i) = dev \<and> blockno (bufs s i) = bno) (lru s) of
        Some i \<Rightarrow> lock_buf i (set_buf i (\<lambda>b. b\<lparr>refcnt := refcnt b + 1\<rparr>) s)
      | None \<Rightarrow>
          (case find (\<lambda>i. refcnt (bufs s i) = 0) (rev (lru s)) of
             Some i \<Rightarrow> lock_buf i
               (set_buf i (\<lambda>b. b\<lparr>bdev := dev, blockno := bno, valid := False, refcnt := 1\<rparr>) s)
           | None \<Rightarrow> Panic ''bget: no buffers''))"

text \<open>The transfer between a buffer and its block on the disk.\<close>

definition virtio_disk_rw :: "nat \<Rightarrow> bool \<Rightarrow> 'a bio_scheme \<Rightarrow> 'a bio_scheme" where
  "virtio_disk_rw i write s =
     (let b = bufs s i
      in if write
         then s\<lparr>disk := (disk s)(blockno b := bdata b), disk_writes := disk_writes s @ [(blockno b, bdata b)]\<rparr>
         else set_buf i (\<lambda>b. b\<lparr>bdata := disk s (blockno b)\<rparr>) s)"

definition bread :: "u32 \<Rightarrow> u32 \<Rightarrow> ('a bio_scheme, nat) kop" where
  "bread dev bno =
     kthen (bget dev bno) (\<lambda>i s.
       Ret (i, if valid (bufs s i) then s
               else set_buf i (\<lambda>b. b\<lparr>valid := True\<rparr>) (virtio_disk_rw i False s)))"

definition bwrite :: "nat \<Rightarrow> ('a bio_scheme, unit) kop" where
  "bwrite i s =
     (if \<not> holdingsleep (curpid s) (block_lock (bufs s i)) then Panic ''bwrite''
      else Ret ((), virtio_disk_rw i True s))"

definition brelse :: "nat \<Rightarrow> ('a bio_scheme, unit) kop" where
  "brelse i s =
     (if \<not> holdingsleep (curpid s) (block_lock (bufs s i)) then Panic ''brelse''
      else let s1 = (set_buf i (\<lambda>b. b\<lparr>block_lock := releasesleep (block_lock b)\<rparr>) s)
                      \<lparr>woken := woken s @ [ChanBuf i]\<rparr>;
               s2 = set_buf i (\<lambda>b. b\<lparr>refcnt := refcnt b - 1\<rparr>) s1
           in Ret ((), if refcnt (bufs s2 i) = 0 then s2\<lparr>lru := i # remove1 i (lru s2)\<rparr> else s2))"

definition bpin :: "nat \<Rightarrow> 'a bio_scheme \<Rightarrow> 'a bio_scheme" where
  "bpin i = set_buf i (\<lambda>b. b\<lparr>refcnt := refcnt b + 1\<rparr>)"

definition bunpin :: "nat \<Rightarrow> 'a bio_scheme \<Rightarrow> 'a bio_scheme" where
  "bunpin i = set_buf i (\<lambda>b. b\<lparr>refcnt := refcnt b - 1\<rparr>)"

text \<open>Assignments to \<open>b->data\<close>.\<close>

definition set_data :: "nat \<Rightarrow> u8 list \<Rightarrow> 'a bio_scheme \<Rightarrow> 'a bio_scheme" where
  "set_data i d = set_buf i (\<lambda>b. b\<lparr>bdata := d\<rparr>)"

lemma set_buf_sel [simp]:
  "bufs (set_buf i f s) = (bufs s)(i := f (bufs s i))" "lru (set_buf i f s) = lru s"
  "disk (set_buf i f s) = disk s" "disk_writes (set_buf i f s) = disk_writes s"
  "curpid (set_buf i f s) = curpid s" "woken (set_buf i f s) = woken s"
  "bio.more (set_buf i f s) = bio.more s"
  by (simp_all add: set_buf_def)

section \<open>The contents of blocks\<close>

text \<open>
  The cache is well formed when the list holds every buffer once, no block of the device is
  cached twice, and reference counts are small. Its abstract value gives each
  block its current contents: that of the valid buffer that caches it, or that of the disk.
\<close>

definition cached :: "'a bio_scheme \<Rightarrow> u32 \<Rightarrow> u32 \<Rightarrow> nat option" where
  "cached s dev bno = find (\<lambda>i. bdev (bufs s i) = dev \<and> blockno (bufs s i) = bno) (lru s)"

definition content :: "'a bio_scheme \<Rightarrow> u32 \<Rightarrow> u32 \<Rightarrow> u8 list" where
  "content s dev bno =
     (case cached s dev bno of
        Some i \<Rightarrow> if valid (bufs s i) then bdata (bufs s i) else disk s bno
      | None \<Rightarrow> disk s bno)"

definition bcache_wf :: "u32 \<Rightarrow> 'a bio_scheme \<Rightarrow> bool" where
  "bcache_wf dev s \<longleftrightarrow>
     distinct (lru s) \<and> set (lru s) = {..<NBUF} \<and>
     (\<forall>i < NBUF. \<forall>j < NBUF. bdev (bufs s i) = dev \<and> bdev (bufs s j) = dev \<and>
        blockno (bufs s i) = blockno (bufs s j) \<longrightarrow> i = j)"

end
