(* ===== verification/Log.thy ===== *)
theory Log
  imports Bio
begin

text \<open>
  \<open>kernel/log.c\<close>: the write-ahead log of the file system. \<open>log.lock\<close> makes the bookkeeping
  atomic; \<open>begin_op\<close> waits while a commit is running or log space is short. The in-memory
  header keeps its array as a function from indices to block numbers.
\<close>

definition LOGSIZE :: nat where "LOGSIZE = 30"
definition MAXOPBLOCKS :: nat where "MAXOPBLOCKS = 10"

record loghdr =
  lh_n :: int
  lh_block :: "nat \<Rightarrow> u32"

record logst =
  log_start :: u32
  log_size :: int
  outstanding :: int
  committing :: bool
  log_dev :: u32
  lh :: loghdr

record logged = bio +
  log :: logst

section \<open>Reading and writing the header\<close>

definition log_entries :: "'a logged_scheme \<Rightarrow> nat list" where
  "log_entries s = [0..<nat (lh_n (lh (log s)))]"

definition set_log :: "(logst \<Rightarrow> logst) \<Rightarrow> 'a logged_scheme \<Rightarrow> 'a logged_scheme" where
  "set_log f s = s\<lparr>log := f (log s)\<rparr>"

definition set_lh :: "(loghdr \<Rightarrow> loghdr) \<Rightarrow> 'a logged_scheme \<Rightarrow> 'a logged_scheme" where
  "set_lh f = set_log (\<lambda>l. l\<lparr>lh := f (lh l)\<rparr>)"

definition read_head :: "('a logged_scheme, unit) kop" where
  "read_head s =
     kthen (bread (log_dev (log s)) (log_start (log s))) (\<lambda>b s1.
       let d = bdata (bufs s1 b); n = sint (get32 d 0)
       in brelse b (set_lh (\<lambda>h. h\<lparr>lh_n := n,
            lh_block := (\<lambda>i. if int i < n then get32 d (4 + 4 * i) else lh_block h i)\<rparr>) s1)) s"

fun put_blocks :: "(nat \<Rightarrow> u32) \<Rightarrow> nat list \<Rightarrow> u8 list \<Rightarrow> u8 list" where
  "put_blocks f [] d = d"
| "put_blocks f (i # is) d = put_blocks f is (put32 d (4 + 4 * i) (f i))"

definition write_head :: "('a logged_scheme, unit) kop" where
  "write_head s =
     kthen (bread (log_dev (log s)) (log_start (log s))) (\<lambda>b s1.
       let h = lh (log s1);
           d = put_blocks (lh_block h) (log_entries s1) (put32 (bdata (bufs s1 b)) 0 (of_int (lh_n h)))
       in kthen (bwrite b) (\<lambda>_. brelse b) (set_data b d s1)) s"

section \<open>Installing and logging blocks\<close>

definition install_one :: "bool \<Rightarrow> nat \<Rightarrow> ('a logged_scheme, unit) kop" where
  "install_one recovering tail s =
     (let l = log s
      in kthen (bread (log_dev l) (log_start l + of_nat tail + 1)) (\<lambda>lbuf.
         kthen (bread (log_dev l) (lh_block (lh l) tail)) (\<lambda>dbuf s1.
         kthen (bwrite dbuf) (\<lambda>_ s2.
           kthen (brelse lbuf) (\<lambda>_. brelse dbuf) (if recovering then s2 else bunpin dbuf s2))
           (set_data dbuf (bdata (bufs s1 lbuf)) s1))) s)"

definition install_trans :: "bool \<Rightarrow> ('a logged_scheme, unit) kop" where
  "install_trans recovering s = kfor (log_entries s) (install_one recovering) s"

definition recover_from_log :: "('a logged_scheme, unit) kop" where
  "recover_from_log =
     kthen read_head (\<lambda>_. kthen (install_trans True) (\<lambda>_.
     kthen (kmod (set_lh (\<lambda>h. h\<lparr>lh_n := 0\<rparr>))) (\<lambda>_. write_head)))"

definition log_one :: "nat \<Rightarrow> ('a logged_scheme, unit) kop" where
  "log_one tail s =
     (let l = log s
      in kthen (bread (log_dev l) (log_start l + of_nat tail + 1)) (\<lambda>to.
         kthen (bread (log_dev l) (lh_block (lh l) tail)) (\<lambda>from s1.
         kthen (bwrite to) (\<lambda>_. kthen (brelse from) (\<lambda>_. brelse to))
           (set_data to (bdata (bufs s1 from)) s1))) s)"

definition write_log :: "('a logged_scheme, unit) kop" where
  "write_log s = kfor (log_entries s) log_one s"

definition commit :: "('a logged_scheme, unit) kop" where
  "commit s =
     (if lh_n (lh (log s)) > 0
      then kthen write_log (\<lambda>_. kthen write_head (\<lambda>_. kthen (install_trans False) (\<lambda>_.
           kthen (kmod (set_lh (\<lambda>h. h\<lparr>lh_n := 0\<rparr>))) (\<lambda>_. write_head)))) s
      else Ret ((), s))"

section \<open>Transactions\<close>

text \<open>\<open>nlog\<close> and \<open>logstart\<close> come from the super block; the header fits a block.\<close>

definition initlog :: "u32 \<Rightarrow> u32 \<Rightarrow> u32 \<Rightarrow> ('a logged_scheme, unit) kop" where
  "initlog dev logstart nlog =
     (if 4 * (1 + LOGSIZE) \<ge> BSIZE then kpanic ''initlog: too big logheader''
      else kthen (kmod (set_log (\<lambda>l. l\<lparr>log_start := logstart, log_size := sint nlog, log_dev := dev\<rparr>)))
             (\<lambda>_. recover_from_log))"

definition begin_op :: "('a logged_scheme, unit) kop" where
  "begin_op s =
     (let l = log s
      in if committing l then Block ''log''
         else if lh_n (lh l) + (outstanding l + 1) * int MAXOPBLOCKS > int LOGSIZE then Block ''log''
         else Ret ((), set_log (\<lambda>l. l\<lparr>outstanding := outstanding l + 1\<rparr>) s))"

definition end_op :: "('a logged_scheme, unit) kop" where
  "end_op s =
     (let s1 = set_log (\<lambda>l. l\<lparr>outstanding := outstanding l - 1\<rparr>) s
      in if committing (log s1) then Panic ''log.committing''
         else if outstanding (log s1) = 0
         then kthen commit (\<lambda>_ s2. Ret ((), (set_log (\<lambda>l. l\<lparr>committing := False\<rparr>) s2)
                \<lparr>woken := woken s2 @ [ChanLog]\<rparr>)) (set_log (\<lambda>l. l\<lparr>committing := True\<rparr>) s1)
         else Ret ((), s1\<lparr>woken := woken s1 @ [ChanLog]\<rparr>))"

text \<open>The index of a block in the header, or \<open>lh.n\<close>: log absorption.\<close>

definition log_index :: "loghdr \<Rightarrow> u32 \<Rightarrow> nat" where
  "log_index h b =
     (case find (\<lambda>i. lh_block h i = b) [0..<nat (lh_n h)] of Some i \<Rightarrow> i | None \<Rightarrow> nat (lh_n h))"

definition log_write :: "nat \<Rightarrow> ('a logged_scheme, unit) kop" where
  "log_write b s =
     (let l = log s
      in if lh_n (lh l) \<ge> int LOGSIZE \<or> lh_n (lh l) \<ge> log_size l - 1 then Panic ''too big a transaction''
         else if outstanding l < 1 then Panic ''log_write outside of trans''
         else let i = log_index (lh l) (blockno (bufs s b));
                  s1 = set_lh (\<lambda>h. h\<lparr>lh_block := (lh_block h)(i := blockno (bufs s b))\<rparr>) s
              in Ret ((), if int i = lh_n (lh l)
                          then set_lh (\<lambda>h. h\<lparr>lh_n := lh_n h + 1\<rparr>) (bpin b s1) else s1))"

end
