(* ===== verification/Vm.thy ===== *)
theory Vm
  imports Kpages
begin

text \<open>
  \<open>kernel/vm.c\<close>, together with \<open>proc_mapstacks\<close> of \<open>proc.c\<close>: three-level page tables that
  live in physical memory, the operations on them, lazy and copy-on-write user memory, and
  the copy routines between kernel and user space. The kernel maps physical memory
  directly, so a kernel pointer is a physical address. A source buffer of \<open>copyout\<close> is the
  list of its bytes; \<open>copyin\<close> and \<open>copyinstr\<close> return the bytes they stored.
\<close>

section \<open>Walking page tables\<close>

abbreviation get_pte :: "kmem \<Rightarrow> addr \<Rightarrow> u64" where
  "get_pte s a \<equiv> load64 (phys s) a"

definition set_pte :: "addr \<Rightarrow> u64 \<Rightarrow> kmem \<Rightarrow> kmem" where
  "set_pte a v s = s\<lparr>phys := store64 (phys s) a v\<rparr>"

definition zero_page :: "addr \<Rightarrow> kmem \<Rightarrow> kmem" where
  "zero_page pa s = s\<lparr>phys := memset (phys s) pa 0 4096\<rparr>"

definition pte_slot :: "addr \<Rightarrow> nat \<Rightarrow> u64 \<Rightarrow> addr" where
  "pte_slot pagetable level va = pagetable + 8 * PX level va"

fun walk_loop :: "nat \<Rightarrow> addr \<Rightarrow> u64 \<Rightarrow> bool \<Rightarrow> kmem \<Rightarrow> addr \<times> kmem" where
  "walk_loop 0 pagetable va alloc s = (pte_slot pagetable 0 va, s)"
| "walk_loop (Suc l) pagetable va alloc s =
     (let pte = pte_slot pagetable (Suc l) va
      in if get_pte s pte AND PTE_V \<noteq> 0
         then walk_loop l (PTE2PA (get_pte s pte)) va alloc s
         else if \<not> alloc then (0, s)
         else (case kalloc s of (p, s1) \<Rightarrow>
                 if p = 0 then (0, s1)
                 else walk_loop l p va alloc (set_pte pte (PA2PTE p OR PTE_V) (zero_page p s1))))"

definition walk :: "addr \<Rightarrow> u64 \<Rightarrow> bool \<Rightarrow> kmem \<Rightarrow> (addr \<times> kmem) kres" where
  "walk pagetable va alloc s =
     (if va \<ge> MAXVA then Panic ''walk'' else Ret (walk_loop 2 pagetable va alloc s))"

definition walkaddr :: "addr \<Rightarrow> u64 \<Rightarrow> kmem \<Rightarrow> addr kres" where
  "walkaddr pagetable va s =
     (if va \<ge> MAXVA then Ret 0
      else kbind (walk pagetable va False s) (\<lambda>(pte, s).
        if pte = 0 then Ret 0
        else if get_pte s pte AND PTE_V = 0 then Ret 0
        else if get_pte s pte AND PTE_U = 0 then Ret 0
        else Ret (PTE2PA (get_pte s pte))))"

lemma walk_bound: "walk pagetable va alloc s = Ret r \<Longrightarrow> va < MAXVA"
  by (auto simp: walk_def split: if_splits)

definition va_room :: "u64 \<Rightarrow> nat" where
  "va_room a = 2 ^ 64 - unat a"

lemma next_page_less: "a < MAXVA \<Longrightarrow> va_room (a + PGSIZE) < va_room a"
proof -
  assume "a < MAXVA"
  then have "unat a < 2 ^ 38" by (simp add: MAXVA_def word_less_nat_alt)
  then have "unat (a + PGSIZE) = unat a + 4096" by (simp add: PGSIZE_def unat_word_ariths)
  then show ?thesis using unat_less_64 [of "a + PGSIZE"] by (simp add: va_room_def)
qed

section \<open>Mapping and unmapping\<close>

function (sequential) map_loop :: "addr \<Rightarrow> u64 \<Rightarrow> u64 \<Rightarrow> u64 \<Rightarrow> u64 \<Rightarrow> kmem \<Rightarrow> (int \<times> kmem) kres" where
  "map_loop pagetable a lst pa perm s =
     kbind (walk pagetable a True s) (\<lambda>r. case r of (pte, s1) \<Rightarrow>
       if pte = 0 then Ret (- 1, s1)
       else if get_pte s1 pte AND PTE_V \<noteq> 0 then Panic ''mappages: remap''
       else let s2 = set_pte pte (PA2PTE pa OR perm OR PTE_V) s1
            in if a = lst then Ret (0, s2)
               else map_loop pagetable (a + PGSIZE) lst (pa + PGSIZE) perm s2)"
  by pat_completeness auto
termination
  by (relation "measure (\<lambda>(pagetable, a, lst, pa, perm, s). va_room a)")
    (auto dest!: walk_bound intro: next_page_less)

definition mappages :: "addr \<Rightarrow> u64 \<Rightarrow> u64 \<Rightarrow> u64 \<Rightarrow> u64 \<Rightarrow> kmem \<Rightarrow> (int \<times> kmem) kres" where
  "mappages pagetable va sz pa perm s =
     (if va mod PGSIZE \<noteq> 0 then Panic ''mappages: va not aligned''
      else if sz mod PGSIZE \<noteq> 0 then Panic ''mappages: size not aligned''
      else if sz = 0 then Panic ''mappages: size''
      else map_loop pagetable va (va + sz - PGSIZE) pa perm s)"

definition kvmmap :: "addr \<Rightarrow> u64 \<Rightarrow> u64 \<Rightarrow> u64 \<Rightarrow> u64 \<Rightarrow> kmem \<Rightarrow> kmem kres" where
  "kvmmap kpgtbl va pa sz perm s =
     kbind (mappages kpgtbl va sz pa perm s) (\<lambda>(r, s1).
       if r \<noteq> 0 then Panic ''kvmmap'' else Ret s1)"

function (sequential) unmap_loop :: "addr \<Rightarrow> u64 \<Rightarrow> u64 \<Rightarrow> bool \<Rightarrow> kmem \<Rightarrow> kmem kres" where
  "unmap_loop pagetable a va_end do_free s =
     (if a < va_end
      then kbind (walk pagetable a False s) (\<lambda>r. case r of (pte, s1) \<Rightarrow>
        if pte = 0 then unmap_loop pagetable (a + PGSIZE) va_end do_free s1
        else if get_pte s1 pte AND PTE_V = 0 then unmap_loop pagetable (a + PGSIZE) va_end do_free s1
        else if PTE_FLAGS (get_pte s1 pte) = PTE_V then Panic ''uvmunmap: not a leaf''
        else kbind (if do_free then drop_ref (PTE2PA (get_pte s1 pte)) s1 else Ret s1)
               (\<lambda>s2. unmap_loop pagetable (a + PGSIZE) va_end do_free (set_pte pte 0 s2)))
      else Ret s)"
  by pat_completeness auto
termination
  by (relation "measure (\<lambda>(pagetable, a, va_end, do_free, s). va_room a)")
    (auto dest!: walk_bound intro: next_page_less)

definition uvmunmap :: "addr \<Rightarrow> u64 \<Rightarrow> u64 \<Rightarrow> bool \<Rightarrow> kmem \<Rightarrow> kmem kres" where
  "uvmunmap pagetable va npages do_free s =
     (if va mod PGSIZE \<noteq> 0 then Panic ''uvmunmap: not aligned''
      else unmap_loop pagetable va (va + npages * PGSIZE) do_free s)"

declare map_loop.simps [simp del] unmap_loop.simps [simp del]

section \<open>User address spaces\<close>

definition uvmcreate :: "kmem \<Rightarrow> addr \<times> kmem" where
  "uvmcreate s =
     (case kalloc s of (pagetable, s1) \<Rightarrow>
        if pagetable = 0 then (0, s1) else (pagetable, zero_page pagetable s1))"

text \<open>Bytes stored at consecutive addresses, and read from them: \<open>memmove\<close> between buffers.\<close>

fun write_bytes :: "bytemem \<Rightarrow> addr \<Rightarrow> u8 list \<Rightarrow> bytemem" where
  "write_bytes m a [] = m"
| "write_bytes m a (b # bs) = write_bytes (m(a := b)) (a + 1) bs"

definition read_bytes :: "bytemem \<Rightarrow> addr \<Rightarrow> nat \<Rightarrow> u8 list" where
  "read_bytes m a n = map (\<lambda>i. m (a + of_nat i)) [0..<n]"

definition uvmfirst :: "addr \<Rightarrow> u8 list \<Rightarrow> kmem \<Rightarrow> kmem kres" where
  "uvmfirst pagetable src s =
     (if length src \<ge> 4096 then Panic ''uvmfirst: more than a page''
      else case kalloc s of (mem, s1) \<Rightarrow>
        kbind (mappages pagetable 0 PGSIZE mem (PTE_W OR PTE_R OR PTE_X OR PTE_U) (zero_page mem s1))
          (\<lambda>(r, s2). Ret (s2\<lparr>phys := write_bytes (phys s2) mem src\<rparr>)))"

definition uvmalloc :: "addr \<Rightarrow> u64 \<Rightarrow> u64 \<Rightarrow> u64 \<Rightarrow> u64" where
  "uvmalloc pagetable oldsz newsz xperm = (if newsz < oldsz then oldsz else newsz)"

definition uvmdealloc :: "addr \<Rightarrow> u64 \<Rightarrow> u64 \<Rightarrow> kmem \<Rightarrow> (u64 \<times> kmem) kres" where
  "uvmdealloc pagetable oldsz newsz s =
     (if newsz \<ge> oldsz then Ret (oldsz, s)
      else if PGROUNDUP newsz < PGROUNDUP oldsz
      then let npages = (ucast ((PGROUNDUP oldsz - PGROUNDUP newsz) div PGSIZE) :: u32)
           in kbind (uvmunmap pagetable (PGROUNDUP newsz) (scast npages) True s) (\<lambda>s1. Ret (newsz, s1))
      else Ret (newsz, s))"

text \<open>
  \<open>freewalk\<close> recurses as deep as the tree of valid non-leaf entries is; the first argument
  bounds the depth, and \<open>Diverge\<close> is the result when it is exceeded.
\<close>

fun freewalk_entries :: "(addr \<Rightarrow> kmem \<Rightarrow> kmem kres) \<Rightarrow> addr \<Rightarrow> nat \<Rightarrow> nat \<Rightarrow> kmem \<Rightarrow> kmem kres" where
  "freewalk_entries rec pagetable i 0 s = Ret s"
| "freewalk_entries rec pagetable i (Suc n) s =
     (let slot = pagetable + 8 * of_nat i; pte = get_pte s slot
      in if pte AND PTE_V \<noteq> 0 \<and> pte AND (PTE_R OR PTE_W OR PTE_X) = 0
         then kbind (rec (PTE2PA pte) s)
                (\<lambda>s1. freewalk_entries rec pagetable (Suc i) n (set_pte slot 0 s1))
         else if pte AND PTE_V \<noteq> 0 then Panic ''freewalk: leaf''
         else freewalk_entries rec pagetable (Suc i) n s)"

fun freewalk :: "nat \<Rightarrow> addr \<Rightarrow> kmem \<Rightarrow> kmem kres" where
  "freewalk 0 pagetable s = Diverge"
| "freewalk (Suc d) pagetable s =
     kbind (freewalk_entries (freewalk d) pagetable 0 512 s) (kfree pagetable)"

definition uvmfree :: "addr \<Rightarrow> u64 \<Rightarrow> kmem \<Rightarrow> kmem kres" where
  "uvmfree pagetable sz s =
     kbind (if sz > 0 then uvmunmap pagetable 0 (PGROUNDUP sz div PGSIZE) True s else Ret s)
       (freewalk 3 pagetable)"

function (sequential) copy_loop :: "addr \<Rightarrow> addr \<Rightarrow> u64 \<Rightarrow> u64 \<Rightarrow> kmem \<Rightarrow> (int \<times> u64 \<times> kmem) kres" where
  "copy_loop old new i sz s =
     (if i < sz
      then kbind (walk old i False s) (\<lambda>r. case r of (pte, s0) \<Rightarrow>
        if pte = 0 then copy_loop old new (i + PGSIZE) sz s0
        else if get_pte s0 pte AND PTE_V = 0 then copy_loop old new (i + PGSIZE) sz s0
        else let pa = PTE2PA (get_pte s0 pte);
                 flags = (PTE_FLAGS (get_pte s0 pte) AND NOT PTE_W) OR PTE_COW;
                 s1 = set_pte pte (PA2PTE pa OR flags OR PTE_V) s0
             in kbind (incref pa s1) (\<lambda>s2.
                  kbind (mappages new i PGSIZE pa flags s2) (\<lambda>r. case r of (ret, s3) \<Rightarrow>
                    if ret \<noteq> 0 then kbind (decref pa s3) (\<lambda>r. case r of (_, s4) \<Rightarrow> Ret (- 1, i, s4))
                    else copy_loop old new (i + PGSIZE) sz s3)))
      else Ret (0, i, s))"
  by pat_completeness auto
termination
  by (relation "measure (\<lambda>(old, new, i, sz, s). va_room i)")
    (auto dest!: walk_bound intro: next_page_less)

declare copy_loop.simps [simp del]

definition uvmcopy :: "addr \<Rightarrow> addr \<Rightarrow> u64 \<Rightarrow> kmem \<Rightarrow> (int \<times> kmem) kres" where
  "uvmcopy old new sz s =
     kbind (copy_loop old new 0 sz s) (\<lambda>(ret, i, s1).
       if ret = 0 then Ret (0, s1)
       else kbind (uvmunmap new 0 (i div PGSIZE) True s1) (\<lambda>s2. Ret (- 1, s2)))"

definition uvmclear :: "addr \<Rightarrow> u64 \<Rightarrow> kmem \<Rightarrow> kmem kres" where
  "uvmclear pagetable va s =
     kbind (walk pagetable va False s) (\<lambda>(pte, s1).
       if pte = 0 then Panic ''uvmclear''
       else Ret (set_pte pte (get_pte s1 pte AND NOT PTE_U) s1))"

section \<open>Copying between kernel and user space\<close>

definition not_user_writable :: "u64 \<Rightarrow> bool" where
  "not_user_writable pte \<longleftrightarrow> pte AND PTE_V = 0 \<or> pte AND PTE_U = 0 \<or> pte AND PTE_W = 0"

text \<open>The page-table entry \<open>copyout\<close> writes through; a missing page is allocated first.\<close>

definition copyout_page :: "addr \<Rightarrow> u64 \<Rightarrow> kmem \<Rightarrow> (addr option \<times> kmem) kres" where
  "copyout_page pagetable va0 s =
     kbind (walk pagetable va0 False s) (\<lambda>(pte, s0).
       if pte = 0 \<or> not_user_writable (get_pte s0 pte)
       then (case kalloc s0 of (mem, s1) \<Rightarrow>
         if mem = 0 then Ret (None, s1)
         else kbind (mappages pagetable va0 PGSIZE mem (PTE_W OR PTE_R OR PTE_U) (zero_page mem s1)) (\<lambda>(r, s2).
           if r \<noteq> 0 then kbind (kfree mem s2) (\<lambda>s3. Ret (None, s3))
           else kbind (walk pagetable va0 False s2) (\<lambda>(pte, s3).
             if pte = 0 \<or> not_user_writable (get_pte s3 pte) then Ret (None, s3) else Ret (Some pte, s3))))
       else Ret (Some pte, s0))"

definition chunk_len :: "u64 \<Rightarrow> nat \<Rightarrow> nat" where
  "chunk_len va len = min (unat (PGSIZE - (va - PGROUNDDOWN va))) len"

lemma page_offset: "va - PGROUNDDOWN va = take_bit 12 va"
  using PGROUNDDOWN_plus [of va] by (metis add_diff_cancel_left')

lemma unat_chunk: "unat (PGSIZE - (va - PGROUNDDOWN va)) = 4096 - unat va mod 4096"
proof -
  have "unat (take_bit 12 va) = unat va mod 4096"
    by (simp add: unsigned_take_bit_eq) (simp add: take_bit_eq_mod)
  then show ?thesis
    by (simp add: page_offset unat_sub word_le_nat_alt PGSIZE_def)
qed

lemma chunk_len_pos: "0 < len \<Longrightarrow> 0 < chunk_len va len"
  by (simp add: chunk_len_def unat_chunk)

lemma chunk_len_le: "chunk_len va len \<le> len"
  by (simp add: chunk_len_def)

function (sequential) copyout :: "addr \<Rightarrow> u64 \<Rightarrow> u8 list \<Rightarrow> kmem \<Rightarrow> (int \<times> kmem) kres" where
  "copyout pagetable dstva src s =
     (if src = [] then Ret (0, s)
      else let va0 = PGROUNDDOWN dstva
           in if va0 \<ge> MAXVA then Ret (- 1, s)
              else kbind (copyout_page pagetable va0 s) (\<lambda>r. case r of (None, s1) \<Rightarrow> Ret (- 1, s1)
                | (Some pte, s1) \<Rightarrow>
                    let pa0 = PTE2PA (get_pte s1 pte); n = chunk_len dstva (length src)
                    in copyout pagetable (va0 + PGSIZE) (drop n src)
                         (s1\<lparr>phys := write_bytes (phys s1) (pa0 + (dstva - va0)) (take n src)\<rparr>)))"
  by pat_completeness auto
termination
  by (relation "measure (\<lambda>(pagetable, dstva, src, s). length src)") (auto simp: chunk_len_pos)

function (sequential) copyin :: "addr \<Rightarrow> u64 \<Rightarrow> nat \<Rightarrow> kmem \<Rightarrow> (int \<times> u8 list) kres" where
  "copyin pagetable srcva len s =
     (if len > 0
      then let va0 = PGROUNDDOWN srcva
           in kbind (walkaddr pagetable va0 s) (\<lambda>pa0.
                if pa0 = 0 then Ret (- 1, [])
                else let n = chunk_len srcva len
                     in kbind (copyin pagetable (va0 + PGSIZE) (len - n) s) (\<lambda>(r, bs).
                          Ret (r, read_bytes (phys s) (pa0 + (srcva - va0)) n @ bs)))
      else Ret (0, []))"
  by pat_completeness auto
termination
  by (relation "measure (\<lambda>(pagetable, srcva, len, s). len)") (auto simp: chunk_len_pos)

text \<open>The inner loop of \<open>copyinstr\<close>: the bytes stored, and whether the last one is the null.\<close>

fun str_chunk :: "bytemem \<Rightarrow> addr \<Rightarrow> nat \<Rightarrow> u8 list \<times> bool" where
  "str_chunk m p 0 = ([], False)"
| "str_chunk m p (Suc n) =
     (if m p = 0 then ([0], True)
      else (case str_chunk m (p + 1) n of (bs, got_null) \<Rightarrow> (m p # bs, got_null)))"

function (sequential) copyinstr :: "addr \<Rightarrow> u64 \<Rightarrow> nat \<Rightarrow> kmem \<Rightarrow> (int \<times> u8 list) kres" where
  "copyinstr pagetable srcva mx s =
     (if mx > 0
      then let va0 = PGROUNDDOWN srcva
           in kbind (walkaddr pagetable va0 s) (\<lambda>pa0.
                if pa0 = 0 then Ret (- 1, [])
                else let n = chunk_len srcva mx
                     in case str_chunk (phys s) (pa0 + (srcva - va0)) n of (bs, got_null) \<Rightarrow>
                          if got_null then Ret (0, bs)
                          else kbind (copyinstr pagetable (va0 + PGSIZE) (mx - n) s) (\<lambda>(r, bs').
                                 Ret (r, bs @ bs')))
      else Ret (- 1, []))"
  by pat_completeness auto
termination
  by (relation "measure (\<lambda>(pagetable, srcva, mx, s). mx)") (auto simp: chunk_len_pos)

declare copyout.simps [simp del] copyin.simps [simp del] copyinstr.simps [simp del]

section \<open>The kernel page table\<close>

fun mapstacks_loop :: "nat \<Rightarrow> nat \<Rightarrow> addr \<Rightarrow> kmem \<Rightarrow> kmem kres" where
  "mapstacks_loop 0 p kpgtbl s = Ret s"
| "mapstacks_loop (Suc n) p kpgtbl s =
     (case kalloc s of (pa, s1) \<Rightarrow>
        if pa = 0 then Panic ''kalloc''
        else kbind (kvmmap kpgtbl (KSTACK (of_nat p)) pa PGSIZE (PTE_R OR PTE_W) s1) (mapstacks_loop n (Suc p) kpgtbl))"

definition proc_mapstacks :: "addr \<Rightarrow> kmem \<Rightarrow> kmem kres" where
  "proc_mapstacks kpgtbl s = mapstacks_loop NPROC 0 kpgtbl s"

text \<open>\<open>etext\<close> and \<open>trampoline\<close> are symbols placed by the linker.\<close>

definition kvmmake :: "addr \<Rightarrow> addr \<Rightarrow> kmem \<Rightarrow> (addr \<times> kmem) kres" where
  "kvmmake etext trampoline s =
     (case kalloc s of (kpgtbl, s0) \<Rightarrow>
        kbind (kvmmap kpgtbl UART0 UART0 PGSIZE (PTE_R OR PTE_W) (zero_page kpgtbl s0)) (\<lambda>s1.
        kbind (kvmmap kpgtbl VIRTIO0 VIRTIO0 PGSIZE (PTE_R OR PTE_W) s1) (\<lambda>s2.
        kbind (kvmmap kpgtbl PLIC PLIC 0x4000000 (PTE_R OR PTE_W) s2) (\<lambda>s3.
        kbind (kvmmap kpgtbl KERNBASE KERNBASE (etext - KERNBASE) (PTE_R OR PTE_X) s3) (\<lambda>s4.
        kbind (kvmmap kpgtbl etext etext (PHYSTOP - etext) (PTE_R OR PTE_W) s4) (\<lambda>s5.
        kbind (kvmmap kpgtbl TRAMPOLINE trampoline PGSIZE (PTE_R OR PTE_X) s5) (\<lambda>s6.
        kbind (proc_mapstacks kpgtbl s6) (\<lambda>s7. Ret (kpgtbl, s7)))))))))"

end
