(* ===== verification/Fs.thy ===== *)
theory Fs
  imports Log Vm
begin

text \<open>
  \<open>kernel/fs.c\<close>: blocks, inodes, directories and path names over the log. An inode pointer is
  its index in \<open>itable.inode\<close>; the sections under \<open>itable.lock\<close> are atomic. The state also
  holds memory and the page table of the running process, which \<open>readi\<close> and \<open>writei\<close> copy
  from and to. A kernel buffer is the list of its bytes, a C string the list of the bytes
  before its terminator.
\<close>

definition NINODE :: nat where "NINODE = 50"
definition NDIRECT :: nat where "NDIRECT = 12"
definition NINDIRECT :: nat where "NINDIRECT = 256"
definition MAXFILE :: nat where "MAXFILE = 268"
definition IPB :: nat where "IPB = 16"
definition BPB :: nat where "BPB = 8192"
definition DIRSIZ :: nat where "DIRSIZ = 14"
definition ROOTDEV :: u32 where "ROOTDEV = 1"
definition ROOTINO :: u32 where "ROOTINO = 1"
definition FSMAGIC :: u32 where "FSMAGIC = 0x10203040"
definition T_DIR :: u16 where "T_DIR = 1"
definition T_FILE :: u16 where "T_FILE = 2"
definition T_DEVICE :: u16 where "T_DEVICE = 3"

record superblock =
  sb_magic :: u32
  sb_size :: u32
  sb_nblocks :: u32
  sb_ninodes :: u32
  sb_nlog :: u32
  sb_logstart :: u32
  sb_inodestart :: u32
  sb_bmapstart :: u32

record inode =
  idev :: u32
  inum :: u32
  iref :: int
  inode_lock :: sleeplock
  ivalid :: bool
  itype :: u16
  imajor :: u16
  iminor :: u16
  inlink :: u16
  isize :: u32
  iaddrs :: "u32 list"

record fsys = logged +
  sb :: superblock
  inodes :: "nat \<Rightarrow> inode"
  km :: kmem
  curpt :: addr

definition set_inode :: "nat \<Rightarrow> (inode \<Rightarrow> inode) \<Rightarrow> 'a fsys_scheme \<Rightarrow> 'a fsys_scheme" where
  "set_inode ip f s = s\<lparr>inodes := (inodes s)(ip := f (inodes s ip))\<rparr>"

section \<open>Super block\<close>

definition readsb :: "u32 \<Rightarrow> ('a fsys_scheme, unit) kop" where
  "readsb dev =
     kthen (bread dev 1) (\<lambda>bp s.
       let d = bdata (bufs s bp)
       in brelse bp (s\<lparr>sb := \<lparr>sb_magic = get32 d 0, sb_size = get32 d 4, sb_nblocks = get32 d 8,
            sb_ninodes = get32 d 12, sb_nlog = get32 d 16, sb_logstart = get32 d 20,
            sb_inodestart = get32 d 24, sb_bmapstart = get32 d 28\<rparr>\<rparr>))"

definition fsinit :: "u32 \<Rightarrow> ('a fsys_scheme, unit) kop" where
  "fsinit dev =
     kthen (readsb dev) (\<lambda>_ s.
       if sb_magic (sb s) \<noteq> FSMAGIC then Panic ''invalid file system''
       else initlog dev (sb_logstart (sb s)) (sb_nlog (sb s)) s)"

section \<open>Blocks\<close>

definition bzero :: "u32 \<Rightarrow> u32 \<Rightarrow> ('a fsys_scheme, unit) kop" where
  "bzero dev bno =
     kthen (bread dev bno) (\<lambda>bp.
     kthen (kmod (set_data bp (replicate BSIZE 0))) (\<lambda>_.
     kthen (log_write bp) (\<lambda>_. brelse bp)))"

definition IBLOCK :: "u32 \<Rightarrow> superblock \<Rightarrow> u32" where
  "IBLOCK i sblk = i div of_nat IPB + sb_inodestart sblk"

definition BBLOCK :: "u32 \<Rightarrow> superblock \<Rightarrow> u32" where
  "BBLOCK b sblk = b div of_nat BPB + sb_bmapstart sblk"

definition bmap_bit :: "nat \<Rightarrow> u8" where
  "bmap_bit bi = push_bit (bi mod 8) 1"

definition bit_free :: "u8 list \<Rightarrow> nat \<Rightarrow> bool" where
  "bit_free d bi \<longleftrightarrow> d ! (bi div 8) AND bmap_bit bi = 0"

text \<open>One bitmap block: find the first free bit, mark it and zero the block.\<close>

definition balloc_in :: "u32 \<Rightarrow> nat \<Rightarrow> ('a fsys_scheme, u32) kop" where
  "balloc_in dev b s =
     kthen (bread dev (BBLOCK (of_nat b) (sb s))) (\<lambda>bp s1.
       let d = bdata (bufs s1 bp)
       in case find (bit_free d) [0..<min BPB (unat (sb_size (sb s)) - b)] of
            Some bi \<Rightarrow>
              kthen (log_write bp) (\<lambda>_. kthen (brelse bp) (\<lambda>_.
              kthen (bzero dev (of_nat (b + bi))) (\<lambda>_. kret (of_nat (b + bi)))))
                (set_data bp (d[bi div 8 := d ! (bi div 8) OR bmap_bit bi]) s1)
          | None \<Rightarrow> kthen (brelse bp) (\<lambda>_. kret 0) s1) s"

fun balloc_scan :: "u32 \<Rightarrow> nat list \<Rightarrow> ('a fsys_scheme, u32) kop" where
  "balloc_scan dev [] = kret 0"
| "balloc_scan dev (b # bs) = kthen (balloc_in dev b) (\<lambda>r. if r \<noteq> 0 then kret r else balloc_scan dev bs)"

definition balloc :: "u32 \<Rightarrow> ('a fsys_scheme, u32) kop" where
  "balloc dev s = balloc_scan dev (map (\<lambda>k. k * BPB) [0..<(unat (sb_size (sb s)) + BPB - 1) div BPB]) s"

definition bfree :: "u32 \<Rightarrow> u32 \<Rightarrow> ('a fsys_scheme, unit) kop" where
  "bfree dev b s =
     kthen (bread dev (BBLOCK b (sb s))) (\<lambda>bp s1.
       let bi = unat b mod BPB; d = bdata (bufs s1 bp)
       in if bit_free d bi then Panic ''freeing free block''
          else kthen (log_write bp) (\<lambda>_. brelse bp)
                 (set_data bp (d[bi div 8 := d ! (bi div 8) AND NOT (bmap_bit bi)]) s1)) s"

section \<open>Inodes\<close>

definition dinode_off :: "u32 \<Rightarrow> nat" where
  "dinode_off ino = 64 * (unat ino mod IPB)"

definition put_dinode :: "inode \<Rightarrow> u8 list \<Rightarrow> nat \<Rightarrow> u8 list" where
  "put_dinode ip d off =
     fold (\<lambda>i d. put32 d (off + 12 + 4 * i) (iaddrs ip ! i)) [0..<Suc NDIRECT]
       (put32 (put16 (put16 (put16 (put16 d off (itype ip)) (off + 2) (imajor ip)) (off + 4) (iminor ip))
          (off + 6) (inlink ip)) (off + 8) (isize ip))"

definition get_dinode :: "u8 list \<Rightarrow> nat \<Rightarrow> inode \<Rightarrow> inode" where
  "get_dinode d off ip =
     ip\<lparr>itype := get16 d off, imajor := get16 d (off + 2), iminor := get16 d (off + 4),
        inlink := get16 d (off + 6), isize := get32 d (off + 8),
        iaddrs := map (\<lambda>i. get32 d (off + 12 + 4 * i)) [0..<Suc NDIRECT]\<rparr>"

definition iinit :: "'a fsys_scheme \<Rightarrow> 'a fsys_scheme" where
  "iinit s = s\<lparr>inodes := (\<lambda>i. if i < NINODE then (inodes s i)\<lparr>inode_lock := initsleeplock\<rparr> else inodes s i)\<rparr>"

definition iget :: "u32 \<Rightarrow> u32 \<Rightarrow> ('a fsys_scheme, nat) kop" where
  "iget dev ino s =
     (case find (\<lambda>i. iref (inodes s i) > 0 \<and> idev (inodes s i) = dev \<and> inum (inodes s i) = ino) [0..<NINODE] of
        Some i \<Rightarrow> Ret (i, set_inode i (\<lambda>ip. ip\<lparr>iref := iref ip + 1\<rparr>) s)
      | None \<Rightarrow>
          (case find (\<lambda>i. iref (inodes s i) = 0) [0..<NINODE] of
             None \<Rightarrow> Panic ''iget: no inodes''
           | Some i \<Rightarrow> Ret (i, set_inode i (\<lambda>ip. ip\<lparr>idev := dev, inum := ino, iref := 1, ivalid := False\<rparr>) s)))"

fun ialloc_scan :: "u32 \<Rightarrow> u16 \<Rightarrow> nat list \<Rightarrow> ('a fsys_scheme, nat option) kop" where
  "ialloc_scan dev type [] s = Ret (None, s)"
| "ialloc_scan dev type (n # ns) s =
     kthen (bread dev (IBLOCK (of_nat n) (sb s))) (\<lambda>bp s1.
       let d = bdata (bufs s1 bp); off = dinode_off (of_nat n)
       in if get16 d off = 0
          then kthen (log_write bp) (\<lambda>_. kthen (brelse bp) (\<lambda>_.
               kthen (iget dev (of_nat n)) (\<lambda>i. kret (Some i))))
                 (set_data bp (put16 (splice d off (replicate 64 0)) off type) s1)
          else kthen (brelse bp) (\<lambda>_. ialloc_scan dev type ns) s1) s"

definition ialloc :: "u32 \<Rightarrow> u16 \<Rightarrow> ('a fsys_scheme, nat option) kop" where
  "ialloc dev type s = ialloc_scan dev type [1..<unat (sb_ninodes (sb s))] s"

definition iupdate :: "nat \<Rightarrow> ('a fsys_scheme, unit) kop" where
  "iupdate ip s =
     (let i = inodes s ip
      in kthen (bread (idev i) (IBLOCK (inum i) (sb s))) (\<lambda>bp s1.
           kthen (log_write bp) (\<lambda>_. brelse bp)
             (set_data bp (put_dinode i (bdata (bufs s1 bp)) (dinode_off (inum i))) s1)) s)"

definition idup :: "nat \<Rightarrow> 'a fsys_scheme \<Rightarrow> 'a fsys_scheme" where
  "idup ip = set_inode ip (\<lambda>i. i\<lparr>iref := iref i + 1\<rparr>)"

definition lock_inode :: "nat \<Rightarrow> ('a fsys_scheme, unit) kop" where
  "lock_inode ip s =
     kbind (acquiresleep (curpid s) (inode_lock (inodes s ip))) (\<lambda>lk.
       Ret ((), set_inode ip (\<lambda>i. i\<lparr>inode_lock := lk\<rparr>) s))"

definition unlock_inode :: "nat \<Rightarrow> 'a fsys_scheme \<Rightarrow> 'a fsys_scheme" where
  "unlock_inode ip s =
     (set_inode ip (\<lambda>i. i\<lparr>inode_lock := releasesleep (inode_lock i)\<rparr>) s)\<lparr>woken := woken s @ [ChanInode ip]\<rparr>"

definition ilock :: "nat \<Rightarrow> ('a fsys_scheme, unit) kop" where
  "ilock ip s =
     (if iref (inodes s ip) < 1 then Panic ''ilock''
      else kthen (lock_inode ip) (\<lambda>_ s1.
        let i = inodes s1 ip
        in if ivalid i then Ret ((), s1)
           else kthen (bread (idev i) (IBLOCK (inum i) (sb s1))) (\<lambda>bp s2.
                  kthen (brelse bp) (\<lambda>_ s3.
                    if itype (inodes s3 ip) = 0 then Panic ''ilock: no type'' else Ret ((), s3))
                    (set_inode ip (\<lambda>i. (get_dinode (bdata (bufs s2 bp)) (dinode_off (inum i)) i)\<lparr>ivalid := True\<rparr>) s2)) s1) s)"

definition iunlock :: "nat \<Rightarrow> ('a fsys_scheme, unit) kop" where
  "iunlock ip s =
     (if \<not> holdingsleep (curpid s) (inode_lock (inodes s ip)) \<or> iref (inodes s ip) < 1 then Panic ''iunlock''
      else Ret ((), unlock_inode ip s))"

section \<open>Inode contents\<close>

definition bmap :: "nat \<Rightarrow> nat \<Rightarrow> ('a fsys_scheme, u32) kop" where
  "bmap ip bn s =
     (let i = inodes s ip
      in if bn < NDIRECT
         then if iaddrs i ! bn = 0
              then kthen (balloc (idev i)) (\<lambda>addr s1.
                     if addr = 0 then Ret (0, s1)
                     else Ret (addr, set_inode ip (\<lambda>i. i\<lparr>iaddrs := (iaddrs i)[bn := addr]\<rparr>) s1)) s
              else Ret (iaddrs i ! bn, s)
         else if bn - NDIRECT < NINDIRECT
         then kthen (\<lambda>s. if iaddrs i ! NDIRECT = 0
                         then kthen (balloc (idev i)) (\<lambda>addr s1.
                                if addr = 0 then Ret (0, s1)
                                else Ret (addr, set_inode ip (\<lambda>i. i\<lparr>iaddrs := (iaddrs i)[NDIRECT := addr]\<rparr>) s1)) s
                         else Ret (iaddrs i ! NDIRECT, s)) (\<lambda>ind s1.
                if ind = 0 then Ret (0, s1)
                else kthen (bread (idev i) ind) (\<lambda>bp s2.
                  let a = get32 (bdata (bufs s2 bp)) (4 * (bn - NDIRECT))
                  in if a = 0
                     then kthen (balloc (idev i)) (\<lambda>addr s3.
                            if addr \<noteq> 0
                            then kthen (log_write bp) (\<lambda>_. kthen (brelse bp) (\<lambda>_. kret addr))
                                   (set_data bp (put32 (bdata (bufs s3 bp)) (4 * (bn - NDIRECT)) addr) s3)
                            else kthen (brelse bp) (\<lambda>_. kret 0) s3) s2
                     else kthen (brelse bp) (\<lambda>_. kret a) s2) s1) s
         else Panic ''bmap: out of range'')"

definition free_direct :: "nat \<Rightarrow> nat \<Rightarrow> ('a fsys_scheme, unit) kop" where
  "free_direct ip i s =
     (let a = iaddrs (inodes s ip) ! i
      in if a \<noteq> 0
         then kthen (bfree (idev (inodes s ip)) a) (\<lambda>_.
                kmod (set_inode ip (\<lambda>ino. ino\<lparr>iaddrs := (iaddrs ino)[i := 0]\<rparr>))) s
         else Ret ((), s))"

definition itrunc :: "nat \<Rightarrow> ('a fsys_scheme, unit) kop" where
  "itrunc ip =
     kthen (kfor [0..<NDIRECT] (free_direct ip)) (\<lambda>_.
     kthen (\<lambda>s. let i = inodes s ip; ind = iaddrs i ! NDIRECT
                in if ind \<noteq> 0
                   then kthen (bread (idev i) ind) (\<lambda>bp s1.
                          let d = bdata (bufs s1 bp)
                          in kthen (kfor [0..<NINDIRECT] (\<lambda>j. if get32 d (4 * j) \<noteq> 0
                                       then bfree (idev i) (get32 d (4 * j)) else kret ())) (\<lambda>_.
                             kthen (brelse bp) (\<lambda>_. kthen (bfree (idev i) ind) (\<lambda>_.
                             kmod (set_inode ip (\<lambda>ino. ino\<lparr>iaddrs := (iaddrs ino)[NDIRECT := 0]\<rparr>))))) s1) s
                   else Ret ((), s)) (\<lambda>_.
     kthen (kmod (set_inode ip (\<lambda>i. i\<lparr>isize := 0\<rparr>))) (\<lambda>_. iupdate ip)))"

definition iput :: "nat \<Rightarrow> ('a fsys_scheme, unit) kop" where
  "iput ip s =
     (let i = inodes s ip
      in kthen (if iref i = 1 \<and> ivalid i \<and> inlink i = 0
                then kthen (lock_inode ip) (\<lambda>_. kthen (itrunc ip) (\<lambda>_.
                     kthen (kmod (set_inode ip (\<lambda>i. i\<lparr>itype := 0\<rparr>))) (\<lambda>_. kthen (iupdate ip) (\<lambda>_.
                     kthen (kmod (set_inode ip (\<lambda>i. i\<lparr>ivalid := False\<rparr>))) (\<lambda>_.
                     kmod (unlock_inode ip))))))
                else kret ()) (\<lambda>_. kmod (set_inode ip (\<lambda>i. i\<lparr>iref := iref i - 1\<rparr>))) s)"

definition iunlockput :: "nat \<Rightarrow> ('a fsys_scheme, unit) kop" where
  "iunlockput ip = kthen (iunlock ip) (\<lambda>_. iput ip)"

record stat =
  st_dev :: u32
  st_ino :: u32
  st_type :: u16
  st_nlink :: u16
  st_size :: u64

definition stati :: "inode \<Rightarrow> stat" where
  "stati ip = \<lparr>st_dev = idev ip, st_ino = inum ip, st_type = itype ip, st_nlink = inlink ip, st_size = ucast (isize ip)\<rparr>"

section \<open>Reading and writing\<close>

definition on_km :: "(kmem \<Rightarrow> ('a \<times> kmem) kres) \<Rightarrow> ('b fsys_scheme, 'a) kop" where
  "on_km f s = kbind (f (km s)) (\<lambda>(r, m). Ret (r, s\<lparr>km := m\<rparr>))"

text \<open>\<open>either_copyout\<close>, \<open>either_copyin\<close> of \<open>proc.c\<close>, for the page table of the running process.\<close>

definition either_copyout :: "bool \<Rightarrow> u64 \<Rightarrow> u8 list \<Rightarrow> ('a fsys_scheme, int \<times> u8 list) kop" where
  "either_copyout user_dst dst src s =
     (if user_dst then kthen (on_km (copyout (curpt s) dst src)) (\<lambda>r. kret (r, [])) s
      else Ret ((0, src), s))"

definition either_copyin :: "bool \<Rightarrow> u64 \<Rightarrow> u8 list \<Rightarrow> nat \<Rightarrow> ('a fsys_scheme, int \<times> u8 list) kop" where
  "either_copyin user_src src ksrc len s =
     (if user_src then kbind (copyin (curpt s) src len (km s)) (\<lambda>r. Ret (r, s))
      else Ret ((0, take len ksrc), s))"

definition io_chunk :: "nat \<Rightarrow> nat \<Rightarrow> nat" where
  "io_chunk left off = min left (BSIZE - off mod BSIZE)"

lemma io_chunk_pos: "0 < left \<Longrightarrow> 0 < io_chunk left off"
  by (simp add: io_chunk_def BSIZE_def)

text \<open>
  \<open>readi\<close>: the result is the number of bytes read, or -1, and the bytes stored in a kernel
  buffer. The loop runs with \<open>tot\<close> bytes done and \<open>left\<close> bytes to go.
\<close>

function (sequential) readi_loop :: "nat \<Rightarrow> bool \<Rightarrow> u64 \<Rightarrow> nat \<Rightarrow> nat \<Rightarrow> nat \<Rightarrow> ('a fsys_scheme, int \<times> u8 list) kop" where
  "readi_loop ip user_dst dst off tot left s =
     (if left = 0 then Ret ((int tot, []), s)
      else kthen (bmap ip (off div BSIZE)) (\<lambda>addr s1.
        if addr = 0 then Ret ((int tot, []), s1)
        else kthen (bread (idev (inodes s1 ip)) addr) (\<lambda>bp s2.
          let m = io_chunk left off
          in kthen (either_copyout user_dst dst (take m (drop (off mod BSIZE) (bdata (bufs s2 bp))))) (\<lambda>r s3.
               case r of (ret, bs) \<Rightarrow>
               if ret = - 1 then kthen (brelse bp) (\<lambda>_. kret (- 1, [])) s3
               else kthen (brelse bp) (\<lambda>_. kthen (readi_loop ip user_dst (dst + of_nat m) (off + m) (tot + m) (left - m))
                      (\<lambda>(n, bs'). kret (n, bs @ bs'))) s3) s2) s1) s)"
  by pat_completeness auto
termination
  by (relation "measure (\<lambda>(ip, user_dst, dst, off, tot, left, s). left)") (auto simp: io_chunk_pos)

definition readi :: "nat \<Rightarrow> bool \<Rightarrow> u64 \<Rightarrow> u32 \<Rightarrow> u32 \<Rightarrow> ('a fsys_scheme, int \<times> u8 list) kop" where
  "readi ip user_dst dst off n s =
     (let sz = isize (inodes s ip)
      in if off > sz \<or> off + n < off then Ret ((0, []), s)
         else readi_loop ip user_dst dst (unat off) 0 (unat (if off + n > sz then sz - off else n)) s)"

text \<open>\<open>writei\<close>: the loop returns the bytes written and the final offset.\<close>

function (sequential) writei_loop :: "nat \<Rightarrow> bool \<Rightarrow> u64 \<Rightarrow> u8 list \<Rightarrow> nat \<Rightarrow> nat \<Rightarrow> nat \<Rightarrow> ('a fsys_scheme, nat \<times> nat) kop" where
  "writei_loop ip user_src src ksrc off tot left s =
     (if left = 0 then Ret ((tot, off), s)
      else kthen (bmap ip (off div BSIZE)) (\<lambda>addr s1.
        if addr = 0 then Ret ((tot, off), s1)
        else kthen (bread (idev (inodes s1 ip)) addr) (\<lambda>bp s2.
          let m = io_chunk left off
          in kthen (either_copyin user_src src ksrc m) (\<lambda>r s3.
               case r of (ret, bs) \<Rightarrow>
               let s4 = set_data bp (splice (bdata (bufs s3 bp)) (off mod BSIZE) bs) s3
               in if ret = - 1 then kthen (brelse bp) (\<lambda>_. kret (tot, off)) s4
                  else kthen (log_write bp) (\<lambda>_. kthen (brelse bp) (\<lambda>_.
                       writei_loop ip user_src (src + of_nat m) (drop m ksrc) (off + m) (tot + m) (left - m))) s4) s2) s1) s)"
  by pat_completeness auto
termination
  by (relation "measure (\<lambda>(ip, user_src, src, ksrc, off, tot, left, s). left)") (auto simp: io_chunk_pos)

definition writei :: "nat \<Rightarrow> bool \<Rightarrow> u64 \<Rightarrow> u8 list \<Rightarrow> u32 \<Rightarrow> u32 \<Rightarrow> ('a fsys_scheme, int) kop" where
  "writei ip user_src src ksrc off n s =
     (if off > isize (inodes s ip) \<or> off + n < off then Ret (- 1, s)
      else if unat (off + n) > MAXFILE * BSIZE then Ret (- 1, s)
      else kthen (writei_loop ip user_src src ksrc (unat off) 0 (unat n)) (\<lambda>(tot, off').
             kthen (kmod (set_inode ip (\<lambda>i. if of_nat off' > isize i then i\<lparr>isize := of_nat off'\<rparr> else i))) (\<lambda>_.
             kthen (iupdate ip) (\<lambda>_. kret (int tot)))) s)"

declare readi_loop.simps [simp del] writei_loop.simps [simp del]

section \<open>Directories\<close>

definition str_byte :: "u8 list \<Rightarrow> nat \<Rightarrow> u8" where
  "str_byte bs i = (if i < length bs then bs ! i else 0)"

text \<open>Two strings laid out in memory, for the comparison by \<open>strncmp\<close>.\<close>

definition two_strings :: "u8 list \<Rightarrow> u8 list \<Rightarrow> bytemem" where
  "two_strings s t = (\<lambda>a. if unat a < 4096 then str_byte s (unat a) else str_byte t (unat a - 4096))"

definition namecmp :: "u8 list \<Rightarrow> u8 list \<Rightarrow> int" where
  "namecmp s t = strncmp (two_strings s t) 0 4096 (of_nat DIRSIZ)"

definition DIRENT :: u32 where "DIRENT = 16"

definition dir_offs :: "u32 \<Rightarrow> u32 list" where
  "dir_offs sz = map (\<lambda>k. of_nat (16 * k)) [0..<(unat sz + 15) div 16]"

fun dirlookup_scan :: "nat \<Rightarrow> u8 list \<Rightarrow> u32 list \<Rightarrow> ('a fsys_scheme, (nat \<times> u32) option) kop" where
  "dirlookup_scan dp name [] s = Ret (None, s)"
| "dirlookup_scan dp name (off # offs) s =
     kthen (readi dp False 0 off DIRENT) (\<lambda>(n, de).
       if n \<noteq> 16 then kpanic ''dirlookup read''
       else if get16 de 0 = 0 then dirlookup_scan dp name offs
       else if namecmp name (drop 2 de) = 0
       then kthen (kget (\<lambda>s. idev (inodes s dp))) (\<lambda>dev.
            kthen (iget dev (ucast (get16 de 0))) (\<lambda>i. kret (Some (i, off))))
       else dirlookup_scan dp name offs) s"

definition dirlookup :: "nat \<Rightarrow> u8 list \<Rightarrow> ('a fsys_scheme, (nat \<times> u32) option) kop" where
  "dirlookup dp name s =
     (if itype (inodes s dp) \<noteq> T_DIR then Panic ''dirlookup not DIR''
      else dirlookup_scan dp name (dir_offs (isize (inodes s dp))) s)"

text \<open>The offset of the first empty entry, or the size of the directory rounded up to entries.\<close>

fun dirlink_scan :: "nat \<Rightarrow> u32 list \<Rightarrow> u32 \<Rightarrow> ('a fsys_scheme, u32) kop" where
  "dirlink_scan dp [] end s = Ret (end, s)"
| "dirlink_scan dp (off # offs) end s =
     kthen (readi dp False 0 off DIRENT) (\<lambda>(n, de).
       if n \<noteq> 16 then kpanic ''dirlink read''
       else if get16 de 0 = 0 then kret off else dirlink_scan dp offs end) s"

text \<open>\<open>strncpy(de.name, name, DIRSIZ)\<close> on a 14-byte field.\<close>

definition dirent_bytes :: "u8 list \<Rightarrow> u16 \<Rightarrow> u8 list" where
  "dirent_bytes name ino = put16 (replicate 2 0) 0 ino @ map (str_byte name) [0..<DIRSIZ]"

definition dirlink :: "nat \<Rightarrow> u8 list \<Rightarrow> u32 \<Rightarrow> ('a fsys_scheme, int) kop" where
  "dirlink dp name ino =
     kthen (dirlookup dp name) (\<lambda>r. case r of
       Some (ip, _) \<Rightarrow> kthen (iput ip) (\<lambda>_. kret (- 1))
     | None \<Rightarrow>
         kthen (kget (\<lambda>s. isize (inodes s dp))) (\<lambda>sz.
         kthen (dirlink_scan dp (dir_offs sz) (of_nat (16 * ((unat sz + 15) div 16)))) (\<lambda>off.
         kthen (writei dp False 0 (dirent_bytes name (ucast ino)) off DIRENT) (\<lambda>n.
         kret (if n \<noteq> 16 then - 1 else 0)))))"

section \<open>Paths\<close>

abbreviation slash :: u8 where "slash \<equiv> 47"

definition skipelem :: "u8 list \<Rightarrow> (u8 list \<times> u8 list) option" where
  "skipelem path =
     (let p = dropWhile (\<lambda>c. c = slash) path
      in if p = [] then None
         else Some (take DIRSIZ (takeWhile (\<lambda>c. c \<noteq> slash) p),
                    dropWhile (\<lambda>c. c = slash) (dropWhile (\<lambda>c. c \<noteq> slash) p)))"

lemma skipelem_length: "skipelem path = Some (name, rest) \<Longrightarrow> length rest < length path"
proof -
  assume "skipelem path = Some (name, rest)"
  then have ne: "dropWhile (\<lambda>c. c = slash) path \<noteq> []"
    and rest: "rest = dropWhile (\<lambda>c. c = slash) (dropWhile (\<lambda>c. c \<noteq> slash) (dropWhile (\<lambda>c. c = slash) path))"
    by (auto simp: skipelem_def Let_def split: if_splits)
  obtain c cs where p: "dropWhile (\<lambda>c. c = slash) path = c # cs" using ne by (cases "dropWhile (\<lambda>c. c = slash) path") auto
  have "c \<noteq> slash" using hd_dropWhile [OF ne] p by simp
  then have "length rest \<le> length cs"
    unfolding rest p by (simp add: length_dropWhile_le order_trans [OF length_dropWhile_le])
  moreover have "length (c # cs) \<le> length path" using p by (metis length_dropWhile_le)
  ultimately show ?thesis by simp
qed

function (sequential) namex_loop :: "u8 list \<Rightarrow> bool \<Rightarrow> nat \<Rightarrow> ('a fsys_scheme, (nat \<times> u8 list) option) kop" where
  "namex_loop path parent ip s =
     (case skipelem path of
        None \<Rightarrow> if parent then kthen (iput ip) (\<lambda>_. kret None) s else Ret (Some (ip, []), s)
      | Some (name, rest) \<Rightarrow>
          kthen (ilock ip) (\<lambda>_ s1.
            if itype (inodes s1 ip) \<noteq> T_DIR then kthen (iunlockput ip) (\<lambda>_. kret None) s1
            else if parent \<and> rest = [] then kthen (iunlock ip) (\<lambda>_. kret (Some (ip, name))) s1
            else kthen (dirlookup ip name) (\<lambda>r s2. case r of
                   None \<Rightarrow> kthen (iunlockput ip) (\<lambda>_. kret None) s2
                 | Some (nxt, _) \<Rightarrow> kthen (iunlockput ip) (\<lambda>_. namex_loop rest parent nxt) s2) s1) s)"
  by pat_completeness auto
termination
  by (relation "measure (\<lambda>(path, parent, ip, s). length path)") (auto dest: skipelem_length)

declare namex_loop.simps [simp del]

text \<open>\<open>cwd\<close> is the current directory of the running process.\<close>

definition namex :: "nat \<Rightarrow> u8 list \<Rightarrow> bool \<Rightarrow> ('a fsys_scheme, (nat \<times> u8 list) option) kop" where
  "namex cwd path parent =
     (if path \<noteq> [] \<and> hd path = slash then kthen (iget ROOTDEV ROOTINO) (namex_loop path parent)
      else kthen (kmod (idup cwd)) (\<lambda>_. namex_loop path parent cwd))"

definition namei :: "nat \<Rightarrow> u8 list \<Rightarrow> ('a fsys_scheme, nat option) kop" where
  "namei cwd path = kthen (namex cwd path False) (\<lambda>r. kret (map_option fst r))"

definition nameiparent :: "nat \<Rightarrow> u8 list \<Rightarrow> ('a fsys_scheme, (nat \<times> u8 list) option) kop" where
  "nameiparent cwd path = namex cwd path True"

end
