(* ===== verification/Proc.thy ===== *)
theory Proc
  imports Fs
begin

text \<open>
  \<open>kernel/proc.c\<close> and \<open>kernel/proc.h\<close>: the process table and the operations on it, with their
  spin locks. A process pointer is its index in \<open>proc\<close>. The switch of stacks in \<open>swtch\<close> splits
  \<open>sched\<close> and the operations that sleep into a part before the switch, which leaves the hart
  to the scheduler, and a part that runs when the process is scheduled again. Signed overflow
  is undefined in the source, so \<open>int\<close> counters are unbounded here.
\<close>

section \<open>State\<close>

datatype procstate = UNUSED | USED | SLEEPING | RUNNABLE | RUNNING | ZOMBIE

text \<open>A saved context starts at \<open>forkret\<close> on the given stack, or resumes inside \<open>sched\<close>.\<close>

datatype kcontext = CtxNone | CtxForkret u64 | CtxSched

datatype tfreg =
    KernelSatp | KernelSp | KernelTrap | Epc | KernelHartid | Ra | Sp | Gp | Tp | T0 | T1 | T2
  | S0 | S1 | A0 | A1 | A2 | A3 | A4 | A5 | A6 | A7 | S2 | S3 | S4 | S5 | S6 | S7 | S8 | S9 | S10
  | S11 | T3 | T4 | T5 | T6

primrec tf_off :: "tfreg \<Rightarrow> u64" where
  "tf_off KernelSatp = 0" | "tf_off KernelSp = 8" | "tf_off KernelTrap = 16" | "tf_off Epc = 24"
| "tf_off KernelHartid = 32" | "tf_off Ra = 40" | "tf_off Sp = 48" | "tf_off Gp = 56"
| "tf_off Tp = 64" | "tf_off T0 = 72" | "tf_off T1 = 80" | "tf_off T2 = 88"
| "tf_off S0 = 96" | "tf_off S1 = 104" | "tf_off A0 = 112" | "tf_off A1 = 120"
| "tf_off A2 = 128" | "tf_off A3 = 136" | "tf_off A4 = 144" | "tf_off A5 = 152"
| "tf_off A6 = 160" | "tf_off A7 = 168" | "tf_off S2 = 176" | "tf_off S3 = 184"
| "tf_off S4 = 192" | "tf_off S5 = 200" | "tf_off S6 = 208" | "tf_off S7 = 216"
| "tf_off S8 = 224" | "tf_off S9 = 232" | "tf_off S10 = 240" | "tf_off S11 = 248"
| "tf_off T3 = 256" | "tf_off T4 = 264" | "tf_off T5 = 272" | "tf_off T6 = 280"

definition TRAPFRAME_SIZE :: nat where "TRAPFRAME_SIZE = 288"

text \<open>\<open>kintena\<close> is the local variable of \<open>sched\<close> on the stack of a process that has switched away.\<close>

record proc =
  pstate :: procstate
  pchan :: "chan option"
  pkilled :: bool
  xstate :: int
  pid :: int
  parent :: "nat option"
  kstack :: u64
  sz :: u64
  pagetable :: addr
  trapframe :: addr
  pcontext :: kcontext
  ofile :: "nat option list"
  cwd :: "nat option"
  pname :: "u8 list"
  priority :: int
  ctime :: u32
  stime :: int
  retime :: int
  rutime :: int
  tickets :: int
  kintena :: bool

text \<open>The scheduling policy is chosen when the kernel is compiled.\<close>

datatype policy = NOPOLICY | DEFAULT | PRIORITY | FCFS | LOTTERY | SML

record rng =
  z1 :: u32
  z2 :: u32
  z3 :: u32
  z4 :: u32

text \<open>\<open>trampoline\<close> is the symbol placed by the linker; \<open>first\<close> is the static variable of \<open>forkret\<close>.\<close>

record ptable = fsys +
  procs :: "nat \<Rightarrow> proc"
  initproc :: "nat option"
  nextpid :: int
  ticks :: u32
  rng :: rng
  policy :: policy
  trampoline :: addr
  first :: bool

text \<open>An operation that may sleep is finished, or asleep with a loop counter to resume from.\<close>

datatype 'a sleepy = Done 'a | Asleep nat

definition set_proc :: "nat \<Rightarrow> (proc \<Rightarrow> proc) \<Rightarrow> 'a ptable_scheme \<Rightarrow> 'a ptable_scheme" where
  "set_proc p f s = s\<lparr>procs := (procs s)(p := f (procs s p))\<rparr>"

definition km_do :: "(kmem \<Rightarrow> kmem kres) \<Rightarrow> ('a fsys_scheme, unit) kop" where
  "km_do f s = kbind (f (km s)) (\<lambda>m. Ret ((), s\<lparr>km := m\<rparr>))"

definition km_fn :: "(kmem \<Rightarrow> 'b \<times> kmem) \<Rightarrow> ('a fsys_scheme, 'b) kop" where
  "km_fn f = on_km (\<lambda>m. Ret (f m))"

definition tf_get :: "nat \<Rightarrow> tfreg \<Rightarrow> 'a ptable_scheme \<Rightarrow> u64" where
  "tf_get p r s = load64 (phys (km s)) (trapframe (procs s p) + tf_off r)"

definition tf_set :: "nat \<Rightarrow> tfreg \<Rightarrow> u64 \<Rightarrow> 'a ptable_scheme \<Rightarrow> 'a ptable_scheme" where
  "tf_set p r v s = s\<lparr>km := (km s)\<lparr>phys := store64 (phys (km s)) (trapframe (procs s p) + tf_off r) v\<rparr>\<rparr>"

definition int_bytes :: "int \<Rightarrow> u8 list" where
  "int_bytes x = put32 (replicate 4 0) 0 (of_int x)"

section \<open>The process table\<close>

definition procinit :: "'a ptable_scheme \<Rightarrow> 'a ptable_scheme" where
  "procinit s =
     fold (\<lambda>p s. set_proc p (\<lambda>q. q\<lparr>pstate := UNUSED, kstack := KSTACK (of_nat p)\<rparr>) (initlock (LProc p) s))
       [0..<NPROC] (initlock LWait (initlock LPid s))"

definition allocpid :: "('a ptable_scheme, int) kop" where
  "allocpid =
     kthen (acquire LPid) (\<lambda>_. kthen (kget nextpid) (\<lambda>n.
     kthen (kmod (\<lambda>s. s\<lparr>nextpid := nextpid s + 1\<rparr>)) (\<lambda>_. kthen (release LPid) (\<lambda>_. kret n))))"

definition proc_pagetable :: "nat \<Rightarrow> ('a ptable_scheme, addr) kop" where
  "proc_pagetable p =
     kthen (km_fn uvmcreate) (\<lambda>pt.
       if pt = 0 then kret 0
       else kthen (kget trampoline) (\<lambda>tr. kthen (on_km (mappages pt TRAMPOLINE PGSIZE tr (PTE_R OR PTE_X))) (\<lambda>r.
         if r < 0 then kthen (km_do (uvmfree pt 0)) (\<lambda>_. kret 0)
         else kthen (kget (\<lambda>s. trapframe (procs s p))) (\<lambda>tf.
              kthen (on_km (mappages pt TRAPFRAME PGSIZE tf (PTE_R OR PTE_W))) (\<lambda>r.
                if r < 0
                then kthen (km_do (uvmunmap pt TRAMPOLINE 1 False)) (\<lambda>_.
                     kthen (km_do (uvmfree pt 0)) (\<lambda>_. kret 0))
                else kret pt)))))"

definition proc_freepagetable :: "addr \<Rightarrow> u64 \<Rightarrow> ('a ptable_scheme, unit) kop" where
  "proc_freepagetable pt n =
     kthen (km_do (uvmunmap pt TRAMPOLINE 1 False)) (\<lambda>_.
     kthen (km_do (uvmunmap pt TRAPFRAME 1 False)) (\<lambda>_. km_do (uvmfree pt n)))"

definition freeproc :: "nat \<Rightarrow> ('a ptable_scheme, unit) kop" where
  "freeproc p s =
     (let q = procs s p
      in kthen (kwhen (trapframe q \<noteq> 0) (km_do (kfree (trapframe q)))) (\<lambda>_.
         kthen (kmod (set_proc p (\<lambda>q. q\<lparr>trapframe := 0\<rparr>))) (\<lambda>_.
         kthen (kwhen (pagetable q \<noteq> 0) (proc_freepagetable (pagetable q) (sz q))) (\<lambda>_.
         kmod (set_proc p (\<lambda>q. q\<lparr>pagetable := 0, sz := 0, pid := 0, parent := None,
           pname := (pname q)[0 := 0], pchan := None, pkilled := False, xstate := 0, pstate := UNUSED\<rparr>))))) s)"

fun find_unused :: "nat list \<Rightarrow> ('a ptable_scheme, nat option) kop" where
  "find_unused [] = kret None"
| "find_unused (p # ps) =
     kthen (acquire (LProc p)) (\<lambda>_. kthen (kget (\<lambda>s. pstate (procs s p))) (\<lambda>st.
       if st = UNUSED then kret (Some p) else kthen (release (LProc p)) (\<lambda>_. find_unused ps)))"

definition DEFAULT_TICKETS :: int where "DEFAULT_TICKETS = 1"

definition sched_fields :: "'a ptable_scheme \<Rightarrow> proc \<Rightarrow> proc" where
  "sched_fields s q =
     (case policy s of PRIORITY \<Rightarrow> q\<lparr>priority := 10\<rparr> | SML \<Rightarrow> q\<lparr>priority := 2\<rparr> | _ \<Rightarrow> q)
       \<lparr>ctime := ticks s, retime := 0, rutime := 0, stime := 0, tickets := DEFAULT_TICKETS\<rparr>"

definition allocproc_fail :: "nat \<Rightarrow> ('a ptable_scheme, nat option) kop" where
  "allocproc_fail p = kthen (freeproc p) (\<lambda>_. kthen (release (LProc p)) (\<lambda>_. kret None))"

definition allocproc :: "('a ptable_scheme, nat option) kop" where
  "allocproc =
     kthen (find_unused [0..<NPROC]) (\<lambda>r. case r of None \<Rightarrow> kret None
     | Some p \<Rightarrow>
         kthen allocpid (\<lambda>n.
         kthen (kmod (\<lambda>s. set_proc p (\<lambda>q. sched_fields s (q\<lparr>pid := n, pstate := USED\<rparr>)) s)) (\<lambda>_.
         kthen (km_fn kalloc) (\<lambda>tf. kthen (kmod (set_proc p (\<lambda>q. q\<lparr>trapframe := tf\<rparr>))) (\<lambda>_.
           if tf = 0 then allocproc_fail p
           else kthen (proc_pagetable p) (\<lambda>pt. kthen (kmod (set_proc p (\<lambda>q. q\<lparr>pagetable := pt\<rparr>))) (\<lambda>_.
             if pt = 0 then allocproc_fail p
             else kthen (kmod (set_proc p (\<lambda>q. q\<lparr>pcontext := CtxForkret (kstack q + PGSIZE)\<rparr>))) (\<lambda>_.
                  kret (Some p)))))))))"

definition growproc :: "int \<Rightarrow> ('a ptable_scheme, int) kop" where
  "growproc n =
     kthen curproc (\<lambda>p s.
       let q = procs s p; old = sz q
       in if n > 0
          then let sz' = uvmalloc (pagetable q) old (old + of_int n) PTE_W
               in if sz' = 0 then Ret (- 1, s) else Ret (0, set_proc p (\<lambda>q. q\<lparr>sz := sz'\<rparr>) s)
          else if n < 0
          then kthen (on_km (uvmdealloc (pagetable q) old (old + of_int n))) (\<lambda>sz'.
                 kthen (kmod (set_proc p (\<lambda>q. q\<lparr>sz := sz'\<rparr>))) (\<lambda>_. kret 0)) s
          else Ret (0, set_proc p (\<lambda>q. q\<lparr>sz := old\<rparr>) s))"

section \<open>Switching, sleeping and waking up\<close>

definition sched :: "('a ptable_scheme, unit) kop" where
  "sched =
     kthen curproc (\<lambda>p s.
       if \<not> holding (LProc p) s then Panic ''sched p->lock''
       else if noff (mycpu s) \<noteq> 1 then Panic ''sched locks''
       else if pstate (procs s p) = RUNNING then Panic ''sched running''
       else if intr_get s then Panic ''sched interruptible''
       else Ret ((), set_proc p (\<lambda>q. q\<lparr>kintena := intena (mycpu s), pcontext := CtxSched\<rparr>) s))"

definition sched_resume :: "nat \<Rightarrow> 'a ptable_scheme \<Rightarrow> 'a ptable_scheme" where
  "sched_resume p s = set_cpu (\<lambda>c. c\<lparr>intena := kintena (procs s p)\<rparr>) s"

definition yield :: "('a ptable_scheme, unit) kop" where
  "yield =
     kthen curproc (\<lambda>p. kthen (acquire (LProc p)) (\<lambda>_.
     kthen (kmod (set_proc p (\<lambda>q. q\<lparr>pstate := RUNNABLE\<rparr>))) (\<lambda>_. sched)))"

definition yield_resume :: "nat \<Rightarrow> ('a ptable_scheme, unit) kop" where
  "yield_resume p = kthen (kmod (sched_resume p)) (\<lambda>_. release (LProc p))"

definition sleep :: "chan option \<Rightarrow> lockid \<Rightarrow> ('a ptable_scheme, unit) kop" where
  "sleep c lk =
     kthen curproc (\<lambda>p. kthen (acquire (LProc p)) (\<lambda>_. kthen (release lk) (\<lambda>_.
     kthen (kmod (set_proc p (\<lambda>q. q\<lparr>pchan := c, pstate := SLEEPING\<rparr>))) (\<lambda>_. sched))))"

definition sleep_resume :: "nat \<Rightarrow> lockid \<Rightarrow> ('a ptable_scheme, unit) kop" where
  "sleep_resume p lk =
     kthen (kmod (sched_resume p)) (\<lambda>_. kthen (kmod (set_proc p (\<lambda>q. q\<lparr>pchan := None\<rparr>))) (\<lambda>_.
     kthen (release (LProc p)) (\<lambda>_. acquire lk)))"

definition wakeup_one :: "chan option \<Rightarrow> nat \<Rightarrow> ('a ptable_scheme, unit) kop" where
  "wakeup_one c p =
     kthen myproc (\<lambda>me.
       if me = Some p then kret ()
       else kthen (acquire (LProc p)) (\<lambda>_.
            kthen (kmod (\<lambda>s. if pstate (procs s p) = SLEEPING \<and> pchan (procs s p) = c
                             then set_proc p (\<lambda>q. q\<lparr>pstate := RUNNABLE\<rparr>) s else s)) (\<lambda>_.
            release (LProc p))))"

text \<open>
  Waking up and sleeping change nothing beyond the processor and lock state and the scheduling state of
  processes.
\<close>

definition sched_only :: "proc \<Rightarrow> proc \<Rightarrow> bool" where
  "sched_only q r \<longleftrightarrow> r = q\<lparr>pstate := pstate r, pchan := pchan r, kintena := kintena r, pcontext := pcontext r\<rparr>"

lemma sched_only_trans: "sched_only q r \<Longrightarrow> sched_only r t \<Longrightarrow> sched_only q t"
  by (cases q; cases r; cases t) (simp add: sched_only_def)

lemma sched_only_refl [simp]: "sched_only q q"
  by (simp add: sched_only_def)

lemma sched_only_fields:
  assumes "sched_only q r"
  shows "pagetable r = pagetable q" "trapframe r = trapframe q" "sz r = sz q" "pid r = pid q" "pkilled r = pkilled q"
  using assms by (cases q; cases r; simp add: sched_only_def)+

definition procs_only :: "'a ptable_scheme \<Rightarrow> 'a ptable_scheme \<Rightarrow> bool" where
  "procs_only s s1 \<longleftrightarrow> s1 = s\<lparr>cpus := cpus s1, sie := sie s1, locks := locks s1, procs := procs s1\<rparr> \<and>
     (\<forall>h. cproc (cpus s1 h) = cproc (cpus s h)) \<and> (\<forall>p. sched_only (procs s p) (procs s1 p))"

lemma locks_frame_procs: "locks_only s s1 \<Longrightarrow> procs s1 = procs s" for s s1 :: "'a ptable_scheme"
  by (cases s; cases s1) (simp add: locks_only_def)

lemma locks_only_procs_only: "locks_only s s1 \<Longrightarrow> procs_only s s1"
  using locks_frame_procs [of s s1] by (cases s; cases s1) (simp add: locks_only_def procs_only_def)

lemma procs_only_trans: "procs_only s s1 \<Longrightarrow> procs_only s1 s2 \<Longrightarrow> procs_only s s2"
  unfolding procs_only_def
  by (rule conjI, cases s, cases s1, cases s2, simp) (auto intro: sched_only_trans)

lemma set_proc_procs_only: "sched_only (procs s p) (f (procs s p)) \<Longrightarrow> procs_only s (set_proc p f s)"
  by (cases s) (simp add: procs_only_def set_proc_def)

lemma procs_only_current: "procs_only s s1 \<Longrightarrow> cproc (mycpu s1) = cproc (mycpu s)"
  by (cases s; cases s1) (auto simp: procs_only_def mycpu_def)

lemma procs_only_pagetable: "procs_only s s1 \<Longrightarrow> pagetable (procs s1 p) = pagetable (procs s p)"
  using sched_only_fields(1) [of "procs s p" "procs s1 p"] by (simp add: procs_only_def)

lemmas locks_procs_dests = locks_only_dests [THEN locks_only_procs_only]

lemma wakeup_one_procs_only:
  assumes "wakeup_one c p s = Ret ((), s1)"
  shows "procs_only s s1"
proof -
  obtain me s2 where me: "myproc s = Ret (me, s2)"
    and rest: "(if me = Some p then kret ()
       else kthen (acquire (LProc p)) (\<lambda>_.
            kthen (kmod (\<lambda>s. if pstate (procs s p) = SLEEPING \<and> pchan (procs s p) = c
                             then set_proc p (\<lambda>q. q\<lparr>pstate := RUNNABLE\<rparr>) s else s)) (\<lambda>_.
            release (LProc p)))) s2 = Ret ((), s1)"
    using assms by (auto simp: wakeup_one_def kthen_Ret_iff)
  show ?thesis
  proof (cases "me = Some p")
    case True
    then show ?thesis using rest locks_procs_dests(3) [OF me] by (simp add: kret_def)
  next
    case False
    then obtain s3 where s3: "acquire (LProc p) s2 = Ret ((), s3)"
      and r: "release (LProc p) (if pstate (procs s3 p) = SLEEPING \<and> pchan (procs s3 p) = c
                then set_proc p (\<lambda>q. q\<lparr>pstate := RUNNABLE\<rparr>) s3 else s3) = Ret ((), s1)" (is "release _ ?s4 = _")
      using rest by (auto simp: kthen_Ret_iff kmod_def)
    have "procs_only s3 s3" by (simp add: procs_only_def)
    then have "procs_only s3 ?s4" using set_proc_procs_only [of s3 p "\<lambda>q. q\<lparr>pstate := RUNNABLE\<rparr>"]
      by (simp add: sched_only_def)
    then show ?thesis
      using locks_procs_dests(3) [OF me] locks_procs_dests(1) [OF s3] locks_procs_dests(2) [OF r] procs_only_trans by blast
  qed
qed

definition wakeup :: "chan option \<Rightarrow> ('a ptable_scheme, unit) kop" where
  "wakeup c = kfor [0..<NPROC] (wakeup_one c)"

lemma wakeup_procs_only: "wakeup c s = Ret (u, s1) \<Longrightarrow> procs_only s s1"
proof -
  have "kfor ps (wakeup_one c) s = Ret ((), s1) \<Longrightarrow> procs_only s s1" for ps
  proof (induction ps arbitrary: s)
    case Nil
    then show ?case by (auto simp: kret_def procs_only_def)
  next
    case (Cons p ps)
    then show ?case by (auto simp: kthen_Ret_iff dest!: wakeup_one_procs_only intro: procs_only_trans)
  qed
  then show "wakeup c s = Ret (u, s1) \<Longrightarrow> procs_only s s1" by (simp add: wakeup_def)
qed

lemma curproc_locks_only: "curproc s = Ret (p, s') \<Longrightarrow> locks_only s s'"
  unfolding curproc_def
  by (auto simp: kthen_Ret_iff kret_def kpanic_def split: option.splits dest: myproc_locks_only)

lemma sched_procs_only:
  assumes "sched s = Ret (u, s1)"
  shows "procs_only s s1"
proof -
  obtain p s2 where p: "curproc s = Ret (p, s2)"
    and s1: "s1 = set_proc p (\<lambda>q. q\<lparr>kintena := intena (mycpu s2), pcontext := CtxSched\<rparr>) s2"
    using assms by (auto simp: sched_def kthen_Ret_iff split: if_splits)
  have "procs_only s2 s1" unfolding s1 by (rule set_proc_procs_only) (simp add: sched_only_def)
  then show ?thesis using curproc_locks_only [OF p, THEN locks_only_procs_only] procs_only_trans by blast
qed

lemma sleep_procs_only:
  assumes "sleep c lk s = Ret (u, s1)"
  shows "procs_only s s1"
proof -
  obtain p s2 s3 s4 where p: "curproc s = Ret (p, s2)" and a: "acquire (LProc p) s2 = Ret ((), s3)"
    and r: "release lk s3 = Ret ((), s4)"
    and sc: "sched (set_proc p (\<lambda>q. q\<lparr>pchan := c, pstate := SLEEPING\<rparr>) s4) = Ret (u, s1)"
    using assms by (auto simp: sleep_def kthen_Ret_iff kmod_def)
  have "procs_only s4 (set_proc p (\<lambda>q. q\<lparr>pchan := c, pstate := SLEEPING\<rparr>) s4)"
    by (rule set_proc_procs_only) (simp add: sched_only_def)
  then show ?thesis
    using curproc_locks_only [OF p, THEN locks_only_procs_only] locks_procs_dests(1) [OF a]
      locks_procs_dests(2) [OF r] sched_procs_only [OF sc] procs_only_trans by blast
qed

text \<open>
  A call of the file-system layers by the running process: they see its identifier and page
  table, and the channels they woke are woken up in the process table.
\<close>

definition fs_call :: "('a ptable_scheme, 'b) kop \<Rightarrow> ('a ptable_scheme, 'b) kop" where
  "fs_call op =
     kthen (kmod (\<lambda>s. case cproc (mycpu s) of
       Some p \<Rightarrow> s\<lparr>curpid := pid (procs s p), curpt := pagetable (procs s p), woken := []\<rparr>
     | None \<Rightarrow> s\<lparr>curpid := 0, curpt := 0, woken := []\<rparr>)) (\<lambda>_.
     kthen op (\<lambda>r. kthen (kget woken) (\<lambda>cs. kthen (kfor cs (\<lambda>c. wakeup (Some c))) (\<lambda>_. kret r))))"

section \<open>Killing\<close>

fun kill_scan :: "int \<Rightarrow> nat list \<Rightarrow> ('a ptable_scheme, int) kop" where
  "kill_scan n [] = kret (- 1)"
| "kill_scan n (p # ps) =
     kthen (acquire (LProc p)) (\<lambda>_. kthen (kget (\<lambda>s. procs s p)) (\<lambda>q.
       if pid q = n
       then kthen (kmod (set_proc p (\<lambda>q. q\<lparr>pkilled := True,
                    pstate := (if pstate q = SLEEPING then RUNNABLE else pstate q)\<rparr>))) (\<lambda>_.
            kthen (release (LProc p)) (\<lambda>_. kret 0))
       else kthen (release (LProc p)) (\<lambda>_. kill_scan n ps)))"

definition kill :: "int \<Rightarrow> ('a ptable_scheme, int) kop" where
  "kill n = kill_scan n [0..<NPROC]"

definition setkilled :: "nat \<Rightarrow> ('a ptable_scheme, unit) kop" where
  "setkilled p =
     kthen (acquire (LProc p)) (\<lambda>_. kthen (kmod (set_proc p (\<lambda>q. q\<lparr>pkilled := True\<rparr>))) (\<lambda>_.
     release (LProc p)))"

definition killed :: "nat \<Rightarrow> ('a ptable_scheme, bool) kop" where
  "killed p =
     kthen (acquire (LProc p)) (\<lambda>_. kthen (kget (\<lambda>s. pkilled (procs s p))) (\<lambda>k.
     kthen (release (LProc p)) (\<lambda>_. kret k)))"

lemma killed_locks_only: "killed p s = Ret (k, s') \<Longrightarrow> locks_only s s'"
  unfolding killed_def
  by (auto simp: kthen_Ret_iff kget_def kret_def dest!: locks_only_dests intro: locks_only_trans)

text \<open>The byte a process has at a user address.\<close>

definition user_byte :: "addr \<Rightarrow> u64 \<Rightarrow> kmem \<Rightarrow> u8" where
  "user_byte pt a m = (case copyin pt a 1 m of Ret (r, bs) \<Rightarrow> hd bs | _ \<Rightarrow> 0)"

section \<open>Waiting for children\<close>

definition reparent_one :: "nat \<Rightarrow> nat \<Rightarrow> ('a ptable_scheme, unit) kop" where
  "reparent_one p pp s =
     (if parent (procs s pp) = Some p
      then kthen (kmod (\<lambda>s. set_proc pp (\<lambda>q. q\<lparr>parent := initproc s\<rparr>) s)) (\<lambda>_.
           kthen (kget initproc) (\<lambda>i. wakeup (map_option ChanProc i))) s
      else Ret ((), s))"

definition reparent :: "nat \<Rightarrow> ('a ptable_scheme, unit) kop" where
  "reparent p = kfor [0..<NPROC] (reparent_one p)"

text \<open>The values copied out for a found child, in order; a null address skips one.\<close>

fun copy_fields :: "addr \<Rightarrow> (u64 \<times> int) list \<Rightarrow> ('a ptable_scheme, bool) kop" where
  "copy_fields pt [] = kret True"
| "copy_fields pt ((a, v) # fs) =
     (if a = 0 then copy_fields pt fs
      else kthen (on_km (copyout pt a (int_bytes v))) (\<lambda>r. if r < 0 then kret False else copy_fields pt fs))"

text \<open>One scan of the table: a result to return, or whether there are children.\<close>

fun wait_scan :: "(proc \<Rightarrow> (u64 \<times> int) list) \<Rightarrow> nat \<Rightarrow> nat list \<Rightarrow> bool \<Rightarrow> ('a ptable_scheme, int + bool) kop" where
  "wait_scan outs p [] havekids = kret (Inr havekids)"
| "wait_scan outs p (pp # pps) havekids =
     kthen (kget (\<lambda>s. parent (procs s pp))) (\<lambda>par.
       if par \<noteq> Some p then wait_scan outs p pps havekids
       else kthen (acquire (LProc pp)) (\<lambda>_. kthen (kget (\<lambda>s. procs s pp)) (\<lambda>q.
         if pstate q = ZOMBIE
         then kthen (kget (\<lambda>s. pagetable (procs s p))) (\<lambda>pt. kthen (copy_fields pt (outs q)) (\<lambda>ok.
                if \<not> ok
                then kthen (release (LProc pp)) (\<lambda>_. kthen (release LWait) (\<lambda>_. kret (Inl (- 1))))
                else kthen (freeproc pp) (\<lambda>_. kthen (release (LProc pp)) (\<lambda>_.
                     kthen (release LWait) (\<lambda>_. kret (Inl (pid q)))))))
         else kthen (release (LProc pp)) (\<lambda>_. wait_scan outs p pps True))))"

definition wait_iter :: "(proc \<Rightarrow> (u64 \<times> int) list) \<Rightarrow> nat \<Rightarrow> ('a ptable_scheme, int sleepy) kop" where
  "wait_iter outs p =
     kthen (wait_scan outs p [0..<NPROC] False) (\<lambda>r. case r of Inl n \<Rightarrow> kret (Done n)
     | Inr havekids \<Rightarrow>
         kthen (if havekids then killed p else kret True) (\<lambda>stop.
           if stop then kthen (release LWait) (\<lambda>_. kret (Done (- 1)))
           else kthen (sleep (Some (ChanProc p)) LWait) (\<lambda>_. kret (Asleep 0))))"

definition wait_fields :: "u64 \<Rightarrow> proc \<Rightarrow> (u64 \<times> int) list" where
  "wait_fields a q = [(a, xstate q)]"

definition wait :: "u64 \<Rightarrow> ('a ptable_scheme, int sleepy) kop" where
  "wait a = kthen curproc (\<lambda>p. kthen (acquire LWait) (\<lambda>_. wait_iter (wait_fields a) p))"

definition wait_resume :: "u64 \<Rightarrow> nat \<Rightarrow> ('a ptable_scheme, int sleepy) kop" where
  "wait_resume a p = kthen (sleep_resume p LWait) (\<lambda>_. wait_iter (wait_fields a) p)"

definition wait2_fields :: "u64 \<Rightarrow> u64 \<Rightarrow> u64 \<Rightarrow> proc \<Rightarrow> (u64 \<times> int) list" where
  "wait2_fields re ru st q = [(re, retime q), (ru, rutime q), (st, stime q)]"

definition wait2 :: "u64 \<Rightarrow> u64 \<Rightarrow> u64 \<Rightarrow> ('a ptable_scheme, int sleepy) kop" where
  "wait2 re ru st = kthen curproc (\<lambda>p. kthen (acquire LWait) (\<lambda>_. wait_iter (wait2_fields re ru st) p))"

definition wait2_resume :: "u64 \<Rightarrow> u64 \<Rightarrow> u64 \<Rightarrow> nat \<Rightarrow> ('a ptable_scheme, int sleepy) kop" where
  "wait2_resume re ru st p = kthen (sleep_resume p LWait) (\<lambda>_. wait_iter (wait2_fields re ru st) p)"

section \<open>Statistics and scheduling parameters\<close>

definition tick_proc :: "proc \<Rightarrow> proc" where
  "tick_proc q =
     (case pstate q of
        SLEEPING \<Rightarrow> q\<lparr>stime := stime q + 1\<rparr>
      | RUNNABLE \<Rightarrow> q\<lparr>retime := retime q + 1\<rparr>
      | RUNNING \<Rightarrow> q\<lparr>rutime := rutime q + 1\<rparr>
      | _ \<Rightarrow> q)"

definition updatestatistics :: "('a ptable_scheme, unit) kop" where
  "updatestatistics =
     kfor [0..<NPROC] (\<lambda>p. kthen (acquire (LProc p)) (\<lambda>_. kthen (kmod (set_proc p tick_proc)) (\<lambda>_.
       release (LProc p))))"

fun change_scan :: "int \<Rightarrow> (proc \<Rightarrow> proc) \<Rightarrow> nat list \<Rightarrow> ('a ptable_scheme, unit) kop" where
  "change_scan n f [] = kret ()"
| "change_scan n f (p # ps) =
     kthen (acquire (LProc p)) (\<lambda>_. kthen (kget (\<lambda>s. pid (procs s p))) (\<lambda>m.
       if m = n then kthen (kmod (set_proc p f)) (\<lambda>_. release (LProc p))
       else kthen (release (LProc p)) (\<lambda>_. change_scan n f ps)))"

definition chpr :: "int \<Rightarrow> int \<Rightarrow> ('a ptable_scheme, int) kop" where
  "chpr n v = kthen (change_scan n (\<lambda>q. q\<lparr>priority := v\<rparr>) [0..<NPROC]) (\<lambda>_. kret n)"

definition chtickets :: "int \<Rightarrow> int \<Rightarrow> ('a ptable_scheme, int) kop" where
  "chtickets n v = kthen (change_scan n (\<lambda>q. q\<lparr>tickets := v\<rparr>) [0..<NPROC]) (\<lambda>_. kret n)"

end
