(* ===== verification/Ring.thy ===== *)
theory Ring
  imports Prelude
begin

text \<open>
  Ring buffers: the kernel's pipes, its serial output and its console input all keep an array of
  \<open>N\<close> bytes with two running positions that are machine words, are never reduced modulo \<open>N\<close>
  and wrap around at their width. The interface is what the operations do to array and
  positions; the lemmas show that they implement a first-in, first-out queue.
\<close>

lemma mod_wrap:
  assumes "N dvd 2 ^ LENGTH('w::len)"
  shows "unat ((w :: 'w word) + of_nat k) mod N = (unat w + k) mod N"
proof -
  have "unat (w + of_nat k) = (unat w + k) mod 2 ^ LENGTH('w)"
    by (simp add: unat_word_ariths unat_of_nat mod_simps)
  then show ?thesis using assms by (simp add: mod_mod_cancel)
qed

lemma word_gap: "unat (w - r) = k \<Longrightarrow> w = r + of_nat k" for w r :: "'w::len word"
  by auto

lemma mod_apart: "k < c \<Longrightarrow> c < N \<Longrightarrow> (a + k) mod N \<noteq> (a + c) mod N" for a c k N :: nat
  using mod_eq_dvd_iff_nat [of "a + k" "a + c" N] by (auto dest: dvd_imp_le)

locale ring =
  fixes N :: nat
    and slots :: "'s \<Rightarrow> nat \<Rightarrow> 'e"
    and rpos wpos :: "'s \<Rightarrow> 'w::len word"
    and put :: "'e \<Rightarrow> 's \<Rightarrow> 's"
    and get :: "'s \<Rightarrow> 's"
  assumes N_pos: "0 < N" and N_dvd: "N dvd 2 ^ LENGTH('w)" and N_less: "N < 2 ^ LENGTH('w)"
    and put_slots: "slots (put e s) = (slots s)(unat (wpos s) mod N := e)"
    and put_wpos: "wpos (put e s) = wpos s + 1"
    and put_rpos: "rpos (put e s) = rpos s"
    and get_slots: "slots (get s) = slots s"
    and get_wpos: "wpos (get s) = wpos s"
    and get_rpos: "rpos (get s) = rpos s + 1"
begin

definition count :: "'s \<Rightarrow> nat" where
  "count s = unat (wpos s - rpos s)"

definition queue :: "'s \<Rightarrow> 'e list" where
  "queue s = map (\<lambda>k. slots s ((unat (rpos s) + k) mod N)) [0..<count s]"

definition ok :: "'s \<Rightarrow> bool" where
  "ok s \<longleftrightarrow> count s \<le> N"

lemma length_queue: "length (queue s) = count s"
  by (simp add: queue_def)

lemma queue_cong: "slots s = slots t \<Longrightarrow> rpos s = rpos t \<Longrightarrow> wpos s = wpos t \<Longrightarrow> queue s = queue t"
  by (simp add: queue_def count_def)

lemma empty_iff: "queue s = [] \<longleftrightarrow> rpos s = wpos s"
  by (auto simp: queue_def count_def unat_eq_zero)

lemma full_iff: "ok s \<Longrightarrow> wpos s = rpos s + of_nat N \<longleftrightarrow> length (queue s) = N"
  using N_less by (auto simp: length_queue count_def unat_of_nat dest: word_gap)

lemma count_put:
  assumes "ok s" "wpos s \<noteq> rpos s + of_nat N"
  shows "count (put e s) = Suc (count s)" "count s < N"
proof -
  have "count s \<noteq> N" using assms full_iff by (auto simp: length_queue)
  then show less: "count s < N" using assms(1) by (simp add: ok_def)
  have "wpos s = rpos s + of_nat (count s)" by (rule word_gap) (simp add: count_def)
  then have "wpos s + 1 - rpos s = of_nat (Suc (count s))" by simp
  then show "count (put e s) = Suc (count s)"
    using less N_less unfolding count_def put_wpos put_rpos by (simp add: unat_of_nat del: of_nat_Suc)
qed

lemma put_queue:
  assumes "ok s" "wpos s \<noteq> rpos s + of_nat N"
  shows "queue (put e s) = queue s @ [e]" "ok (put e s)"
proof -
  have c: "count (put e s) = Suc (count s)" "count s < N" using count_put [OF assms] by simp_all
  show "ok (put e s)" using c by (simp add: ok_def)
  have "wpos s = rpos s + of_nat (count s)" by (rule word_gap) (simp add: count_def)
  then have w: "unat (wpos s) mod N = (unat (rpos s) + count s) mod N"
    using mod_wrap [OF N_dvd] by metis
  have "(unat (rpos s) + k) mod N \<noteq> (unat (rpos s) + count s) mod N" if "k < count s" for k
    using mod_apart [OF that c(2)] .
  then show "queue (put e s) = queue s @ [e]"
    by (auto simp: queue_def c put_rpos put_slots w)
qed

lemma get_queue:
  assumes "rpos s \<noteq> wpos s"
  shows "queue s = slots s (unat (rpos s) mod N) # queue (get s)" "ok s \<Longrightarrow> ok (get s)"
proof -
  have pos: "0 < count s" using assms empty_iff by (metis length_queue length_greater_0_conv)
  have "wpos s = rpos s + of_nat (count s)" by (rule word_gap) (simp add: count_def)
  then have "wpos s - (rpos s + 1) = of_nat (count s - 1)" using pos by (cases "count s") auto
  moreover have "count s < 2 ^ LENGTH('w)" unfolding count_def by (rule unsigned_less)
  ultimately have "unat (wpos s - (rpos s + 1)) = count s - 1" by (simp add: unat_of_nat)
  then have c: "count (get s) = count s - 1" by (simp add: count_def get_wpos get_rpos)
  show "ok s \<Longrightarrow> ok (get s)" by (simp add: ok_def c)
  have m: "(unat (rpos s + 1) + k) mod N = (unat (rpos s) + Suc k) mod N" for k
    using mod_wrap [OF N_dvd, of "rpos s" 1] mod_add_left_eq [of "unat (rpos s + 1)" N k]
      mod_add_left_eq [of "unat (rpos s) + 1" N k] by simp
  have "[0..<count s] = 0 # map Suc [0..<count s - 1]"
    using pos by (simp add: upt_conv_Cons map_Suc_upt)
  then show "queue s = slots s (unat (rpos s) mod N) # queue (get s)"
    by (simp add: queue_def c get_slots get_rpos m del: upt_Suc)
qed

end

end
