(* ===== verification/Uart.thy ===== *)
theory Uart
  imports Proc Ring
begin

text \<open>
  \<open>kernel/uart.c\<close>: the serial driver. The device is seen through its registers: it accepts
  \<open>tx_space\<close> more bytes before \<open>LSR_TX_IDLE\<close> drops, \<open>tx_out\<close> are the bytes written to \<open>THR\<close>,
  \<open>rx\<close> the received bytes still to be read from \<open>RHR\<close>, and \<open>uart_regs\<close> the writes of \<open>uartinit\<close>.
\<close>

definition UART_TX_BUF_SIZE :: nat where "UART_TX_BUF_SIZE = 32"

record devices = ptable +
  uart_tx_buf :: "nat \<Rightarrow> u8"
  uart_tx_w :: u64
  uart_tx_r :: u64
  tx_space :: nat
  tx_out :: "u8 list"
  rx :: "u8 list"
  uart_regs :: "(nat \<times> u8) list"
  panicked :: bool
  pr_locking :: bool
  cons_buf :: "nat \<Rightarrow> u8"
  cons_r :: u32
  cons_w :: u32
  cons_e :: u32

definition IER :: nat where "IER = 1"
definition FCR :: nat where "FCR = 2"
definition LCR :: nat where "LCR = 3"

definition write_reg :: "nat \<Rightarrow> u8 \<Rightarrow> 'a devices_scheme \<Rightarrow> 'a devices_scheme" where
  "write_reg r v s = s\<lparr>uart_regs := uart_regs s @ [(r, v)]\<rparr>"

definition uartinit :: "'a devices_scheme \<Rightarrow> 'a devices_scheme" where
  "uartinit s =
     initlock LUart (write_reg IER (push_bit 1 1 OR push_bit 0 1) (write_reg FCR (push_bit 0 1 OR push_bit 1 3)
       (write_reg LCR (push_bit 0 3) (write_reg 1 0 (write_reg 0 3
       (write_reg LCR (push_bit 7 1) (write_reg IER 0 s)))))))"

definition write_THR :: "u8 \<Rightarrow> 'a devices_scheme \<Rightarrow> 'a devices_scheme" where
  "write_THR c s = s\<lparr>tx_out := tx_out s @ [c], tx_space := tx_space s - 1\<rparr>"

text \<open>The transmit buffer.\<close>

definition uart_push :: "u8 \<Rightarrow> 'a devices_scheme \<Rightarrow> 'a devices_scheme" where
  "uart_push c s = s\<lparr>uart_tx_buf := (uart_tx_buf s)(unat (uart_tx_w s) mod UART_TX_BUF_SIZE := c),
     uart_tx_w := uart_tx_w s + 1\<rparr>"

definition uart_pop :: "'a devices_scheme \<Rightarrow> 'a devices_scheme" where
  "uart_pop s = s\<lparr>uart_tx_r := uart_tx_r s + 1\<rparr>"

lemma wakeup_tx_space: "wakeup c (s :: 'a devices_scheme) = Ret (u, s1) \<Longrightarrow> tx_space s1 = tx_space s"
  by (drule wakeup_procs_only) (simp add: procs_only_def, cases s, cases s1, simp)

function uartstart :: "('a devices_scheme, unit) kop" where
  "uartstart s =
     (if uart_tx_w s = uart_tx_r s then Ret ((), s)
      else if tx_space s = 0 then Ret ((), s)
      else let c = uart_tx_buf s (unat (uart_tx_r s) mod UART_TX_BUF_SIZE)
           in kthen (wakeup (Some ChanUart)) (\<lambda>_ s1. uartstart (write_THR c s1))
                (uart_pop s))"
  by pat_completeness auto
termination
  by (relation "measure tx_space") (auto simp: write_THR_def uart_pop_def dest!: wakeup_tx_space)

declare uartstart.simps [simp del]

text \<open>With the lock held: store the character, or sleep until there is room.\<close>

definition uart_put :: "u8 \<Rightarrow> ('a devices_scheme, unit sleepy) kop" where
  "uart_put c s =
     (if uart_tx_w s = uart_tx_r s + of_nat UART_TX_BUF_SIZE
      then kthen (sleep (Some ChanUart) LUart) (\<lambda>_. kret (Asleep 0)) s
      else kthen uartstart (\<lambda>_. kthen (release LUart) (\<lambda>_. kret (Done ()))) (uart_push c s))"

definition uartputc :: "u8 \<Rightarrow> ('a devices_scheme, unit sleepy) kop" where
  "uartputc c = kthen (acquire LUart) (\<lambda>_ s. if panicked s then Diverge else uart_put c s)"

definition uartputc_resume :: "nat \<Rightarrow> u8 \<Rightarrow> ('a devices_scheme, unit sleepy) kop" where
  "uartputc_resume p c = kthen (sleep_resume p LUart) (\<lambda>_. uart_put c)"

text \<open>The polling loop of \<open>uartputc_sync\<close> waits for the device.\<close>

definition uartputc_sync :: "u8 \<Rightarrow> ('a devices_scheme, unit) kop" where
  "uartputc_sync c s =
     (let s1 = push_off s
      in if panicked s1 then Diverge
         else if tx_space s1 = 0 then Block ''uart'' else pop_off (write_THR c s1))"

definition uartgetc :: "'a devices_scheme \<Rightarrow> u8 option \<times> 'a devices_scheme" where
  "uartgetc s = (case rx s of [] \<Rightarrow> (None, s) | c # cs \<Rightarrow> (Some c, s\<lparr>rx := cs\<rparr>))"

section \<open>Transmission in order\<close>

interpretation uq: ring UART_TX_BUF_SIZE uart_tx_buf uart_tx_r uart_tx_w uart_push uart_pop
proof
  show "UART_TX_BUF_SIZE dvd 2 ^ LENGTH(64)" by (rule dvdI [of _ _ "2 ^ 59"]) (simp add: UART_TX_BUF_SIZE_def)
qed (simp_all add: UART_TX_BUF_SIZE_def uart_push_def uart_pop_def)

text \<open>Everything handed to the driver so far: what the device got, then what is still buffered.\<close>

definition sent :: "'a devices_scheme \<Rightarrow> u8 list" where
  "sent s = tx_out s @ uq.queue s"

lemma uart_frame:
  fixes s s' :: "'a devices_scheme"
  assumes "procs_only s s'"
  shows "uart_tx_buf s' = uart_tx_buf s" "uart_tx_r s' = uart_tx_r s" "uart_tx_w s' = uart_tx_w s"
    "tx_out s' = tx_out s" "tx_space s' = tx_space s" "km s' = km s"
  using assms by (cases s; cases s'; simp add: procs_only_def)+

lemma uq_frame:
  fixes s s' :: "'a devices_scheme"
  assumes "procs_only s s'"
  shows "uq.queue s' = uq.queue s" "uq.ok s' = uq.ok s" "sent s' = sent s"
  using uart_frame [OF assms] by (simp_all add: uq.queue_def uq.count_def uq.ok_def sent_def)

lemma uq_THR [simp]: "uq.queue (write_THR c s) = uq.queue s" "uq.ok (write_THR c s) = uq.ok s"
  by (simp_all add: write_THR_def uq.queue_def uq.count_def uq.ok_def)

lemma uart_pop_frame [simp]: "tx_out (uart_pop s) = tx_out s" "tx_space (uart_pop s) = tx_space s" "km (uart_pop s) = km s"
  by (simp_all add: uart_pop_def)

lemma uartstart_sends:
  "uartstart s = Ret ((), s') \<Longrightarrow> uq.ok s \<Longrightarrow> sent s' = sent s \<and> uq.ok s' \<and> km s' = km s \<and>
     length (tx_out s') + tx_space s' = length (tx_out s) + tx_space s \<and> (uq.queue s' = [] \<or> tx_space s' = 0)"
proof (induction s rule: uartstart.induct)
  case (1 s)
  consider (empty) "uart_tx_w s = uart_tx_r s" | (busy) "uart_tx_w s \<noteq> uart_tx_r s" "tx_space s = 0"
    | (send) "uart_tx_w s \<noteq> uart_tx_r s" "tx_space s \<noteq> 0" by blast
  then show ?case
  proof cases
    case send
    let ?c = "uart_tx_buf s (unat (uart_tx_r s) mod UART_TX_BUF_SIZE)"
    obtain s1 where w: "wakeup (Some ChanUart) (uart_pop s) = Ret ((), s1)"
      and r: "uartstart (write_THR ?c s1) = Ret ((), s')"
      using 1(2) [unfolded uartstart.simps [of s]] send by (auto simp: Let_def kthen_Ret_iff)
    note po = wakeup_procs_only [OF w]
    have q: "uq.queue s = ?c # uq.queue (uart_pop s)" "uq.ok (uart_pop s)"
      using uq.get_queue [of s] send(1) 1(3) by auto
    have sent1: "sent (write_THR ?c s1) = sent s"
      using uq_frame [OF po] uart_frame [OF po] q(1) by (simp add: sent_def) (simp add: write_THR_def)
    have "uq.ok (write_THR ?c s1)" using uq_frame [OF po] q(2) by simp
    from 1(1) [OF send refl w r this] sent1 uart_frame [OF po] send(2) show ?thesis
      by (auto simp: write_THR_def)
  qed (use 1 uq.empty_iff [of s] in \<open>auto simp: uartstart.simps [of s]\<close>)
qed

end
