(* ===== verification/Printf.thy ===== *)
theory Printf
  imports Uart
begin

text \<open>
  \<open>kernel/printf.c\<close>: formatted output. The characters a call sends to \<open>consputc\<close> are computed
  by \<open>printf_out\<close>, which is \<open>None\<close> when \<open>printint\<close> stores beyond its buffer or an argument of
  another type than the one passed is read.
\<close>

definition bytes_of :: "string \<Rightarrow> u8 list" where
  "bytes_of s = map of_char s"

definition cstr :: "u8 list \<Rightarrow> u8 list" where
  "cstr bs = takeWhile (\<lambda>b. b \<noteq> 0) bs"

section \<open>Numbers\<close>

definition digit :: "nat \<Rightarrow> u8" where
  "digit d = bytes_of ''0123456789abcdef'' ! d"

text \<open>The digits in the order they are stored, least significant first.\<close>

function digits_loop :: "nat \<Rightarrow> nat \<Rightarrow> u8 list" where
  "digits_loop base x =
     digit (x mod base) # (if x div base = 0 \<or> base < 2 then [] else digits_loop base (x div base))"
  by pat_completeness auto
termination
  by (relation "measure snd") (auto intro!: div_less_dividend Nat.gr0I)

declare digits_loop.simps [simp del]

definition printint :: "u64 \<Rightarrow> nat \<Rightarrow> bool \<Rightarrow> u8 list option" where
  "printint xx base sign =
     (let neg = (sign \<and> sint xx < 0);
          x = (if neg then - xx else xx);
          buf = digits_loop base (unat x) @ (if neg then [of_char CHR ''-''] else [])
      in if length buf > 16 then None else Some (rev buf))"

definition printptr :: "u64 \<Rightarrow> u8 list" where
  "printptr x = bytes_of ''0x'' @ map (\<lambda>i. digit (unat (drop_bit 60 (push_bit (4 * i) x)))) [0..<16]"

section \<open>Formats\<close>

datatype parg = PInt u32 | PLong u64 | PStr "u8 list option"

fun arg_int :: "parg list \<Rightarrow> (u64 \<times> parg list) option" where
  "arg_int (PInt x # as) = Some (scast x, as)"
| "arg_int _ = None"

fun arg_long :: "parg list \<Rightarrow> (u64 \<times> parg list) option" where
  "arg_long (PLong x # as) = Some (x, as)"
| "arg_long _ = None"

fun arg_str :: "parg list \<Rightarrow> (u8 list \<times> parg list) option" where
  "arg_str (PStr None # as) = Some (bytes_of ''(null)'', as)"
| "arg_str (PStr (Some s) # as) = Some (cstr s, as)"
| "arg_str _ = None"

definition at :: "u8 list \<Rightarrow> nat \<Rightarrow> u8" where
  "at f i = (if i < length f then f ! i else 0)"

abbreviation ch :: "char \<Rightarrow> u8" where "ch \<equiv> of_char"

text \<open>One conversion, at the format after the percent sign: the output, what \<open>i\<close> advances by beyond one character and the arguments left.\<close>

definition convert :: "u8 list \<Rightarrow> parg list \<Rightarrow> (u8 list \<times> nat \<times> parg list) option" where
  "convert f as =
     (let c0 = at f 0; c1 = (if c0 \<noteq> 0 then at f 1 else 0); c2 = (if c1 \<noteq> 0 then at f 2 else 0);
          num = (\<lambda>arg base sign k. case arg as of None \<Rightarrow> None
                 | Some (x, as') \<Rightarrow> map_option (\<lambda>out. (out, k, as')) (printint x base sign))
      in if c0 = ch CHR ''d'' then num arg_int 10 True 0
         else if c0 = ch CHR ''l'' \<and> c1 = ch CHR ''d'' then num arg_long 10 True 1
         else if c0 = ch CHR ''l'' \<and> c1 = ch CHR ''l'' \<and> c2 = ch CHR ''d'' then num arg_long 10 True 2
         else if c0 = ch CHR ''u'' then num arg_int 10 False 0
         else if c0 = ch CHR ''l'' \<and> c1 = ch CHR ''u'' then num arg_long 10 False 1
         else if c0 = ch CHR ''l'' \<and> c1 = ch CHR ''l'' \<and> c2 = ch CHR ''u'' then num arg_long 10 False 2
         else if c0 = ch CHR ''x'' then num arg_int 16 False 0
         else if c0 = ch CHR ''l'' \<and> c1 = ch CHR ''x'' then num arg_long 16 False 1
         else if c0 = ch CHR ''l'' \<and> c1 = ch CHR ''l'' \<and> c2 = ch CHR ''x'' then num arg_long 16 False 2
         else if c0 = ch CHR ''p'' then map_option (\<lambda>(x, as'). (printptr x, 0, as')) (arg_long as)
         else if c0 = ch CHR ''s'' then map_option (\<lambda>(x, as'). (x, 0, as')) (arg_str as)
         else if c0 = ch CHR ''%'' then Some ([ch CHR ''%''], 0, as)
         else Some ([ch CHR ''%'', c0], 0, as))"

function (sequential) printf_out :: "u8 list \<Rightarrow> parg list \<Rightarrow> u8 list option" where
  "printf_out [] as = Some []"
| "printf_out (c # f) as =
     (if c \<noteq> ch CHR ''%'' then map_option (Cons c) (printf_out f as)
      else if f = [] then Some []
      else case convert f as of None \<Rightarrow> None
        | Some (out, k, as') \<Rightarrow> map_option ((@) out) (printf_out (drop (Suc k) f) as'))"
  by pat_completeness auto
termination
  by (relation "measure (\<lambda>(f, as). length f)") auto

section \<open>Printing\<close>

definition BACKSPACE :: nat where "BACKSPACE = 0x100"

definition consputc :: "nat \<Rightarrow> ('a devices_scheme, unit) kop" where
  "consputc c =
     (if c = BACKSPACE
      then kthen (uartputc_sync 8) (\<lambda>_. kthen (uartputc_sync 32) (\<lambda>_. uartputc_sync 8))
      else uartputc_sync (of_nat c))"

definition printf :: "string \<Rightarrow> parg list \<Rightarrow> ('a devices_scheme, unit) kop" where
  "printf fmt as =
     kthen (kget pr_locking) (\<lambda>locking.
     kthen (kwhen locking (acquire LPr)) (\<lambda>_.
     kthen (case printf_out (bytes_of fmt) as of None \<Rightarrow> (\<lambda>s. Diverge)
            | Some out \<Rightarrow> kfor out (\<lambda>c. consputc (unat c))) (\<lambda>_.
     kwhen locking (release LPr))))"

definition printfinit :: "'a devices_scheme \<Rightarrow> 'a devices_scheme" where
  "printfinit s = (initlock LPr s)\<lparr>pr_locking := True\<rparr>"

text \<open>What \<open>panic\<close> does before it loops forever: the state in which the machine stays.\<close>

definition panic_state :: "u8 list \<Rightarrow> ('a devices_scheme, unit) kop" where
  "panic_state msg =
     kthen (kmod (\<lambda>s. s\<lparr>pr_locking := False\<rparr>)) (\<lambda>_.
     kthen (printf ''panic: '' []) (\<lambda>_. kthen (printf (''%s'' @ [CHR 0x0A]) [PStr (Some msg)]) (\<lambda>_.
     kmod (\<lambda>s. s\<lparr>panicked := True\<rparr>))))"

section \<open>Process listing\<close>

primrec state_name :: "procstate \<Rightarrow> string" where
  "state_name UNUSED = ''unused''"
| "state_name USED = ''used''"
| "state_name SLEEPING = ''sleep ''"
| "state_name RUNNABLE = ''runble''"
| "state_name RUNNING = ''run   ''"
| "state_name ZOMBIE = ''zombie''"

definition procdump_one :: "nat \<Rightarrow> ('a devices_scheme, unit) kop" where
  "procdump_one p s =
     (let q = procs s p
      in if pstate q = UNUSED then Ret ((), s)
         else kthen (printf ''%d %s %s'' [PInt (of_int (pid q)), PStr (Some (bytes_of (state_name (pstate q)))),
                      PStr (Some (pname q))]) (\<lambda>_. printf [CHR 0x0A] []) s)"

definition procdump :: "('a devices_scheme, unit) kop" where
  "procdump = kthen (printf [CHR 0x0A] []) (\<lambda>_. kfor [0..<NPROC] procdump_one)"

end
