(* ===== verification/Console.thy ===== *)
theory Console
  imports Printf
begin

text \<open>
  \<open>kernel/console.c\<close>: line-buffered console input and output, and the interrupt handler of
  \<open>kernel/uart.c\<close> that feeds it.
\<close>

definition INPUT_BUF_SIZE :: nat where "INPUT_BUF_SIZE = 128"
definition CONSOLE :: nat where "CONSOLE = 1"

definition cons_at :: "u32 \<Rightarrow> 'a devices_scheme \<Rightarrow> u8" where
  "cons_at i s = cons_buf s (unat i mod INPUT_BUF_SIZE)"

text \<open>A copy of one byte to the destination of a read, from the source of a write.\<close>

definition put_byte :: "bool \<Rightarrow> u64 \<Rightarrow> u8 \<Rightarrow> ('a devices_scheme, int) kop" where
  "put_byte user_dst dst c =
     kthen (either_copyout user_dst dst [c]) (\<lambda>(r, bs).
     kthen (kmod (\<lambda>s. s\<lparr>km := (km s)\<lparr>phys := write_bytes (phys (km s)) dst bs\<rparr>\<rparr>)) (\<lambda>_. kret r))"

definition get_byte :: "bool \<Rightarrow> u64 \<Rightarrow> ('a devices_scheme, int \<times> u8) kop" where
  "get_byte user_src src s =
     kthen (either_copyin user_src src (read_bytes (phys (km s)) src 1) 1)
       (\<lambda>(r, bs). kret (r, if bs = [] then 0 else hd bs)) s"

section \<open>Writing\<close>

text \<open>
  The loop of \<open>consolewrite\<close> from index \<open>i\<close>. When \<open>uartputc\<close> sleeps, the result is the index to
  resume from; the character already fetched is the argument of the resumption.
\<close>

function consolewrite_from :: "bool \<Rightarrow> u64 \<Rightarrow> nat \<Rightarrow> nat \<Rightarrow> ('a devices_scheme, int sleepy) kop" where
  "consolewrite_from user_src src n i s =
     (if i < n
      then kthen (fs_call (get_byte user_src (src + of_nat i))) (\<lambda>(r, c) s1.
             if r = - 1 then Ret (Done (int i), s1)
             else kthen (uartputc c) (\<lambda>res s2. case res of
                    Asleep _ \<Rightarrow> Ret (Asleep i, s2)
                  | Done _ \<Rightarrow> consolewrite_from user_src src n (Suc i) s2) s1) s
      else Ret (Done (int i), s))"
  by pat_completeness auto
termination
  by (relation "measure (\<lambda>(user_src, src, n, i, s). n - i)") auto

declare consolewrite_from.simps [simp del]

definition consolewrite :: "bool \<Rightarrow> u64 \<Rightarrow> int \<Rightarrow> ('a devices_scheme, int sleepy) kop" where
  "consolewrite user_src src n = consolewrite_from user_src src (nat n) 0"

definition consolewrite_resume :: "nat \<Rightarrow> bool \<Rightarrow> u64 \<Rightarrow> int \<Rightarrow> u8 \<Rightarrow> nat \<Rightarrow> ('a devices_scheme, int sleepy) kop" where
  "consolewrite_resume p user_src src n c i =
     kthen (uartputc_resume p c) (\<lambda>res. case res of
       Asleep _ \<Rightarrow> kret (Asleep i) | Done _ \<Rightarrow> consolewrite_from user_src src (nat n) (Suc i))"

section \<open>Reading\<close>

definition cons_done :: "nat \<Rightarrow> nat \<Rightarrow> ('a devices_scheme, int sleepy) kop" where
  "cons_done target n = kthen (release LCons) (\<lambda>_. kret (Done (int target - int n)))"

text \<open>The loop of \<open>consoleread\<close> with \<open>n\<close> of \<open>target\<close> bytes still to read.\<close>

fun consoleread_from :: "bool \<Rightarrow> u64 \<Rightarrow> nat \<Rightarrow> nat \<Rightarrow> ('a devices_scheme, int sleepy) kop" where
  "consoleread_from user_dst dst target 0 s = cons_done target 0 s"
| "consoleread_from user_dst dst target (Suc n) s =
     (if cons_r s = cons_w s
      then kthen curproc (\<lambda>p. kthen (killed p) (\<lambda>k.
             if k then kthen (release LCons) (\<lambda>_. kret (Done (- 1)))
             else kthen (sleep (Some ChanCons) LCons) (\<lambda>_. kret (Asleep (Suc n))))) s
      else let c = cons_at (cons_r s) s; s1 = s\<lparr>cons_r := cons_r s + 1\<rparr>
           in if c = 4
              then cons_done target (Suc n) (if Suc n < target then s1\<lparr>cons_r := cons_r s1 - 1\<rparr> else s1)
              else kthen (fs_call (put_byte user_dst dst c)) (\<lambda>r.
                     if r = - 1 then cons_done target (Suc n)
                     else if c = 10 then cons_done target n
                     else consoleread_from user_dst (dst + 1) target n) s1)"

definition consoleread :: "bool \<Rightarrow> u64 \<Rightarrow> int \<Rightarrow> ('a devices_scheme, int sleepy) kop" where
  "consoleread user_dst dst n =
     kthen (acquire LCons) (\<lambda>_. consoleread_from user_dst dst (nat n) (nat n))"

definition consoleread_resume :: "nat \<Rightarrow> bool \<Rightarrow> u64 \<Rightarrow> int \<Rightarrow> nat \<Rightarrow> ('a devices_scheme, int sleepy) kop" where
  "consoleread_resume p user_dst dst n left =
     kthen (sleep_resume p LCons) (\<lambda>_. consoleread_from user_dst (dst + of_nat (nat n - left)) (nat n) left)"

section \<open>Input\<close>

text \<open>\<open>e\<close> catches up with \<open>w\<close> one decrement at a time, at most \<open>e - w\<close> of them.\<close>

fun kill_line :: "nat \<Rightarrow> ('a devices_scheme, unit) kop" where
  "kill_line 0 s = Ret ((), s)"
| "kill_line (Suc k) s =
     (if cons_e s \<noteq> cons_w s \<and> cons_at (cons_e s - 1) s \<noteq> 10
      then kthen (consputc BACKSPACE) (\<lambda>_. kill_line k) (s\<lparr>cons_e := cons_e s - 1\<rparr>)
      else Ret ((), s))"

definition cons_store :: "u8 \<Rightarrow> ('a devices_scheme, unit) kop" where
  "cons_store c s =
     (let s1 = s\<lparr>cons_buf := (cons_buf s)(unat (cons_e s) mod INPUT_BUF_SIZE := c), cons_e := cons_e s + 1\<rparr>
      in if c = 10 \<or> c = 4 \<or> cons_e s1 - cons_r s1 = of_nat INPUT_BUF_SIZE
         then wakeup (Some ChanCons) (s1\<lparr>cons_w := cons_e s1\<rparr>) else Ret ((), s1))"

definition consoleintr :: "u8 \<Rightarrow> ('a devices_scheme, unit) kop" where
  "consoleintr c =
     kthen (acquire LCons) (\<lambda>_. kthen (\<lambda>s.
       if c = 16 then procdump s
       else if c = 21 then kill_line (unat (cons_e s - cons_w s)) s
       else if c = 8 \<or> c = 0x7f
       then if cons_e s \<noteq> cons_w s then consputc BACKSPACE (s\<lparr>cons_e := cons_e s - 1\<rparr>) else Ret ((), s)
       else if c \<noteq> 0 \<and> cons_e s - cons_r s < of_nat INPUT_BUF_SIZE
       then let c = (if c = 13 then 10 else c)
            in kthen (consputc (unat c)) (\<lambda>_. cons_store c) s
       else Ret ((), s)) (\<lambda>_. release LCons))"

text \<open>The input loop of \<open>uartintr\<close> reads what the device has received, at most \<open>length rx\<close> bytes.\<close>

fun uart_input :: "nat \<Rightarrow> ('a devices_scheme, unit) kop" where
  "uart_input 0 s = Ret ((), s)"
| "uart_input (Suc k) s =
     (case uartgetc s of (None, s1) \<Rightarrow> Ret ((), s1)
      | (Some c, s1) \<Rightarrow> kthen (consoleintr c) (\<lambda>_. uart_input k) s1)"

definition uartintr :: "('a devices_scheme, unit) kop" where
  "uartintr s =
     kthen (uart_input (length (rx s))) (\<lambda>_. kthen (acquire LUart) (\<lambda>_. kthen uartstart (\<lambda>_. release LUart))) s"

definition consoleinit :: "'a devices_scheme \<Rightarrow> 'a devices_scheme" where
  "consoleinit s = uartinit (initlock LCons s)"

end
