(* ===== verification/Pipe.thy ===== *)
theory Pipe
  imports Console Ring
begin

text \<open>
  \<open>kernel/pipe.c\<close> and the file table of \<open>kernel/file.c\<close>. A \<open>struct pipe\<close>, which lives in a page
  from \<open>kalloc\<close>, is kept by the address of that page; a file pointer is its index in the table.
\<close>

definition PIPESIZE :: nat where "PIPESIZE = 512"
definition NFILE :: nat where "NFILE = 100"
definition NDEV :: int where "NDEV = 10"

record pipe =
  pdata :: "nat \<Rightarrow> u8"
  nread :: u32
  nwrite :: u32
  readopen :: bool
  writeopen :: bool

datatype ftype = FD_NONE | FD_PIPE | FD_INODE | FD_DEVICE

record kfile =
  ftype :: ftype
  fref :: int
  readable :: bool
  writable :: bool
  fpipe :: addr
  fip :: nat
  foff :: u32
  fmajor :: u16

text \<open>\<open>devsw\<close> tells whether the device functions of a major number are those of the console.\<close>

record kernel = devices +
  files :: "nat \<Rightarrow> kfile"
  pipes :: "addr \<Rightarrow> pipe"
  devsw :: "nat \<Rightarrow> bool"

definition set_file :: "nat \<Rightarrow> (kfile \<Rightarrow> kfile) \<Rightarrow> 'a kernel_scheme \<Rightarrow> 'a kernel_scheme" where
  "set_file f g s = s\<lparr>files := (files s)(f := g (files s f))\<rparr>"

definition set_pipe :: "addr \<Rightarrow> (pipe \<Rightarrow> pipe) \<Rightarrow> 'a kernel_scheme \<Rightarrow> 'a kernel_scheme" where
  "set_pipe pi g s = s\<lparr>pipes := (pipes s)(pi := g (pipes s pi))\<rparr>"

section \<open>The file table\<close>

definition fileinit :: "'a kernel_scheme \<Rightarrow> 'a kernel_scheme" where
  "fileinit = initlock LFtable"

definition filealloc :: "('a kernel_scheme, nat option) kop" where
  "filealloc =
     kthen (acquire LFtable) (\<lambda>_ s.
       case find (\<lambda>f. fref (files s f) = 0) [0..<NFILE] of
         Some f \<Rightarrow> kthen (release LFtable) (\<lambda>_. kret (Some f)) (set_file f (\<lambda>x. x\<lparr>fref := 1\<rparr>) s)
       | None \<Rightarrow> kthen (release LFtable) (\<lambda>_. kret None) s)"

definition filedup :: "nat \<Rightarrow> ('a kernel_scheme, nat) kop" where
  "filedup f =
     kthen (acquire LFtable) (\<lambda>_ s.
       if fref (files s f) < 1 then Panic ''filedup''
       else kthen (release LFtable) (\<lambda>_. kret f) (set_file f (\<lambda>x. x\<lparr>fref := fref x + 1\<rparr>) s))"

section \<open>Closing a pipe\<close>

definition pipeclose :: "addr \<Rightarrow> bool \<Rightarrow> ('a kernel_scheme, unit) kop" where
  "pipeclose pi wr =
     kthen (acquire (LPipe pi)) (\<lambda>_.
     kthen (if wr
            then kthen (kmod (set_pipe pi (\<lambda>x. x\<lparr>writeopen := False\<rparr>))) (\<lambda>_. wakeup (Some (ChanPipeRead pi)))
            else kthen (kmod (set_pipe pi (\<lambda>x. x\<lparr>readopen := False\<rparr>))) (\<lambda>_. wakeup (Some (ChanPipeWrite pi)))) (\<lambda>_.
     kthen (kget (\<lambda>s. pipes s pi)) (\<lambda>x.
       if \<not> readopen x \<and> \<not> writeopen x
       then kthen (release (LPipe pi)) (\<lambda>_. km_do (kfree pi))
       else release (LPipe pi))))"

definition fileclose :: "nat \<Rightarrow> ('a kernel_scheme, unit) kop" where
  "fileclose f =
     kthen (acquire LFtable) (\<lambda>_ s.
       if fref (files s f) < 1 then Panic ''fileclose''
       else if fref (files s f) - 1 > 0
       then release LFtable (set_file f (\<lambda>x. x\<lparr>fref := fref x - 1\<rparr>) s)
       else let ff = files s f
            in kthen (release LFtable) (\<lambda>_. case ftype ff of
                 FD_PIPE \<Rightarrow> pipeclose (fpipe ff) (writable ff)
               | FD_NONE \<Rightarrow> kret ()
               | _ \<Rightarrow> kthen (fs_call begin_op) (\<lambda>_. kthen (fs_call (iput (fip ff))) (\<lambda>_. fs_call end_op)))
                 (set_file f (\<lambda>x. x\<lparr>fref := 0, ftype := FD_NONE\<rparr>) s))"

section \<open>Creating a pipe\<close>

definition pipe_bad :: "nat option \<Rightarrow> nat option \<Rightarrow> ('a kernel_scheme, (nat \<times> nat) option) kop" where
  "pipe_bad f0 f1 =
     kthen (case f0 of Some f \<Rightarrow> fileclose f | None \<Rightarrow> kret ()) (\<lambda>_.
     kthen (case f1 of Some f \<Rightarrow> fileclose f | None \<Rightarrow> kret ()) (\<lambda>_. kret None))"

definition pipealloc :: "('a kernel_scheme, (nat \<times> nat) option) kop" where
  "pipealloc =
     kthen filealloc (\<lambda>r0. case r0 of None \<Rightarrow> pipe_bad None None
     | Some f0 \<Rightarrow> kthen filealloc (\<lambda>r1. case r1 of None \<Rightarrow> pipe_bad (Some f0) None
     | Some f1 \<Rightarrow>
         kthen (km_fn kalloc) (\<lambda>pi.
           if pi = 0 then pipe_bad (Some f0) (Some f1)
           else kthen (kmod (set_pipe pi (\<lambda>x. x\<lparr>readopen := True, writeopen := True, nwrite := 0, nread := 0\<rparr>))) (\<lambda>_.
                kthen (kmod (initlock (LPipe pi))) (\<lambda>_.
                kthen (kmod (set_file f0 (\<lambda>x. x\<lparr>ftype := FD_PIPE, readable := True, writable := False, fpipe := pi\<rparr>))) (\<lambda>_.
                kthen (kmod (set_file f1 (\<lambda>x. x\<lparr>ftype := FD_PIPE, readable := False, writable := True, fpipe := pi\<rparr>))) (\<lambda>_.
                kret (Some (f0, f1)))))))))"

section \<open>Writing and reading\<close>

definition pipe_full :: "pipe \<Rightarrow> bool" where
  "pipe_full x \<longleftrightarrow> nwrite x = nread x + of_nat PIPESIZE"

definition pipe_push :: "u8 \<Rightarrow> pipe \<Rightarrow> pipe" where
  "pipe_push c x = x\<lparr>pdata := (pdata x)(unat (nwrite x) mod PIPESIZE := c), nwrite := nwrite x + 1\<rparr>"

definition pipe_head :: "pipe \<Rightarrow> u8" where
  "pipe_head x = pdata x (unat (nread x) mod PIPESIZE)"

definition pipe_pop :: "pipe \<Rightarrow> pipe" where
  "pipe_pop x = x\<lparr>nread := nread x + 1\<rparr>"

text \<open>After the loop of \<open>pipewrite\<close>, \<open>piperead\<close>.\<close>

definition pipe_done :: "addr \<Rightarrow> chan \<Rightarrow> nat \<Rightarrow> ('a kernel_scheme, int sleepy) kop" where
  "pipe_done pi c i = kthen (wakeup (Some c)) (\<lambda>_. kthen (release (LPipe pi)) (\<lambda>_. kret (Done (int i))))"

function pipewrite_from :: "nat \<Rightarrow> addr \<Rightarrow> u64 \<Rightarrow> nat \<Rightarrow> nat \<Rightarrow> ('a kernel_scheme, int sleepy) kop" where
  "pipewrite_from pr pi a n i s =
     (if i < n
      then kthen (if readopen (pipes s pi) then killed pr else kret True) (\<lambda>stop s1.
             if stop then kthen (release (LPipe pi)) (\<lambda>_. kret (Done (- 1))) s1
             else if pipe_full (pipes s1 pi)
             then kthen (wakeup (Some (ChanPipeRead pi))) (\<lambda>_.
                  kthen (sleep (Some (ChanPipeWrite pi)) (LPipe pi)) (\<lambda>_. kret (Asleep i))) s1
             else kbind (copyin (pagetable (procs s1 pr)) (a + of_nat i) 1 (km s1)) (\<lambda>(r, bs).
                    if r = - 1 then pipe_done pi (ChanPipeRead pi) i s1
                    else pipewrite_from pr pi a n (Suc i) (set_pipe pi (pipe_push (hd bs)) s1))) s
      else pipe_done pi (ChanPipeRead pi) i s)"
  by pat_completeness auto
termination
  by (relation "measure (\<lambda>(pr, pi, a, n, i, s). n - i)") auto

declare pipewrite_from.simps [simp del]

definition pipewrite :: "addr \<Rightarrow> u64 \<Rightarrow> int \<Rightarrow> ('a kernel_scheme, int sleepy) kop" where
  "pipewrite pi a n = kthen curproc (\<lambda>pr. kthen (acquire (LPipe pi)) (\<lambda>_. pipewrite_from pr pi a (nat n) 0))"

definition pipewrite_resume :: "nat \<Rightarrow> addr \<Rightarrow> u64 \<Rightarrow> int \<Rightarrow> nat \<Rightarrow> ('a kernel_scheme, int sleepy) kop" where
  "pipewrite_resume pr pi a n i = kthen (sleep_resume pr (LPipe pi)) (\<lambda>_. pipewrite_from pr pi a (nat n) i)"

function piperead_copy :: "nat \<Rightarrow> addr \<Rightarrow> u64 \<Rightarrow> nat \<Rightarrow> nat \<Rightarrow> ('a kernel_scheme, int sleepy) kop" where
  "piperead_copy pr pi a n i s =
     (if i < n \<and> nread (pipes s pi) \<noteq> nwrite (pipes s pi)
      then let c = pipe_head (pipes s pi)
           in kthen (on_km (copyout (pagetable (procs s pr)) (a + of_nat i) [c])) (\<lambda>r s1.
                if r = - 1 then pipe_done pi (ChanPipeWrite pi) i s1
                else piperead_copy pr pi a n (Suc i) s1) (set_pipe pi pipe_pop s)
      else pipe_done pi (ChanPipeWrite pi) i s)"
  by pat_completeness auto
termination
  by (relation "measure (\<lambda>(pr, pi, a, n, i, s). n - i)") auto

declare piperead_copy.simps [simp del]

definition piperead_wait :: "nat \<Rightarrow> addr \<Rightarrow> u64 \<Rightarrow> int \<Rightarrow> ('a kernel_scheme, int sleepy) kop" where
  "piperead_wait pr pi a n s =
     (if nread (pipes s pi) = nwrite (pipes s pi) \<and> writeopen (pipes s pi)
      then kthen (killed pr) (\<lambda>k.
             if k then kthen (release (LPipe pi)) (\<lambda>_. kret (Done (- 1)))
             else kthen (sleep (Some (ChanPipeRead pi)) (LPipe pi)) (\<lambda>_. kret (Asleep 0))) s
      else piperead_copy pr pi a (nat n) 0 s)"

definition piperead :: "addr \<Rightarrow> u64 \<Rightarrow> int \<Rightarrow> ('a kernel_scheme, int sleepy) kop" where
  "piperead pi a n = kthen curproc (\<lambda>pr. kthen (acquire (LPipe pi)) (\<lambda>_. piperead_wait pr pi a n))"

definition piperead_resume :: "nat \<Rightarrow> addr \<Rightarrow> u64 \<Rightarrow> int \<Rightarrow> ('a kernel_scheme, int sleepy) kop" where
  "piperead_resume pr pi a n = kthen (sleep_resume pr (LPipe pi)) (\<lambda>_. piperead_wait pr pi a n)"

section \<open>A pipe is a queue of bytes\<close>

interpretation pq: ring PIPESIZE pdata nread nwrite pipe_push pipe_pop
proof
  show "PIPESIZE dvd 2 ^ LENGTH(32)" by (rule dvdI [of _ _ "2 ^ 23"]) (simp add: PIPESIZE_def)
qed (simp_all add: PIPESIZE_def pipe_push_def pipe_pop_def)

lemma pipe_full_iff: "pq.ok x \<Longrightarrow> pipe_full x \<longleftrightarrow> length (pq.queue x) = PIPESIZE"
  by (simp add: pipe_full_def pq.full_iff)

lemma pipes_frame:
  "procs_only s s' \<Longrightarrow> pipes s' = pipes s" "procs_only s s' \<Longrightarrow> km s' = km s"
  for s s' :: "'a kernel_scheme"
  by (cases s; cases s'; simp add: procs_only_def)+

lemma pipe_done_frame:
  assumes "pipe_done pi c i s = Ret (res, s')"
  shows "res = Done (int i) \<and> procs_only s s'"
  using assms unfolding pipe_done_def
  by (auto simp: kthen_Ret_iff kret_def dest!: wakeup_procs_only release_locks_only [THEN locks_only_procs_only]
      intro: procs_only_trans)

definition wrote :: "nat \<Rightarrow> addr \<Rightarrow> u64 \<Rightarrow> nat \<Rightarrow> nat \<Rightarrow> 'a kernel_scheme \<Rightarrow> int sleepy \<Rightarrow> 'a kernel_scheme \<Rightarrow> bool" where
  "wrote pr pi a i k s res s' \<longleftrightarrow>
     pq.queue (pipes s' pi) = pq.queue (pipes s pi) @
       map (\<lambda>j. user_byte (pagetable (procs s pr)) (a + of_nat j) (km s)) [i..<k] \<and>
     pq.ok (pipes s' pi) \<and> (\<forall>x. x \<noteq> pi \<longrightarrow> pipes s' x = pipes s x) \<and> km s' = km s \<and>
     (res = Done (int k) \<or> res = Done (- 1) \<or> res = Asleep k \<and> length (pq.queue (pipes s' pi)) = PIPESIZE)"

lemma wrote_nothing:
  assumes "pq.ok (pipes s pi)" "procs_only s s'"
    "res = Done (int i) \<or> res = Done (- 1) \<or> res = Asleep i \<and> pipe_full (pipes s pi)"
  shows "wrote pr pi a i i s res s'"
  using assms pipes_frame [OF assms(2)] by (auto simp: wrote_def pipe_full_iff)

lemma wrote_step:
  fixes s :: "'a kernel_scheme"
  assumes "wrote pr pi a (Suc i) k s2 res s'" "i < k" "locks_only s s1"
    "s2 = set_pipe pi (pipe_push (hd bs)) s1" "copyin (pagetable (procs s1 pr)) (a + of_nat i) 1 (km s1) = Ret (r, bs)"
    "pq.ok (pipes s pi)" "\<not> pipe_full (pipes s1 pi)"
  shows "wrote pr pi a i k s res s'"
proof -
  note fr = pipes_frame [OF locks_only_procs_only [OF assms(3)]] locks_frame_procs [OF assms(3)]
  have b: "user_byte (pagetable (procs s pr)) (a + of_nat i) (km s) = hd bs"
    using assms(5) by (simp add: user_byte_def fr)
  have s2: "pipes s2 = (pipes s)(pi := pipe_push (hd bs) (pipes s pi))" "km s2 = km s" "procs s2 = procs s"
    using assms(4) by (simp_all add: set_pipe_def fr)
  have "pq.queue (pipes s2 pi) = pq.queue (pipes s pi) @ [hd bs]"
    using assms(6,7) pq.put_queue(1) [of "pipes s pi"] by (simp add: s2 fr pipe_full_def)
  moreover have "[i..<k] = i # [Suc i..<k]" using assms(2) by (simp add: upt_conv_Cons)
  ultimately show ?thesis using assms(1) by (auto simp: wrote_def s2 b)
qed

lemma pipewrite_from_wrote:
  "pipewrite_from pr pi a n i s = Ret (res, s') \<Longrightarrow> pq.ok (pipes s pi) \<Longrightarrow> i \<le> n \<Longrightarrow>
   \<exists>k. i \<le> k \<and> k \<le> n \<and> wrote pr pi a i k s res s'"
proof (induction pr pi a n i s rule: pipewrite_from.induct)
  case (1 pr pi a n i s)
  show ?case
  proof (cases "i < n")
    case False
    then have "pipe_done pi (ChanPipeRead pi) i s = Ret (res, s')" using 1(2) by (simp add: pipewrite_from.simps)
    from pipe_done_frame [OF this] 1(3,4) show ?thesis by (auto intro: wrote_nothing)
  next
    case True
    obtain stop s1 where st: "(if readopen (pipes s pi) then killed pr else kret True) s = Ret (stop, s1)"
      using 1(2) True by (subst (asm) pipewrite_from.simps) (auto simp: kthen_Ret_iff)
    have lo: "locks_only s s1" using st by (auto simp: kret_def locks_only_def split: if_splits dest: killed_locks_only)
    note po = locks_only_procs_only [OF lo]
    note fr = pipes_frame [OF po]
    have rest: "(if stop then kthen (release (LPipe pi)) (\<lambda>_. kret (Done (- 1))) s1
         else if pipe_full (pipes s1 pi)
         then kthen (wakeup (Some (ChanPipeRead pi))) (\<lambda>_.
              kthen (sleep (Some (ChanPipeWrite pi)) (LPipe pi)) (\<lambda>_. kret (Asleep i))) s1
         else kbind (copyin (pagetable (procs s1 pr)) (a + of_nat i) 1 (km s1)) (\<lambda>(r, bs).
                if r = - 1 then pipe_done pi (ChanPipeRead pi) i s1
                else pipewrite_from pr pi a n (Suc i) (set_pipe pi (pipe_push (hd bs)) s1))) = Ret (res, s')"
      using 1(2) True st by (subst (asm) pipewrite_from.simps) (auto simp: kthen_def)
    consider (stop) "stop" | (full) "\<not> stop" "pipe_full (pipes s1 pi)"
      | (room) "\<not> stop" "\<not> pipe_full (pipes s1 pi)" by blast
    then show ?thesis
    proof cases
      case stop
      then have "res = Done (- 1)" "procs_only s1 s'"
        using rest by (auto simp: kthen_Ret_iff kret_def dest: release_locks_only [THEN locks_only_procs_only])
      then show ?thesis using 1(3,4) procs_only_trans [OF po] by (auto intro: wrote_nothing)
    next
      case full
      then have "res = Asleep i" "procs_only s1 s'"
        using rest by (auto simp: kthen_Ret_iff kret_def dest!: wakeup_procs_only sleep_procs_only intro: procs_only_trans)
      then show ?thesis using 1(3,4) procs_only_trans [OF po] full fr by (auto intro: wrote_nothing)
    next
      case room
      then obtain r bs where c: "copyin (pagetable (procs s1 pr)) (a + of_nat i) 1 (km s1) = Ret (r, bs)"
        using rest by (auto simp: kbind_Ret_iff)
      show ?thesis
      proof (cases "r = - 1")
        case True
        then have "pipe_done pi (ChanPipeRead pi) i s1 = Ret (res, s')" using rest room c by simp
        from pipe_done_frame [OF this] 1(3,4) procs_only_trans [OF po] show ?thesis by (auto intro: wrote_nothing)
      next
        case False
        let ?s2 = "set_pipe pi (pipe_push (hd bs)) s1"
        have ok: "pq.ok (pipes ?s2 pi)"
          using 1(3) room pq.put_queue(2) [of "pipes s pi"] fr by (simp add: set_pipe_def pipe_full_def)
        have "pipewrite_from pr pi a n (Suc i) ?s2 = Ret (res, s')" using rest room c False by simp
        from 1(1) [OF True st room c refl False this ok] True
        obtain k where "Suc i \<le> k" "k \<le> n" "wrote pr pi a (Suc i) k ?s2 res s'" by auto
        then show ?thesis using wrote_step [OF _ _ lo refl c 1(3) room(2)] by (metis Suc_le_eq le_eq_less_or_eq)
      qed
    qed
  qed
qed

lemma set_pipe_frame [simp]:
  "km (set_pipe pi f s) = km s" "procs (set_pipe pi f s) = procs s"
  "pipes (set_pipe pi f s) = (pipes s)(pi := f (pipes s pi))"
  by (simp_all add: set_pipe_def)

text \<open>Bytes copied out one by one, until one copy fails.\<close>

fun deliver :: "addr \<Rightarrow> u64 \<Rightarrow> nat \<Rightarrow> u8 list \<Rightarrow> kmem \<Rightarrow> (int \<times> kmem) kres" where
  "deliver pt a i [] m = Ret (0, m)"
| "deliver pt a i (c # cs) m =
     kbind (copyout pt (a + of_nat i) [c] m) (\<lambda>(r, m1). if r = - 1 then Ret (- 1, m1) else deliver pt a (Suc i) cs m1)"

definition consumed :: "nat \<Rightarrow> addr \<Rightarrow> u64 \<Rightarrow> nat \<Rightarrow> u8 list \<Rightarrow> int \<Rightarrow> 'a kernel_scheme \<Rightarrow> int sleepy \<Rightarrow> 'a kernel_scheme \<Rightarrow> bool" where
  "consumed pr pi a i bs r s res s' \<longleftrightarrow>
     pq.queue (pipes s pi) = bs @ pq.queue (pipes s' pi) \<and> pq.ok (pipes s' pi) \<and>
     (\<forall>x. x \<noteq> pi \<longrightarrow> pipes s' x = pipes s x) \<and>
     deliver (pagetable (procs s pr)) a i bs (km s) = Ret (r, km s') \<and>
     res = Done (int i + int (length bs) - (if r = - 1 then 1 else 0))"

lemma consumed_nothing:
  "pq.ok (pipes s pi) \<Longrightarrow> procs_only s s' \<Longrightarrow> consumed pr pi a i [] 0 s (Done (int i)) s'"
  using pipes_frame [of s s'] by (simp add: consumed_def)

lemma consumed_last:
  assumes "pq.ok (pipes s pi)" "nread (pipes s pi) \<noteq> nwrite (pipes s pi)"
    "copyout (pagetable (procs s pr)) (a + of_nat i) [pipe_head (pipes s pi)] (km s) = Ret (- 1, m)"
    "procs_only ((set_pipe pi pipe_pop s)\<lparr>km := m\<rparr>) s'"
  shows "consumed pr pi a i [pipe_head (pipes s pi)] (- 1) s (Done (int i)) s'"
  using assms pipes_frame [OF assms(4)] pq.get_queue [OF assms(2)]
  by (simp add: consumed_def set_pipe_def pipe_head_def)

lemma consumed_step:
  assumes "pq.ok (pipes s pi)" "nread (pipes s pi) \<noteq> nwrite (pipes s pi)"
    "copyout (pagetable (procs s pr)) (a + of_nat i) [pipe_head (pipes s pi)] (km s) = Ret (r0, m)" "r0 \<noteq> - 1"
    "consumed pr pi a (Suc i) bs r ((set_pipe pi pipe_pop s)\<lparr>km := m\<rparr>) res s'"
  shows "consumed pr pi a i (pipe_head (pipes s pi) # bs) r s res s'"
  using assms pq.get_queue [OF assms(2)] by (auto simp: consumed_def set_pipe_def pipe_head_def)

lemma piperead_copy_consumed:
  "piperead_copy pr pi a n i s = Ret (res, s') \<Longrightarrow> pq.ok (pipes s pi) \<Longrightarrow> i \<le> n \<Longrightarrow>
   \<exists>bs r. length bs \<le> n - i \<and> consumed pr pi a i bs r s res s' \<and>
     (r \<noteq> - 1 \<longrightarrow> length bs = n - i \<or> pq.queue (pipes s' pi) = [])"
proof (induction pr pi a n i s rule: piperead_copy.induct)
  case (1 pr pi a n i s)
  let ?x = "pipes s pi"
  show ?case
  proof (cases "i < n \<and> nread ?x \<noteq> nwrite ?x")
    case False
    then have "pipe_done pi (ChanPipeWrite pi) i s = Ret (res, s')"
      using 1(2) by (subst (asm) piperead_copy.simps) (simp only: if_False)
    from pipe_done_frame [OF this] have d: "res = Done (int i)" "procs_only s s'" by simp_all
    have "n - i = 0 \<or> pq.queue (pipes s' pi) = []"
      using False 1(4) pipes_frame [OF d(2)] pq.empty_iff [of ?x] by auto
    then show ?thesis using consumed_nothing [OF 1(3) d(2)] d(1)
      by (intro exI [of _ "[]"] exI [of _ 0]) auto
  next
    case True
    let ?s1 = "\<lambda>m. (set_pipe pi pipe_pop s)\<lparr>km := m\<rparr>"
    obtain r0 m where c: "copyout (pagetable (procs s pr)) (a + of_nat i) [pipe_head ?x] (km s) = Ret (r0, m)"
      and rest: "(if r0 = - 1 then pipe_done pi (ChanPipeWrite pi) i (?s1 m)
                  else piperead_copy pr pi a n (Suc i) (?s1 m)) = Ret (res, s')"
      using 1(2) [unfolded piperead_copy.simps [of pr pi a n i s]] True
      by (auto simp: Let_def kthen_def on_km_def kbind_Ret_iff split: prod.splits)
    show ?thesis
    proof (cases "r0 = - 1")
      case True': True
      then have "pipe_done pi (ChanPipeWrite pi) i (?s1 m) = Ret (res, s')" using rest by simp
      from pipe_done_frame [OF this] have d: "res = Done (int i)" "procs_only (?s1 m) s'" by simp_all
      from consumed_last [OF 1(3) _ c [unfolded True'] d(2)] True d(1) show ?thesis
        by (intro exI [of _ "[pipe_head ?x]"] exI [of _ "- 1"]) auto
    next
      case False
      have ok: "pq.ok (pipes (?s1 m) pi)" using pq.get_queue(2) [of ?x] True 1(3) by (simp add: set_pipe_def)
      have "on_km (copyout (pagetable (procs s pr)) (a + of_nat i) [pipe_head ?x]) (set_pipe pi pipe_pop s) = Ret (r0, ?s1 m)"
        using c by (simp add: on_km_def set_pipe_def)
      from 1(1) [OF True refl this False _ ok] rest False True
      obtain bs r where bs: "length bs \<le> n - Suc i" "consumed pr pi a (Suc i) bs r (?s1 m) res s'"
        "r \<noteq> - 1 \<longrightarrow> length bs = n - Suc i \<or> pq.queue (pipes s' pi) = []" by auto
      from consumed_step [OF 1(3) _ c False bs(2)] True bs show ?thesis
        by (intro exI [of _ "pipe_head ?x # bs"] exI [of _ r]) auto
    qed
  qed
qed

end
