(* ===== verification/File.thy ===== *)
theory File
  imports Pipe
begin

text \<open>\<open>kernel/file.c\<close>: operations on open files.\<close>

text \<open>
  \<open>struct stat\<close> in memory: the four bytes between \<open>nlink\<close> and \<open>size\<close> are padding, which holds
  whatever the stack held; they are the argument \<open>pad\<close>.
\<close>

definition stat_bytes :: "u8 list \<Rightarrow> stat \<Rightarrow> u8 list" where
  "stat_bytes pad st =
     put32 (replicate 4 0) 0 (st_dev st) @ put32 (replicate 4 0) 0 (st_ino st) @
     put16 (replicate 2 0) 0 (st_type st) @ put16 (replicate 2 0) 0 (st_nlink st) @ pad @
     put32 (replicate 4 0) 0 (ucast (st_size st)) @ put32 (replicate 4 0) 0 (ucast (drop_bit 32 (st_size st)))"

definition filestat :: "u8 list \<Rightarrow> nat \<Rightarrow> u64 \<Rightarrow> ('a kernel_scheme, int) kop" where
  "filestat pad f a =
     kthen curproc (\<lambda>p. kthen (kget (\<lambda>s. files s f)) (\<lambda>ff.
       if ftype ff = FD_INODE \<or> ftype ff = FD_DEVICE
       then kthen (fs_call (ilock (fip ff))) (\<lambda>_. kthen (kget (\<lambda>s. stati (inodes s (fip ff)))) (\<lambda>st.
            kthen (fs_call (iunlock (fip ff))) (\<lambda>_. kthen (kget (\<lambda>s. pagetable (procs s p))) (\<lambda>pt.
            kthen (on_km (copyout pt a (stat_bytes pad st))) (\<lambda>r. kret (if r < 0 then - 1 else 0))))))
       else kret (- 1)))"

definition bad_major :: "kfile \<Rightarrow> 'a kernel_scheme \<Rightarrow> bool" where
  "bad_major ff s \<longleftrightarrow> sint (fmajor ff) < 0 \<or> sint (fmajor ff) \<ge> NDEV \<or> \<not> devsw s (unat (fmajor ff))"

definition fileread :: "nat \<Rightarrow> u64 \<Rightarrow> int \<Rightarrow> ('a kernel_scheme, int sleepy) kop" where
  "fileread f a n s =
     (let ff = files s f
      in if \<not> readable ff then Ret (Done (- 1), s)
         else case ftype ff of
           FD_PIPE \<Rightarrow> piperead (fpipe ff) a n s
         | FD_DEVICE \<Rightarrow> if bad_major ff s then Ret (Done (- 1), s) else consoleread True a n s
         | FD_INODE \<Rightarrow>
             kthen (fs_call (ilock (fip ff))) (\<lambda>_. kthen (kget (\<lambda>s. foff (files s f))) (\<lambda>off.
             kthen (fs_call (readi (fip ff) True a off (of_int n))) (\<lambda>(r, _).
             kthen (kmod (\<lambda>s. if r > 0 then set_file f (\<lambda>x. x\<lparr>foff := foff x + of_int r\<rparr>) s else s)) (\<lambda>_.
             kthen (fs_call (iunlock (fip ff))) (\<lambda>_. kret (Done r)))))) s
         | FD_NONE \<Rightarrow> Panic ''fileread'')"

text \<open>Large writes are split into transactions of at most this many bytes.\<close>

definition write_max :: int where
  "write_max = int ((MAXOPBLOCKS - 1 - 1 - 2) div 2 * BSIZE)"

function filewrite_loop :: "nat \<Rightarrow> nat \<Rightarrow> u64 \<Rightarrow> int \<Rightarrow> int \<Rightarrow> ('a kernel_scheme, int) kop" where
  "filewrite_loop f ip a n i s =
     (if i < n
      then let n1 = (if n - i > write_max then write_max else n - i)
           in kthen (fs_call begin_op) (\<lambda>_. kthen (fs_call (ilock ip)) (\<lambda>_.
              kthen (kget (\<lambda>s. foff (files s f))) (\<lambda>off.
              kthen (fs_call (writei ip True (a + of_int i) [] off (of_int n1))) (\<lambda>r.
              kthen (kmod (\<lambda>s. if r > 0 then set_file f (\<lambda>x. x\<lparr>foff := foff x + of_int r\<rparr>) s else s)) (\<lambda>_.
              kthen (fs_call (iunlock ip)) (\<lambda>_. kthen (fs_call end_op) (\<lambda>_ s1.
                if r \<noteq> n1 then Ret (i, s1) else filewrite_loop f ip a n (i + r) s1))))))) s
      else Ret (i, s))"
  by pat_completeness auto
termination
  by (relation "measure (\<lambda>(f, ip, a, n, i, s). nat (n - i))")
    (auto simp: write_max_def MAXOPBLOCKS_def BSIZE_def)

declare filewrite_loop.simps [simp del]

definition filewrite :: "nat \<Rightarrow> u64 \<Rightarrow> int \<Rightarrow> ('a kernel_scheme, int sleepy) kop" where
  "filewrite f a n s =
     (let ff = files s f
      in if \<not> writable ff then Ret (Done (- 1), s)
         else case ftype ff of
           FD_PIPE \<Rightarrow> pipewrite (fpipe ff) a n s
         | FD_DEVICE \<Rightarrow> if bad_major ff s then Ret (Done (- 1), s) else consolewrite True a n s
         | FD_INODE \<Rightarrow> kthen (filewrite_loop f (fip ff) a n 0) (\<lambda>i. kret (Done (if i = n then n else - 1))) s
         | FD_NONE \<Rightarrow> Panic ''filewrite'')"

end
