(* ===== verification/Scheduler.thy ===== *)
theory Scheduler
  imports Proc
begin

text \<open>
  The scheduler of \<open>kernel/proc.c\<close> with its compile-time policies. One iteration of the loop over
  the process table either releases the lock of the process it looked at, or switches to a
  process whose lock it holds; \<open>sched_back\<close> is the code after \<open>swtch\<close> returns.
\<close>

section \<open>Random numbers\<close>

definition sar :: "nat \<Rightarrow> u32 \<Rightarrow> u32" where
  "sar n w = signed_drop_bit n w"

definition next_rng :: "rng \<Rightarrow> rng" where
  "next_rng z =
     \<lparr>z1 = push_bit 18 (z1 z AND 4294967294) XOR sar 13 (push_bit 6 (z1 z) XOR z1 z),
      z2 = push_bit 2 (z2 z AND 4294967288) XOR sar 27 (push_bit 2 (z2 z) XOR z2 z),
      z3 = push_bit 7 (z3 z AND 4294967280) XOR sar 21 (push_bit 13 (z3 z) XOR z3 z),
      z4 = push_bit 13 (z4 z AND 4294967168) XOR sar 12 (push_bit 3 (z4 z) XOR z4 z)\<rparr>"

text \<open>The remainder of C, which has the sign of the dividend.\<close>

definition crem :: "int \<Rightarrow> int \<Rightarrow> int" where
  "crem a b = (if a < 0 then - ((- a) mod b) else a mod b)"

definition random :: "int \<Rightarrow> 'a ptable_scheme \<Rightarrow> int \<times> 'a ptable_scheme" where
  "random mx s =
     (if mx \<le> 0 then (1, s)
      else let z = next_rng (rng s);
               r = crem (sint (z1 z XOR z2 z XOR z3 z XOR z4 z)) mx
           in (if r < 0 then r * (- 1) else r, s\<lparr>rng := z\<rparr>))"

section \<open>Choosing a process\<close>

fun ticket_scan :: "nat list \<Rightarrow> int \<Rightarrow> ('a ptable_scheme, int) kop" where
  "ticket_scan [] tot = kret tot"
| "ticket_scan (p # ps) tot =
     kthen (acquire (LProc p)) (\<lambda>_. kthen (kget (\<lambda>s. procs s p)) (\<lambda>q. kthen (release (LProc p)) (\<lambda>_.
       ticket_scan ps (if pstate q = RUNNABLE then tot + tickets q else tot))))"

definition totalTickets :: "('a ptable_scheme, int) kop" where
  "totalTickets = ticket_scan [0..<NPROC] 0"

fun highest :: "nat list \<Rightarrow> nat \<Rightarrow> ('a ptable_scheme, nat) kop" where
  "highest [] highP = kret highP"
| "highest (p1 # ps) highP =
     kthen (acquire (LProc p1)) (\<lambda>_. kthen (kget procs) (\<lambda>ptab. kthen (release (LProc p1)) (\<lambda>_.
       highest ps (if pstate (ptab p1) = RUNNABLE \<and> priority (ptab highP) > priority (ptab p1)
                   then p1 else highP))))"

text \<open>
  \<open>findReadyProcess\<close>: \<open>ix\<close> holds the three indices; without \<open>break\<close>, the case of a
  priority is followed by the cases of the lower ones.
\<close>

fun find_cases :: "nat \<Rightarrow> u32 \<Rightarrow> nat list \<Rightarrow> (nat \<Rightarrow> nat) \<Rightarrow> ('a ptable_scheme, (nat \<times> (nat \<Rightarrow> nat)) option) kop" where
  "find_cases i prio [] ix = kret None"
| "find_cases i prio (k # ks) ix =
     (let p = (ix k + i) mod NPROC
      in kthen (acquire (LProc p)) (\<lambda>_. kthen (kget (\<lambda>s. procs s p)) (\<lambda>q. kthen (release (LProc p)) (\<lambda>_.
           if pstate q = RUNNABLE \<and> priority q = int (unat prio)
           then kret (Some (p, ix(k := (ix k + 1 + i) mod NPROC)))
           else find_cases i prio ks ix))))"

definition cases_from :: "u32 \<Rightarrow> nat list" where
  "cases_from prio = (if prio = 1 then [1, 2, 3] else if prio = 2 then [2, 3] else if prio = 3 then [3] else [])"

fun find_at :: "nat list \<Rightarrow> u32 \<Rightarrow> (nat \<Rightarrow> nat) \<Rightarrow> ('a ptable_scheme, (nat \<times> (nat \<Rightarrow> nat)) option) kop" where
  "find_at [] prio ix = kret None"
| "find_at (i # is) prio ix =
     kthen (find_cases i prio (cases_from prio) ix) (\<lambda>r. case r of
       Some x \<Rightarrow> kret (Some x) | None \<Rightarrow> find_at is prio ix)"

function findReadyProcess :: "(nat \<Rightarrow> nat) \<Rightarrow> u32 \<Rightarrow> ('a ptable_scheme, nat option) kop" where
  "findReadyProcess ix prio s =
     kthen (find_at [0..<NPROC] prio ix) (\<lambda>r s1. case r of
       Some (p, ix') \<Rightarrow> Ret (Some p, s1)
     | None \<Rightarrow> if prio = 3 then Ret (None, s1) else findReadyProcess ix (prio + 1) s1) s"
  by pat_completeness auto

lemma prio_less: "prio \<noteq> 3 \<Longrightarrow> unat (3 - (prio + 1)) < unat (3 - (prio :: u32))"
proof -
  assume "prio \<noteq> 3"
  then have "3 - prio \<noteq> 0" by simp
  then have "unat (3 - prio - 1) < unat (3 - prio)" by (rule measure_unat)
  then show ?thesis by (simp add: algebra_simps)
qed

termination findReadyProcess
  by (relation "measure (\<lambda>(ix, prio, s). unat (3 - prio))") (auto dest: prio_less)

declare findReadyProcess.simps [simp del]

text \<open>The lock of \<open>p\<close> is held. The result is the process to consider, or \<open>None\<close> after \<open>continue\<close>.\<close>

definition skip :: "nat \<Rightarrow> ('a ptable_scheme, nat option) kop" where
  "skip p = kthen (release (LProc p)) (\<lambda>_. kret None)"

definition if_runnable :: "nat \<Rightarrow> ('a ptable_scheme, nat option) kop \<Rightarrow> ('a ptable_scheme, nat option) kop" where
  "if_runnable p op = kthen (kget (\<lambda>s. pstate (procs s p))) (\<lambda>st. if st \<noteq> RUNNABLE then skip p else op)"

definition fcfs_pick :: "nat \<Rightarrow> (nat \<Rightarrow> proc) \<Rightarrow> nat" where
  "fcfs_pick p ptab =
     (let minP = None;
          minP = (if pid (ptab p) > 1
                  then (case minP of Some m \<Rightarrow> if ctime (ptab p) < ctime (ptab m) then Some p else minP
                                   | None \<Rightarrow> Some p)
                  else minP)
      in case minP of Some m \<Rightarrow> if pstate (ptab m) = RUNNABLE then m else p | None \<Rightarrow> p)"

definition pick_proc :: "nat \<Rightarrow> ('a ptable_scheme, nat option) kop" where
  "pick_proc p s =
     (case policy s of
        NOPOLICY \<Rightarrow> Ret (Some p, s)
      | DEFAULT \<Rightarrow> if_runnable p (kret (Some p)) s
      | PRIORITY \<Rightarrow> if_runnable p (kthen (highest [0..<NPROC] p) (\<lambda>h. kret (Some h))) s
      | FCFS \<Rightarrow> if_runnable p (kthen (kget procs) (\<lambda>ptab. kret (Some (fcfs_pick p ptab)))) s
      | LOTTERY \<Rightarrow>
          if_runnable p (kthen totalTickets (\<lambda>totalT s1.
            case (if totalT > 0 \<or> (- 1 :: int) \<le> 0 then random totalT s1 else (- 1, s1)) of (draw, s2) \<Rightarrow>
              if draw - tickets (procs s2 p) \<ge> 0 then skip p s2 else Ret (Some p, s2))) s
      | SML \<Rightarrow>
          kthen (findReadyProcess (\<lambda>_. 0) 1) (\<lambda>r. case r of
            Some f \<Rightarrow> kret (Some f) | None \<Rightarrow> if_runnable p (kret (Some p))) s)"

section \<open>The scheduler\<close>

text \<open>
  One iteration from process \<open>p\<close>. The result is the value of the loop variable, and whether
  the hart now runs that process.
\<close>

definition sched_iter :: "nat \<Rightarrow> ('a ptable_scheme, nat \<times> bool) kop" where
  "sched_iter p =
     kthen (acquire (LProc p)) (\<lambda>_. kthen (pick_proc p) (\<lambda>r. case r of
       None \<Rightarrow> kret (p, False)
     | Some q \<Rightarrow>
         kthen (kget (\<lambda>s. pstate (procs s q))) (\<lambda>st.
           if st = RUNNABLE
           then kthen (kmod (set_cpu (\<lambda>c. c\<lparr>cproc := Some q\<rparr>))) (\<lambda>_.
                kthen (kmod (set_proc q (\<lambda>r. r\<lparr>pstate := RUNNING\<rparr>))) (\<lambda>_. kret (q, True)))
           else kthen (release (LProc q)) (\<lambda>_. kret (q, False)))))"

definition sched_back :: "nat \<Rightarrow> ('a ptable_scheme, unit) kop" where
  "sched_back q = kthen (kmod (set_cpu (\<lambda>c. c\<lparr>cproc := None\<rparr>))) (\<lambda>_. release (LProc q))"

text \<open>
  The loop until it switches to a process or reaches the end of the table; at the end the
  outer loop enables interrupts and starts over. \<open>Diverge\<close> marks a loop variable that moves
  backwards without a switch.
\<close>

function sched_from :: "nat \<Rightarrow> ('a ptable_scheme, nat option) kop" where
  "sched_from p s =
     (if p < NPROC
      then kthen (sched_iter p) (\<lambda>(q, running) s1.
             if running then Ret (Some q, s1)
             else if p < Suc q then sched_from (Suc q) s1 else Diverge) s
      else Ret (None, s))"
  by pat_completeness auto
termination
  by (relation "measure (\<lambda>(p, s). NPROC - p)") auto

declare sched_from.simps [simp del]

definition scheduler_round :: "('a ptable_scheme, nat option) kop" where
  "scheduler_round = kthen (kmod intr_on) (\<lambda>_. sched_from 0)"

end
