(* ===== verification/Process.thy ===== *)
theory Process
  imports File Scheduler
begin

text \<open>
  The operations of \<open>kernel/proc.c\<close> that use open files and the file system, and the access of
  system calls to their arguments in \<open>kernel/syscall.c\<close>.
\<close>

definition null_deref :: "('s, 'a) kop" where
  "null_deref = kpanic ''kerneltrap''"

text \<open>\<open>safestrcpy\<close> into a buffer of \<open>n\<close> bytes, as byte lists.\<close>

definition safe_copy :: "nat \<Rightarrow> u8 list \<Rightarrow> u8 list \<Rightarrow> u8 list" where
  "safe_copy n src dst = (let t = take (n - 1) (cstr src) in t @ [0] @ drop (Suc (length t)) dst)"

text \<open>\<open>namei\<close>, \<open>nameiparent\<close> in the current directory of the running process.\<close>

definition in_cwd :: "(nat \<Rightarrow> u8 list \<Rightarrow> ('a kernel_scheme, 'b) kop) \<Rightarrow> u8 list \<Rightarrow> ('a kernel_scheme, 'b) kop" where
  "in_cwd op path =
     (if path \<noteq> [] \<and> hd path = slash then fs_call (op 0 path)
      else kthen curproc (\<lambda>p. kthen (kget (\<lambda>s. cwd (procs s p))) (\<lambda>c. case c of
             Some d \<Rightarrow> fs_call (op d path) | None \<Rightarrow> null_deref)))"

section \<open>Creating processes\<close>

definition initcode :: "u8 list" where
  "initcode = [
    0x17, 0x05, 0x00, 0x00, 0x13, 0x05, 0x45, 0x02,
    0x97, 0x05, 0x00, 0x00, 0x93, 0x85, 0x35, 0x02,
    0x93, 0x08, 0x70, 0x00, 0x73, 0x00, 0x00, 0x00,
    0x93, 0x08, 0x20, 0x00, 0x73, 0x00, 0x00, 0x00,
    0xef, 0xf0, 0x9f, 0xff, 0x2f, 0x69, 0x6e, 0x69,
    0x74, 0x00, 0x00, 0x24, 0x00, 0x00, 0x00, 0x00,
    0x00, 0x00, 0x00, 0x00]"

definition userinit :: "('a kernel_scheme, unit) kop" where
  "userinit =
     kthen allocproc (\<lambda>r. kthen (kmod (\<lambda>s. s\<lparr>initproc := r\<rparr>)) (\<lambda>_. case r of None \<Rightarrow> null_deref
     | Some p \<Rightarrow>
         kthen (kget (\<lambda>s. pagetable (procs s p))) (\<lambda>pt. kthen (km_do (uvmfirst pt initcode)) (\<lambda>_.
         kthen (kmod (set_proc p (\<lambda>q. q\<lparr>sz := PGSIZE\<rparr>))) (\<lambda>_.
         kthen (kmod (tf_set p Epc 0)) (\<lambda>_. kthen (kmod (tf_set p Sp PGSIZE)) (\<lambda>_.
         kthen (kmod (set_proc p (\<lambda>q. q\<lparr>tickets := DEFAULT_TICKETS,
                        pname := safe_copy 16 (bytes_of ''initcode'') (pname q)\<rparr>))) (\<lambda>_.
         kthen (in_cwd namei (bytes_of ''/'')) (\<lambda>d.
         kthen (kmod (set_proc p (\<lambda>q. q\<lparr>cwd := d, pstate := RUNNABLE\<rparr>))) (\<lambda>_.
         release (LProc p)))))))))))"

definition dup_file :: "nat \<Rightarrow> nat \<Rightarrow> nat \<Rightarrow> ('a kernel_scheme, unit) kop" where
  "dup_file p np i s =
     (case ofile (procs s p) ! i of None \<Rightarrow> Ret ((), s)
      | Some f \<Rightarrow> kthen (filedup f) (\<lambda>f'. kmod (set_proc np (\<lambda>q. q\<lparr>ofile := (ofile q)[i := Some f']\<rparr>))) s)"

text \<open>The part of \<open>fork\<close> after the user memory has been copied.\<close>

definition fork_child :: "nat \<Rightarrow> nat \<Rightarrow> ('a kernel_scheme, int) kop" where
  "fork_child p np =
     kthen (kmod (\<lambda>s. set_proc np (\<lambda>q. q\<lparr>sz := sz (procs s p)\<rparr>) s)) (\<lambda>_.
     kthen (kmod (\<lambda>s. s\<lparr>km := (km s)\<lparr>phys := write_bytes (phys (km s)) (trapframe (procs s np))
             (read_bytes (phys (km s)) (trapframe (procs s p)) TRAPFRAME_SIZE)\<rparr>\<rparr>)) (\<lambda>_.
     kthen (kmod (\<lambda>s. set_proc np (\<lambda>q. q\<lparr>tickets := tickets (procs s p), priority := priority (procs s p)\<rparr>) s)) (\<lambda>_.
     kthen (kmod (tf_set np A0 0)) (\<lambda>_. kthen (kfor [0..<NOFILE] (dup_file p np)) (\<lambda>_.
     kthen (kget (\<lambda>s. cwd (procs s p))) (\<lambda>d. case d of None \<Rightarrow> null_deref | Some d \<Rightarrow>
       kthen (kmod (idup d)) (\<lambda>_.
       kthen (kmod (\<lambda>s. set_proc np (\<lambda>q. q\<lparr>cwd := Some d, pname := safe_copy 16 (pname (procs s p)) (pname q)\<rparr>) s)) (\<lambda>_.
       kthen (kget (\<lambda>s. pid (procs s np))) (\<lambda>n. kthen (release (LProc np)) (\<lambda>_.
       kthen (acquire LWait) (\<lambda>_. kthen (kmod (set_proc np (\<lambda>q. q\<lparr>parent := Some p\<rparr>))) (\<lambda>_.
       kthen (release LWait) (\<lambda>_. kthen (acquire (LProc np)) (\<lambda>_.
       kthen (kmod (set_proc np (\<lambda>q. q\<lparr>pstate := RUNNABLE\<rparr>))) (\<lambda>_. kthen (release (LProc np)) (\<lambda>_.
       kret n))))))))))))))))"

definition fork :: "('a kernel_scheme, int) kop" where
  "fork =
     kthen curproc (\<lambda>p. kthen allocproc (\<lambda>r. case r of None \<Rightarrow> kret (- 1)
     | Some np \<Rightarrow>
         kthen (kget procs) (\<lambda>ptab.
         kthen (on_km (uvmcopy (pagetable (ptab p)) (pagetable (ptab np)) (sz (ptab p)))) (\<lambda>r.
           if r < 0 then kthen (freeproc np) (\<lambda>_. kthen (release (LProc np)) (\<lambda>_. kret (- 1)))
           else fork_child p np))))"

section \<open>Exiting\<close>

definition close_fd :: "nat \<Rightarrow> nat \<Rightarrow> ('a kernel_scheme, unit) kop" where
  "close_fd p fd s =
     (case ofile (procs s p) ! fd of None \<Rightarrow> Ret ((), s)
      | Some f \<Rightarrow> kthen (fileclose f) (\<lambda>_. kmod (set_proc p (\<lambda>q. q\<lparr>ofile := (ofile q)[fd := None]\<rparr>))) s)"

text \<open>The process switches away for the last time; \<open>panic("zombie exit")\<close> is behind that switch.\<close>

definition exit :: "int \<Rightarrow> ('a kernel_scheme, unit) kop" where
  "exit status =
     kthen curproc (\<lambda>p. kthen (kget initproc) (\<lambda>ini.
       if ini = Some p then kpanic ''init exiting''
       else kthen (kfor [0..<NOFILE] (close_fd p)) (\<lambda>_. kthen (kget (\<lambda>s. cwd (procs s p))) (\<lambda>d.
         case d of None \<Rightarrow> null_deref | Some d \<Rightarrow>
         kthen (fs_call begin_op) (\<lambda>_. kthen (fs_call (iput d)) (\<lambda>_. kthen (fs_call end_op) (\<lambda>_.
         kthen (kmod (set_proc p (\<lambda>q. q\<lparr>cwd := None\<rparr>))) (\<lambda>_.
         kthen (acquire LWait) (\<lambda>_. kthen (reparent p) (\<lambda>_.
         kthen (kget (\<lambda>s. parent (procs s p))) (\<lambda>par. kthen (wakeup (map_option ChanProc par)) (\<lambda>_.
         kthen (acquire (LProc p)) (\<lambda>_.
         kthen (kmod (set_proc p (\<lambda>q. q\<lparr>xstate := status, pstate := ZOMBIE\<rparr>))) (\<lambda>_.
         kthen (release LWait) (\<lambda>_. sched)))))))))))))))"

section \<open>System call arguments\<close>

definition fetchaddr :: "u64 \<Rightarrow> ('a kernel_scheme, u64 option) kop" where
  "fetchaddr a =
     kthen curproc (\<lambda>p s.
       let q = procs s p
       in if a \<ge> sz q \<or> a + 8 > sz q then Ret (None, s)
          else kbind (copyin (pagetable q) a 8 (km s)) (\<lambda>(r, bs).
                 Ret (if r \<noteq> 0 then None else Some (ucast (get32 bs 0) OR push_bit 32 (ucast (get32 bs 4))), s)))"

definition fetchstr :: "u64 \<Rightarrow> nat \<Rightarrow> ('a kernel_scheme, u8 list option) kop" where
  "fetchstr a mx =
     kthen curproc (\<lambda>p s.
       kbind (copyinstr (pagetable (procs s p)) a mx (km s)) (\<lambda>(r, bs).
         Ret (if r < 0 then None else Some (cstr bs), s)))"

definition arg_reg :: "nat \<Rightarrow> tfreg option" where
  "arg_reg n = (if n < 6 then Some ([A0, A1, A2, A3, A4, A5] ! n) else None)"

definition argraw :: "nat \<Rightarrow> ('a kernel_scheme, u64) kop" where
  "argraw n =
     kthen curproc (\<lambda>p. case arg_reg n of None \<Rightarrow> kpanic ''argraw'' | Some r \<Rightarrow> kget (tf_get p r))"

definition argint :: "nat \<Rightarrow> ('a kernel_scheme, int) kop" where
  "argint n = kthen (argraw n) (\<lambda>v. kret (sint (ucast v :: u32)))"

definition argaddr :: "nat \<Rightarrow> ('a kernel_scheme, u64) kop" where
  "argaddr n = argraw n"

definition argstr :: "nat \<Rightarrow> nat \<Rightarrow> ('a kernel_scheme, u8 list option) kop" where
  "argstr n mx = kthen (argaddr n) (\<lambda>a. fetchstr a mx)"

end
