(* ===== verification/Exec.thy ===== *)
theory Exec
  imports Process
begin

text \<open>\<open>kernel/exec.c\<close>: loading a program image. Argument strings are byte lists.\<close>

definition MAXARG :: nat where "MAXARG = 32"
definition ELF_MAGIC :: u32 where "ELF_MAGIC = 0x464C457F"
definition ELF_PROG_LOAD :: u32 where "ELF_PROG_LOAD = 1"

definition get64 :: "u8 list \<Rightarrow> nat \<Rightarrow> u64" where
  "get64 bs i = ucast (get32 bs i) OR push_bit 32 (ucast (get32 bs (i + 4)))"

definition put64 :: "u64 \<Rightarrow> u8 list" where
  "put64 v = put32 (replicate 4 0) 0 (ucast v) @ put32 (replicate 4 0) 0 (ucast (drop_bit 32 v))"

record elfhdr =
  elf_magic :: u32
  elf_entry :: u64
  elf_phoff :: u64
  elf_phnum :: u16

definition elf_of :: "u8 list \<Rightarrow> elfhdr" where
  "elf_of bs = \<lparr>elf_magic = get32 bs 0, elf_entry = get64 bs 24, elf_phoff = get64 bs 32, elf_phnum = get16 bs 56\<rparr>"

record proghdr =
  ph_type :: u32
  ph_flags :: u32
  ph_off :: u64
  ph_vaddr :: u64
  ph_filesz :: u64
  ph_memsz :: u64

definition ph_of :: "u8 list \<Rightarrow> proghdr" where
  "ph_of bs = \<lparr>ph_type = get32 bs 0, ph_flags = get32 bs 4, ph_off = get64 bs 8, ph_vaddr = get64 bs 16,
     ph_filesz = get64 bs 32, ph_memsz = get64 bs 40\<rparr>"

definition flags2perm :: "u32 \<Rightarrow> u64" where
  "flags2perm flags = (if flags AND 1 \<noteq> 0 then PTE_X else 0) OR (if flags AND 2 \<noteq> 0 then PTE_W else 0)"

section \<open>Segments\<close>

text \<open>The physical address of a page of the segment, allocated if it is not mapped; 0 on failure.\<close>

definition seg_page :: "addr \<Rightarrow> u64 \<Rightarrow> ('a kernel_scheme, addr) kop" where
  "seg_page pt va s =
     kbind (walkaddr pt va (km s)) (\<lambda>pa.
       if pa \<noteq> 0 then Ret (pa, s)
       else kthen (km_fn kalloc) (\<lambda>mem.
              if mem = 0 then kret 0
              else kthen (kmod (\<lambda>s. s\<lparr>km := zero_page mem (km s)\<rparr>)) (\<lambda>_.
                   kthen (on_km (mappages pt va PGSIZE mem (PTE_W OR PTE_X OR PTE_R OR PTE_U))) (\<lambda>r.
                     if r \<noteq> 0 then kthen (km_do (kfree mem)) (\<lambda>_. kret 0) else kret mem))) s)"

text \<open>The counter \<open>i\<close> of the source has 32 bits; past its end the loop would start over.\<close>

function loadseg_loop :: "addr \<Rightarrow> u64 \<Rightarrow> nat \<Rightarrow> u32 \<Rightarrow> nat \<Rightarrow> nat \<Rightarrow> ('a kernel_scheme, int) kop" where
  "loadseg_loop pt va ip offset n i s =
     (if i < n
      then kthen (seg_page pt (va + of_nat i)) (\<lambda>pa s1.
             if pa = 0 then Ret (- 1, s1)
             else let m = min (n - i) 4096
                  in kthen (fs_call (readi ip False 0 (offset + of_nat i) (of_nat m))) (\<lambda>(r, bs) s2.
                       let s3 = s2\<lparr>km := (km s2)\<lparr>phys := write_bytes (phys (km s2)) pa bs\<rparr>\<rparr>
                       in if r \<noteq> int m then Ret (- 1, s3)
                          else if i + 4096 \<ge> 2 ^ 32 then Diverge
                          else loadseg_loop pt va ip offset n (i + 4096) s3) s1) s
      else Ret (0, s))"
  by pat_completeness auto
termination
  by (relation "measure (\<lambda>(pt, va, ip, offset, n, i, s). n - i)") auto

declare loadseg_loop.simps [simp del]

definition loadseg :: "addr \<Rightarrow> u64 \<Rightarrow> nat \<Rightarrow> u32 \<Rightarrow> u32 \<Rightarrow> ('a kernel_scheme, int) kop" where
  "loadseg pt va ip offset n = loadseg_loop pt va ip offset (unat n) 0"

text \<open>The loop over program headers: whether it succeeded, and the size so far.\<close>

fun load_segs :: "addr \<Rightarrow> nat \<Rightarrow> nat \<Rightarrow> u32 \<Rightarrow> u64 \<Rightarrow> ('a kernel_scheme, bool \<times> u64) kop" where
  "load_segs pt ip 0 off sz0 s = Ret ((True, sz0), s)"
| "load_segs pt ip (Suc k) off sz0 s =
     kthen (fs_call (readi ip False 0 off 56)) (\<lambda>(r, bs).
       if r \<noteq> 56 then kret (False, sz0)
       else let ph = ph_of bs
            in if ph_type ph \<noteq> ELF_PROG_LOAD then load_segs pt ip k (off + 56) sz0
               else if ph_memsz ph < ph_filesz ph \<or> ph_vaddr ph + ph_memsz ph < ph_vaddr ph
                       \<or> ph_vaddr ph mod PGSIZE \<noteq> 0 then kret (False, sz0)
               else let sz1 = uvmalloc pt sz0 (ph_vaddr ph + ph_memsz ph) (flags2perm (ph_flags ph))
                    in if sz1 = 0 then kret (False, sz0)
                       else kthen (loadseg pt (ph_vaddr ph) ip (ucast (ph_off ph)) (ucast (ph_filesz ph))) (\<lambda>r.
                              if r < 0 then kret (False, sz1) else load_segs pt ip k (off + 56) sz1)) s"

section \<open>The stack\<close>

text \<open>Push the strings: the new stack pointer and the addresses of the strings.\<close>

fun push_args :: "addr \<Rightarrow> u64 \<Rightarrow> u8 list list \<Rightarrow> nat \<Rightarrow> u64 \<Rightarrow> ('a kernel_scheme, (u64 \<times> u64 list) option) kop" where
  "push_args pt stackbase [] argc sp s = Ret (Some (sp, []), s)"
| "push_args pt stackbase (a # as) argc sp s =
     (if argc \<ge> MAXARG then Ret (None, s)
      else let sp1 = sp - (of_nat (length (cstr a)) + 1); sp2 = sp1 - sp1 mod 16
           in if sp2 < stackbase then Ret (None, s)
              else kthen (on_km (copyout pt sp2 (cstr a @ [0]))) (\<lambda>r.
                     if r < 0 then kret None
                     else kthen (push_args pt stackbase as (Suc argc) sp2) (\<lambda>res. case res of
                            None \<Rightarrow> kret None | Some (sp', us) \<Rightarrow> kret (Some (sp', sp2 # us)))) s)"

definition push_argv :: "addr \<Rightarrow> u64 \<Rightarrow> u64 \<Rightarrow> u64 list \<Rightarrow> ('a kernel_scheme, u64 option) kop" where
  "push_argv pt stackbase sp us =
     (let sp1 = sp - of_nat ((length us + 1) * 8); sp2 = sp1 - sp1 mod 16
      in if sp2 < stackbase then kret None
         else kthen (on_km (copyout pt sp2 (concat (map put64 (us @ [0]))))) (\<lambda>r.
                kret (if r < 0 then None else Some sp2)))"

text \<open>The part of the path after its last slash.\<close>

definition base_name :: "u8 list \<Rightarrow> u8 list" where
  "base_name path = rev (takeWhile (\<lambda>c. c \<noteq> slash) (rev path))"

section \<open>The system call\<close>

text \<open>The failure exit; \<open>ip\<close> is the locked inode, if it is still held.\<close>

definition exec_bad :: "addr \<Rightarrow> u64 \<Rightarrow> nat option \<Rightarrow> ('a kernel_scheme, int) kop" where
  "exec_bad pt sz0 ip =
     kthen (kwhen (pt \<noteq> 0) (proc_freepagetable pt sz0)) (\<lambda>_.
     kthen (case ip of None \<Rightarrow> kret ()
            | Some i \<Rightarrow> kthen (fs_call (iunlockput i)) (\<lambda>_. fs_call end_op)) (\<lambda>_. kret (- 1)))"

definition exec_commit :: "nat \<Rightarrow> addr \<Rightarrow> u64 \<Rightarrow> u64 \<Rightarrow> u64 \<Rightarrow> u8 list \<Rightarrow> u64 \<Rightarrow> ('a kernel_scheme, unit) kop" where
  "exec_commit p pt sz0 sp entry path oldsz =
     kthen (kmod (tf_set p A1 sp)) (\<lambda>_.
     kthen (kmod (set_proc p (\<lambda>q. q\<lparr>pname := safe_copy 16 (base_name path) (pname q)\<rparr>))) (\<lambda>_.
     kthen (kget (\<lambda>s. pagetable (procs s p))) (\<lambda>old.
     kthen (kmod (set_proc p (\<lambda>q. q\<lparr>pagetable := pt, sz := sz0\<rparr>))) (\<lambda>_.
     kthen (kmod (tf_set p Epc entry)) (\<lambda>_. kthen (kmod (tf_set p Sp sp)) (\<lambda>_.
     proc_freepagetable old oldsz))))))"

definition exec_stack :: "addr \<Rightarrow> u64 \<Rightarrow> u64 \<Rightarrow> u8 list \<Rightarrow> u8 list list \<Rightarrow> ('a kernel_scheme, int) kop" where
  "exec_stack pt start entry path argv =
     kthen curproc (\<lambda>p. kthen (kget (\<lambda>s. sz (procs s p))) (\<lambda>oldsz.
       let base = PGROUNDUP start; sz0 = uvmalloc pt base (base + (USERSTACK + 1) * PGSIZE) PTE_W
       in if sz0 = 0 then exec_bad pt base None
          else kthen (km_do (uvmclear pt (sz0 - (USERSTACK + 1) * PGSIZE))) (\<lambda>_.
               let stackbase = sz0 - USERSTACK * PGSIZE
               in kthen (push_args pt stackbase argv 0 sz0) (\<lambda>res. case res of
                    None \<Rightarrow> exec_bad pt sz0 None
                  | Some (sp, us) \<Rightarrow>
                      kthen (push_argv pt stackbase sp us) (\<lambda>res. case res of
                        None \<Rightarrow> exec_bad pt sz0 None
                      | Some sp' \<Rightarrow> kthen (exec_commit p pt sz0 sp' entry path oldsz) (\<lambda>_.
                          kret (int (length argv))))))))"

definition exec :: "u8 list \<Rightarrow> u8 list list \<Rightarrow> ('a kernel_scheme, int) kop" where
  "exec path argv =
     kthen curproc (\<lambda>p. kthen (fs_call begin_op) (\<lambda>_. kthen (in_cwd namei path) (\<lambda>r. case r of
       None \<Rightarrow> kthen (fs_call end_op) (\<lambda>_. kret (- 1))
     | Some ip \<Rightarrow>
         kthen (fs_call (ilock ip)) (\<lambda>_. kthen (fs_call (readi ip False 0 0 64)) (\<lambda>(r, bs).
           if r \<noteq> 64 \<or> elf_magic (elf_of bs) \<noteq> ELF_MAGIC then exec_bad 0 0 (Some ip)
           else kthen (proc_pagetable p) (\<lambda>pt.
             if pt = 0 then exec_bad 0 0 (Some ip)
             else kthen (load_segs pt ip (unat (elf_phnum (elf_of bs))) (ucast (elf_phoff (elf_of bs))) 0) (\<lambda>(ok, sz0).
               if \<not> ok then exec_bad pt sz0 (Some ip)
               else kthen (fs_call (iunlockput ip)) (\<lambda>_. kthen (fs_call end_op) (\<lambda>_.
                    exec_stack pt sz0 (elf_entry (elf_of bs)) path argv)))))))))"

end
