(* ===== verification/Sysfile.thy ===== *)
theory Sysfile
  imports Exec
begin

text \<open>\<open>kernel/sysfile.c\<close>: the system calls on files. Results are the values stored in \<open>a0\<close>.\<close>

definition MAXPATH :: nat where "MAXPATH = 128"
definition O_RDONLY :: u32 where "O_RDONLY = 0"
definition O_WRONLY :: u32 where "O_WRONLY = 1"
definition O_RDWR :: u32 where "O_RDWR = 2"
definition O_CREATE :: u32 where "O_CREATE = 0x200"
definition O_TRUNC :: u32 where "O_TRUNC = 0x400"

section \<open>File descriptors\<close>

definition argfd :: "nat \<Rightarrow> ('a kernel_scheme, (int \<times> nat) option) kop" where
  "argfd n =
     kthen (argint n) (\<lambda>fd.
       if fd < 0 \<or> fd \<ge> int NOFILE then kret None
       else kthen curproc (\<lambda>p. kthen (kget (\<lambda>s. ofile (procs s p) ! nat fd)) (\<lambda>f.
            kret (map_option (\<lambda>f. (fd, f)) f))))"

definition set_fd :: "nat \<Rightarrow> nat \<Rightarrow> nat option \<Rightarrow> 'a kernel_scheme \<Rightarrow> 'a kernel_scheme" where
  "set_fd p fd f = set_proc p (\<lambda>q. q\<lparr>ofile := (ofile q)[fd := f]\<rparr>)"

definition fdalloc :: "nat \<Rightarrow> ('a kernel_scheme, int) kop" where
  "fdalloc f =
     kthen curproc (\<lambda>p s.
       case find (\<lambda>fd. ofile (procs s p) ! fd = None) [0..<NOFILE] of
         Some fd \<Rightarrow> Ret (int fd, set_fd p fd (Some f) s)
       | None \<Rightarrow> Ret (- 1, s))"

definition sys_dup :: "('a kernel_scheme, int) kop" where
  "sys_dup =
     kthen (argfd 0) (\<lambda>r. case r of None \<Rightarrow> kret (- 1)
     | Some (_, f) \<Rightarrow> kthen (fdalloc f) (\<lambda>fd.
         if fd < 0 then kret (- 1) else kthen (filedup f) (\<lambda>_. kret fd)))"

definition sys_read :: "('a kernel_scheme, int sleepy) kop" where
  "sys_read =
     kthen (argaddr 1) (\<lambda>p. kthen (argint 2) (\<lambda>n. kthen (argfd 0) (\<lambda>r. case r of
       None \<Rightarrow> kret (Done (- 1)) | Some (_, f) \<Rightarrow> fileread f p n)))"

definition sys_write :: "('a kernel_scheme, int sleepy) kop" where
  "sys_write =
     kthen (argaddr 1) (\<lambda>p. kthen (argint 2) (\<lambda>n. kthen (argfd 0) (\<lambda>r. case r of
       None \<Rightarrow> kret (Done (- 1)) | Some (_, f) \<Rightarrow> filewrite f p n)))"

definition sys_close :: "('a kernel_scheme, int) kop" where
  "sys_close =
     kthen (argfd 0) (\<lambda>r. case r of None \<Rightarrow> kret (- 1)
     | Some (fd, f) \<Rightarrow> kthen curproc (\<lambda>p. kthen (kmod (set_fd p (nat fd) None)) (\<lambda>_.
         kthen (fileclose f) (\<lambda>_. kret 0))))"

definition sys_fstat :: "u8 list \<Rightarrow> ('a kernel_scheme, int) kop" where
  "sys_fstat pad =
     kthen (argaddr 1) (\<lambda>st. kthen (argfd 0) (\<lambda>r. case r of
       None \<Rightarrow> kret (- 1) | Some (_, f) \<Rightarrow> filestat pad f st))"

section \<open>Links\<close>

definition end_with :: "int \<Rightarrow> ('a kernel_scheme, int) kop" where
  "end_with r = kthen (fs_call end_op) (\<lambda>_. kret r)"

definition add_nlink :: "nat \<Rightarrow> u16 \<Rightarrow> ('a kernel_scheme, unit) kop" where
  "add_nlink ip d =
     kthen (kmod (set_inode ip (\<lambda>i. i\<lparr>inlink := inlink i + d\<rparr>))) (\<lambda>_. fs_call (iupdate ip))"

definition link_bad :: "nat \<Rightarrow> ('a kernel_scheme, int) kop" where
  "link_bad ip =
     kthen (fs_call (ilock ip)) (\<lambda>_. kthen (add_nlink ip (- 1)) (\<lambda>_.
     kthen (fs_call (iunlockput ip)) (\<lambda>_. end_with (- 1))))"

definition link_into :: "nat \<Rightarrow> u8 list \<Rightarrow> ('a kernel_scheme, int) kop" where
  "link_into ip new =
     kthen (in_cwd nameiparent new) (\<lambda>r. case r of None \<Rightarrow> link_bad ip
     | Some (dp, name) \<Rightarrow>
         kthen (fs_call (ilock dp)) (\<lambda>_. kthen (kget (\<lambda>s. (inodes s dp, inodes s ip))) (\<lambda>(d, i).
         kthen (if idev d \<noteq> idev i then kret (- 1) else fs_call (dirlink dp name (inum i))) (\<lambda>r.
           if r < 0 then kthen (fs_call (iunlockput dp)) (\<lambda>_. link_bad ip)
           else kthen (fs_call (iunlockput dp)) (\<lambda>_. kthen (fs_call (iput ip)) (\<lambda>_. end_with 0))))))"

definition sys_link :: "('a kernel_scheme, int) kop" where
  "sys_link =
     kthen (argstr 0 MAXPATH) (\<lambda>r. case r of None \<Rightarrow> kret (- 1) | Some old \<Rightarrow>
     kthen (argstr 1 MAXPATH) (\<lambda>r. case r of None \<Rightarrow> kret (- 1) | Some new \<Rightarrow>
     kthen (fs_call begin_op) (\<lambda>_. kthen (in_cwd namei old) (\<lambda>r. case r of None \<Rightarrow> end_with (- 1)
     | Some ip \<Rightarrow>
         kthen (fs_call (ilock ip)) (\<lambda>_. kthen (kget (\<lambda>s. itype (inodes s ip))) (\<lambda>t.
           if t = T_DIR then kthen (fs_call (iunlockput ip)) (\<lambda>_. end_with (- 1))
           else kthen (add_nlink ip 1) (\<lambda>_. kthen (fs_call (iunlock ip)) (\<lambda>_. link_into ip new)))))))) "

text \<open>The entries after \<open>.\<close> and \<open>..\<close>.\<close>

fun dirempty_scan :: "nat \<Rightarrow> u32 list \<Rightarrow> ('a fsys_scheme, bool) kop" where
  "dirempty_scan dp [] s = Ret (True, s)"
| "dirempty_scan dp (off # offs) s =
     kthen (readi dp False 0 off DIRENT) (\<lambda>(n, de).
       if n \<noteq> 16 then kpanic ''isdirempty: readi''
       else if get16 de 0 \<noteq> 0 then kret False else dirempty_scan dp offs) s"

definition isdirempty :: "nat \<Rightarrow> ('a fsys_scheme, bool) kop" where
  "isdirempty dp s = dirempty_scan dp (drop 2 (dir_offs (isize (inodes s dp)))) s"

definition unlink_bad :: "nat \<Rightarrow> ('a kernel_scheme, int) kop" where
  "unlink_bad dp = kthen (fs_call (iunlockput dp)) (\<lambda>_. end_with (- 1))"

definition unlink_entry :: "nat \<Rightarrow> nat \<Rightarrow> u32 \<Rightarrow> ('a kernel_scheme, int) kop" where
  "unlink_entry dp ip off =
     kthen (fs_call (ilock ip)) (\<lambda>_. kthen (kget (\<lambda>s. inodes s ip)) (\<lambda>i.
       if sint (inlink i) < 1 then kpanic ''unlink: nlink < 1''
       else kthen (if itype i = T_DIR then fs_call (isdirempty ip) else kret True) (\<lambda>empty.
         if \<not> empty then kthen (fs_call (iunlockput ip)) (\<lambda>_. unlink_bad dp)
         else kthen (fs_call (writei dp False 0 (replicate 16 0) off DIRENT)) (\<lambda>n.
           if n \<noteq> 16 then kpanic ''unlink: writei''
           else kthen (kwhen (itype i = T_DIR) (add_nlink dp (- 1))) (\<lambda>_.
                kthen (fs_call (iunlockput dp)) (\<lambda>_. kthen (add_nlink ip (- 1)) (\<lambda>_.
                kthen (fs_call (iunlockput ip)) (\<lambda>_. end_with 0))))))))"

definition sys_unlink :: "('a kernel_scheme, int) kop" where
  "sys_unlink =
     kthen (argstr 0 MAXPATH) (\<lambda>r. case r of None \<Rightarrow> kret (- 1) | Some path \<Rightarrow>
     kthen (fs_call begin_op) (\<lambda>_. kthen (in_cwd nameiparent path) (\<lambda>r. case r of None \<Rightarrow> end_with (- 1)
     | Some (dp, name) \<Rightarrow>
         kthen (fs_call (ilock dp)) (\<lambda>_.
           if namecmp name (bytes_of ''.'') = 0 \<or> namecmp name (bytes_of ''..'') = 0 then unlink_bad dp
           else kthen (fs_call (dirlookup dp name)) (\<lambda>r. case r of None \<Rightarrow> unlink_bad dp
             | Some (ip, off) \<Rightarrow> unlink_entry dp ip off)))))"

section \<open>Creating and opening\<close>

definition create_fail :: "nat \<Rightarrow> nat \<Rightarrow> ('a kernel_scheme, nat option) kop" where
  "create_fail dp ip =
     kthen (kmod (set_inode ip (\<lambda>i. i\<lparr>inlink := 0\<rparr>))) (\<lambda>_. kthen (fs_call (iupdate ip)) (\<lambda>_.
     kthen (fs_call (iunlockput ip)) (\<lambda>_. kthen (fs_call (iunlockput dp)) (\<lambda>_. kret None))))"

definition link_dots :: "nat \<Rightarrow> nat \<Rightarrow> ('a kernel_scheme, int) kop" where
  "link_dots dp ip =
     kthen (kget (\<lambda>s. (inum (inodes s ip), inum (inodes s dp)))) (\<lambda>(i, d).
     kthen (fs_call (dirlink ip (bytes_of ''.'') i)) (\<lambda>r.
       if r < 0 then kret (- 1) else fs_call (dirlink ip (bytes_of ''..'') d)))"

definition create_new :: "nat \<Rightarrow> u8 list \<Rightarrow> u16 \<Rightarrow> u16 \<Rightarrow> u16 \<Rightarrow> nat \<Rightarrow> ('a kernel_scheme, nat option) kop" where
  "create_new dp name type major minor ip =
     kthen (fs_call (ilock ip)) (\<lambda>_.
     kthen (kmod (set_inode ip (\<lambda>i. i\<lparr>imajor := major, iminor := minor, inlink := 1\<rparr>))) (\<lambda>_.
     kthen (fs_call (iupdate ip)) (\<lambda>_.
     kthen (if type = T_DIR then link_dots dp ip else kret 0) (\<lambda>r.
       if r < 0 then create_fail dp ip
       else kthen (kget (\<lambda>s. inum (inodes s ip))) (\<lambda>i. kthen (fs_call (dirlink dp name i)) (\<lambda>r.
         if r < 0 then create_fail dp ip
         else kthen (kwhen (type = T_DIR) (add_nlink dp 1)) (\<lambda>_.
              kthen (fs_call (iunlockput dp)) (\<lambda>_. kret (Some ip)))))))))"

definition create :: "u8 list \<Rightarrow> u16 \<Rightarrow> u16 \<Rightarrow> u16 \<Rightarrow> ('a kernel_scheme, nat option) kop" where
  "create path type major minor =
     kthen (in_cwd nameiparent path) (\<lambda>r. case r of None \<Rightarrow> kret None
     | Some (dp, name) \<Rightarrow>
         kthen (fs_call (ilock dp)) (\<lambda>_. kthen (fs_call (dirlookup dp name)) (\<lambda>r. case r of
           Some (ip, _) \<Rightarrow>
             kthen (fs_call (iunlockput dp)) (\<lambda>_. kthen (fs_call (ilock ip)) (\<lambda>_.
             kthen (kget (\<lambda>s. itype (inodes s ip))) (\<lambda>t.
               if type = T_FILE \<and> (t = T_FILE \<or> t = T_DEVICE) then kret (Some ip)
               else kthen (fs_call (iunlockput ip)) (\<lambda>_. kret None))))
         | None \<Rightarrow>
             kthen (kget (\<lambda>s. idev (inodes s dp))) (\<lambda>dev. kthen (fs_call (ialloc dev type)) (\<lambda>r. case r of
               None \<Rightarrow> kthen (fs_call (iunlockput dp)) (\<lambda>_. kret None)
             | Some ip \<Rightarrow> create_new dp name type major minor ip)))))"

definition open_inode :: "u8 list \<Rightarrow> u32 \<Rightarrow> ('a kernel_scheme, nat option) kop" where
  "open_inode path omode =
     (if omode AND O_CREATE \<noteq> 0 then create path T_FILE 0 0
      else kthen (in_cwd namei path) (\<lambda>r. case r of None \<Rightarrow> kret None
        | Some ip \<Rightarrow> kthen (fs_call (ilock ip)) (\<lambda>_. kthen (kget (\<lambda>s. itype (inodes s ip))) (\<lambda>t.
            if t = T_DIR \<and> omode \<noteq> O_RDONLY then kthen (fs_call (iunlockput ip)) (\<lambda>_. kret None)
            else kret (Some ip)))))"

definition open_bad :: "nat \<Rightarrow> ('a kernel_scheme, int) kop" where
  "open_bad ip = kthen (fs_call (iunlockput ip)) (\<lambda>_. end_with (- 1))"

definition open_file :: "nat \<Rightarrow> nat \<Rightarrow> int \<Rightarrow> u32 \<Rightarrow> ('a kernel_scheme, int) kop" where
  "open_file ip f fd omode =
     kthen (kget (\<lambda>s. inodes s ip)) (\<lambda>i.
     kthen (kmod (set_file f (\<lambda>x. if itype i = T_DEVICE then x\<lparr>ftype := FD_DEVICE, fmajor := imajor i\<rparr>
                                  else x\<lparr>ftype := FD_INODE, foff := 0\<rparr>))) (\<lambda>_.
     kthen (kmod (set_file f (\<lambda>x. x\<lparr>fip := ip, readable := (omode AND O_WRONLY = 0),
                                     writable := (omode AND O_WRONLY \<noteq> 0 \<or> omode AND O_RDWR \<noteq> 0)\<rparr>))) (\<lambda>_.
     kthen (kwhen (omode AND O_TRUNC \<noteq> 0 \<and> itype i = T_FILE) (fs_call (itrunc ip))) (\<lambda>_.
     kthen (fs_call (iunlock ip)) (\<lambda>_. end_with fd)))))"

definition sys_open :: "('a kernel_scheme, int) kop" where
  "sys_open =
     kthen (argint 1) (\<lambda>om. kthen (argstr 0 MAXPATH) (\<lambda>r. case r of None \<Rightarrow> kret (- 1) | Some path \<Rightarrow>
     kthen (fs_call begin_op) (\<lambda>_. kthen (open_inode path (of_int om)) (\<lambda>r. case r of None \<Rightarrow> end_with (- 1)
     | Some ip \<Rightarrow>
         kthen (kget (\<lambda>s. inodes s ip)) (\<lambda>i.
           if itype i = T_DEVICE \<and> (sint (imajor i) < 0 \<or> sint (imajor i) \<ge> NDEV) then open_bad ip
           else kthen filealloc (\<lambda>r. case r of None \<Rightarrow> open_bad ip
             | Some f \<Rightarrow> kthen (fdalloc f) (\<lambda>fd.
                 if fd < 0 then kthen (fileclose f) (\<lambda>_. open_bad ip)
                 else open_file ip f fd (of_int om))))))))"

section \<open>Directories, devices and pipes\<close>

definition finish_create :: "nat option \<Rightarrow> ('a kernel_scheme, int) kop" where
  "finish_create r = (case r of None \<Rightarrow> end_with (- 1)
     | Some ip \<Rightarrow> kthen (fs_call (iunlockput ip)) (\<lambda>_. end_with 0))"

definition sys_mkdir :: "('a kernel_scheme, int) kop" where
  "sys_mkdir =
     kthen (fs_call begin_op) (\<lambda>_. kthen (argstr 0 MAXPATH) (\<lambda>r. case r of None \<Rightarrow> end_with (- 1)
     | Some path \<Rightarrow> kthen (create path T_DIR 0 0) finish_create))"

definition sys_mknod :: "('a kernel_scheme, int) kop" where
  "sys_mknod =
     kthen (fs_call begin_op) (\<lambda>_. kthen (argint 1) (\<lambda>major. kthen (argint 2) (\<lambda>minor.
     kthen (argstr 0 MAXPATH) (\<lambda>r. case r of None \<Rightarrow> end_with (- 1)
     | Some path \<Rightarrow> kthen (create path T_DEVICE (of_int major) (of_int minor)) finish_create))))"

definition sys_chdir :: "('a kernel_scheme, int) kop" where
  "sys_chdir =
     kthen curproc (\<lambda>p. kthen (fs_call begin_op) (\<lambda>_. kthen (argstr 0 MAXPATH) (\<lambda>r. case r of
       None \<Rightarrow> end_with (- 1)
     | Some path \<Rightarrow> kthen (in_cwd namei path) (\<lambda>r. case r of None \<Rightarrow> end_with (- 1)
     | Some ip \<Rightarrow>
         kthen (fs_call (ilock ip)) (\<lambda>_. kthen (kget (\<lambda>s. itype (inodes s ip))) (\<lambda>t.
           if t \<noteq> T_DIR then kthen (fs_call (iunlockput ip)) (\<lambda>_. end_with (- 1))
           else kthen (fs_call (iunlock ip)) (\<lambda>_. kthen (kget (\<lambda>s. cwd (procs s p))) (\<lambda>d.
                kthen (case d of None \<Rightarrow> null_deref | Some d \<Rightarrow> fs_call (iput d)) (\<lambda>_.
                kthen (fs_call end_op) (\<lambda>_.
                kthen (kmod (set_proc p (\<lambda>q. q\<lparr>cwd := Some ip\<rparr>))) (\<lambda>_. kret 0)))))))))))"

text \<open>The argument strings of \<open>exec\<close>, each in a page of its own; \<open>None\<close> is the exit \<open>bad\<close>.\<close>

fun fetch_argv :: "nat \<Rightarrow> nat \<Rightarrow> u64 \<Rightarrow> ('a kernel_scheme, addr list \<times> u8 list list option) kop" where
  "fetch_argv 0 i uargv s = Ret (([], None), s)"
| "fetch_argv (Suc k) i uargv s =
     kthen (fetchaddr (uargv + 8 * of_nat i)) (\<lambda>r. case r of None \<Rightarrow> kret ([], None)
     | Some uarg \<Rightarrow>
         if uarg = 0 then kret ([], Some [])
         else kthen (km_fn kalloc) (\<lambda>pg.
           if pg = 0 then kret ([], None)
           else kthen (fetchstr uarg 4096) (\<lambda>r. case r of None \<Rightarrow> kret ([pg], None)
             | Some arg \<Rightarrow>
                 kthen (kmod (\<lambda>s. s\<lparr>km := (km s)\<lparr>phys := write_bytes (phys (km s)) pg (arg @ [0])\<rparr>\<rparr>)) (\<lambda>_.
                 kthen (fetch_argv k (Suc i) uargv) (\<lambda>(pgs, as).
                   kret (pg # pgs, map_option (Cons arg) as)))))) s"

definition sys_exec :: "('a kernel_scheme, int) kop" where
  "sys_exec =
     kthen (argaddr 1) (\<lambda>uargv. kthen (argstr 0 MAXPATH) (\<lambda>r. case r of None \<Rightarrow> kret (- 1)
     | Some path \<Rightarrow>
         kthen (fetch_argv MAXARG 0 uargv) (\<lambda>(pgs, as).
         kthen (case as of None \<Rightarrow> kret (- 1) | Some argv \<Rightarrow> exec path argv) (\<lambda>ret.
         kthen (kfor pgs (\<lambda>pg. km_do (kfree pg))) (\<lambda>_. kret ret)))))"

definition close_both :: "nat \<Rightarrow> nat \<Rightarrow> ('a kernel_scheme, int) kop" where
  "close_both rfile wfile = kthen (fileclose rfile) (\<lambda>_. kthen (fileclose wfile) (\<lambda>_. kret (- 1)))"

definition sys_pipe :: "('a kernel_scheme, int) kop" where
  "sys_pipe =
     kthen curproc (\<lambda>p. kthen (argaddr 0) (\<lambda>fdarray. kthen pipealloc (\<lambda>r. case r of None \<Rightarrow> kret (- 1)
     | Some (rfile, wfile) \<Rightarrow> kthen (fdalloc rfile) (\<lambda>fd0.
         if fd0 < 0 then close_both rfile wfile
         else kthen (fdalloc wfile) (\<lambda>fd1.
           if fd1 < 0 then kthen (kmod (set_fd p (nat fd0) None)) (\<lambda>_. close_both rfile wfile)
           else kthen (kget (\<lambda>s. pagetable (procs s p))) (\<lambda>pt.
                kthen (on_km (copyout pt fdarray (int_bytes fd0))) (\<lambda>r0.
                kthen (if r0 < 0 then kret r0 else on_km (copyout pt (fdarray + 4) (int_bytes fd1))) (\<lambda>r1.
                  if r1 < 0
                  then kthen (kmod (set_fd p (nat fd0) None)) (\<lambda>_. kthen (kmod (set_fd p (nat fd1) None)) (\<lambda>_.
                       close_both rfile wfile))
                  else kret 0))))))))"

end
