(* ===== verification/Sysproc.thy ===== *)
theory Sysproc
  imports Sysfile
begin

text \<open>\<open>kernel/sysproc.c\<close> and the dispatch of \<open>kernel/syscall.c\<close>.\<close>

section \<open>Process system calls\<close>

definition sys_exit :: "('a kernel_scheme, unit) kop" where
  "sys_exit = kthen (argint 0) exit"

definition sys_getpid :: "('a kernel_scheme, int) kop" where
  "sys_getpid = kthen curproc (\<lambda>p. kget (\<lambda>s. pid (procs s p)))"

definition sys_wait :: "('a kernel_scheme, int sleepy) kop" where
  "sys_wait = kthen (argaddr 0) wait"

definition sys_sbrk :: "('a kernel_scheme, u64) kop" where
  "sys_sbrk =
     kthen (argint 0) (\<lambda>n. kthen curproc (\<lambda>p. kthen (kget (\<lambda>s. sz (procs s p))) (\<lambda>a.
     kthen (growproc n) (\<lambda>r. kret (if r < 0 then - 1 else a)))))"

text \<open>One test of the loop of \<open>sys_sleep\<close>; asleep, it carries \<open>ticks0\<close>.\<close>

definition sleep_iter :: "int \<Rightarrow> u32 \<Rightarrow> ('a kernel_scheme, int sleepy) kop" where
  "sleep_iter n ticks0 s =
     (if ticks s - ticks0 < of_int n
      then kthen curproc (\<lambda>p. kthen (killed p) (\<lambda>k.
             if k then kthen (release LTicks) (\<lambda>_. kret (Done (- 1)))
             else kthen (sleep (Some ChanTicks) LTicks) (\<lambda>_. kret (Asleep (unat ticks0))))) s
      else kthen (release LTicks) (\<lambda>_. kret (Done 0)) s)"

definition sys_sleep :: "('a kernel_scheme, int sleepy) kop" where
  "sys_sleep =
     kthen (argint 0) (\<lambda>n. kthen (acquire LTicks) (\<lambda>_. kthen (kget ticks) (\<lambda>ticks0.
     sleep_iter (if n < 0 then 0 else n) ticks0)))"

definition sys_sleep_resume :: "nat \<Rightarrow> int \<Rightarrow> nat \<Rightarrow> ('a kernel_scheme, int sleepy) kop" where
  "sys_sleep_resume p n t0 =
     kthen (sleep_resume p LTicks) (\<lambda>_. sleep_iter (if n < 0 then 0 else n) (of_nat t0))"

definition sys_kill :: "('a kernel_scheme, int) kop" where
  "sys_kill = kthen (argint 0) kill"

definition sys_uptime :: "('a kernel_scheme, u32) kop" where
  "sys_uptime =
     kthen (acquire LTicks) (\<lambda>_. kthen (kget ticks) (\<lambda>x. kthen (release LTicks) (\<lambda>_. kret x)))"

definition sys_chpr :: "('a kernel_scheme, int) kop" where
  "sys_chpr = kthen (argint 0) (\<lambda>n. kthen (argint 1) (chpr n))"

definition sys_chtickets :: "('a kernel_scheme, int) kop" where
  "sys_chtickets = kthen (argint 0) (\<lambda>n. kthen (argint 1) (chtickets n))"

definition sys_getppid :: "('a kernel_scheme, int) kop" where
  "sys_getppid =
     kthen curproc (\<lambda>p. kthen (kget (\<lambda>s. parent (procs s p))) (\<lambda>par. case par of
       None \<Rightarrow> null_deref | Some pp \<Rightarrow> kget (\<lambda>s. pid (procs s pp))))"

definition sys_wait2 :: "('a kernel_scheme, int sleepy) kop" where
  "sys_wait2 = kthen (argaddr 0) (\<lambda>re. kthen (argaddr 1) (\<lambda>ru. kthen (argaddr 2) (\<lambda>st. wait2 re ru st)))"

section \<open>The process table for user programs\<close>

text \<open>
  \<open>sys_getptable\<close> stores through the user's pointer with the kernel page table, which maps no
  address below the device registers: there the store faults. Stores to allocatable memory
  change it; stores to the rest of kernel space are outside this model.
\<close>

definition kstore :: "u64 \<Rightarrow> u8 list \<Rightarrow> ('a kernel_scheme, unit) kop" where
  "kstore a bs s =
     (if a < PLIC then Panic ''kerneltrap''
      else if kend (km s) \<le> a \<and> unat a + length bs \<le> unat PHYSTOP
      then Ret ((), s\<lparr>km := (km s)\<lparr>phys := write_bytes (phys (km s)) a bs\<rparr>\<rparr>)
      else Diverge)"

primrec state_num :: "procstate \<Rightarrow> int" where
  "state_num UNUSED = 0"
| "state_num USED = 1"
| "state_num SLEEPING = 2"
| "state_num RUNNABLE = 3"
| "state_num RUNNING = 4"
| "state_num ZOMBIE = 5"

definition put_entry :: "nat \<Rightarrow> u64 \<Rightarrow> ('a kernel_scheme, unit) kop" where
  "put_entry p a s =
     (let q = procs s p
      in kthen (kstore a (int_bytes (state_num (pstate q)))) (\<lambda>_.
         kthen (kstore (a + 4) (int_bytes (pid q))) (\<lambda>_.
         case parent q of None \<Rightarrow> null_deref
         | Some pp \<Rightarrow>
             kthen (kstore (a + 8) (int_bytes (pid (procs s pp)))) (\<lambda>_.
             kthen (kstore (a + 12) (int_bytes (priority q))) (\<lambda>_.
             kthen (kstore (a + 16) (int_bytes (tickets q))) (\<lambda>_.
             kthen (kstore (a + 20) (int_bytes (uint (ctime q)))) (\<lambda>_.
             kstore (a + 24) (pname q))))))) s)"

text \<open>The loop has no bound on the table; past its end it reads whatever memory follows.\<close>

fun getptable_loop :: "nat \<Rightarrow> nat \<Rightarrow> u64 \<Rightarrow> u64 \<Rightarrow> ('a kernel_scheme, unit) kop" where
  "getptable_loop 0 p a lim s = (if lim > a then Diverge else Ret ((), s))"
| "getptable_loop (Suc k) p a lim s =
     (if lim > a \<and> pstate (procs s p) \<noteq> UNUSED
      then kthen (put_entry p a) (\<lambda>_. getptable_loop k (Suc p) (a + 40) lim) s
      else Ret ((), s))"

definition sys_getptable :: "('a kernel_scheme, int) kop" where
  "sys_getptable =
     kthen (argint 0) (\<lambda>n. kthen (argaddr 1) (\<lambda>buf.
     kthen (getptable_loop NPROC 0 buf (buf + of_int n)) (\<lambda>_. kret 0)))"

section \<open>Dispatch\<close>

text \<open>What a system call returns: a value for \<open>a0\<close>, or the hart to the scheduler.\<close>

datatype sysret = Value u64 | Switched

definition ret_int :: "('a kernel_scheme, int) kop \<Rightarrow> ('a kernel_scheme, sysret) kop" where
  "ret_int op = kthen op (\<lambda>r. kret (Value (of_int r)))"

definition ret_sleepy :: "('a kernel_scheme, int sleepy) kop \<Rightarrow> ('a kernel_scheme, sysret) kop" where
  "ret_sleepy op = kthen op (\<lambda>r. kret (case r of Done n \<Rightarrow> Value (of_int n) | Asleep _ \<Rightarrow> Switched))"

definition syscalls :: "u8 list \<Rightarrow> nat \<Rightarrow> ('a kernel_scheme, sysret) kop option" where
  "syscalls pad num =
     (if num = 0 \<or> num \<ge> 28 then None
      else Some ([
        ret_int fork,
        kthen sys_exit (\<lambda>_. kret Switched),
        ret_sleepy sys_wait,
        ret_int sys_pipe,
        ret_sleepy sys_read,
        ret_int sys_kill,
        ret_int sys_exec,
        ret_int (sys_fstat pad),
        ret_int sys_chdir,
        ret_int sys_dup,
        ret_int sys_getpid,
        kthen sys_sbrk (\<lambda>a. kret (Value a)),
        ret_sleepy sys_sleep,
        kthen sys_uptime (\<lambda>x. kret (Value (ucast x))),
        ret_int sys_open,
        ret_sleepy sys_write,
        ret_int sys_mknod,
        ret_int sys_unlink,
        ret_int sys_link,
        ret_int sys_mkdir,
        ret_int sys_close,
        ret_int sys_getptable,
        ret_int sys_getppid,
        ret_int sys_chpr,
        ret_sleepy sys_wait2,
        kthen yield (\<lambda>_. kret Switched),
        ret_int sys_chtickets] ! (num - 1)))"

definition set_a0 :: "nat \<Rightarrow> sysret \<Rightarrow> ('a kernel_scheme, bool) kop" where
  "set_a0 p r = (case r of Value v \<Rightarrow> kthen (kmod (tf_set p A0 v)) (\<lambda>_. kret True) | Switched \<Rightarrow> kret False)"

text \<open>
  \<open>syscall\<close>: the result tells whether the call is complete. For a call that switched away, the
  value of its resumption is stored by \<open>set_a0\<close>.
\<close>

definition syscall :: "u8 list \<Rightarrow> ('a kernel_scheme, bool) kop" where
  "syscall pad =
     kthen curproc (\<lambda>p. kthen (kget (tf_get p A7)) (\<lambda>a7.
       let num = sint (ucast a7 :: u32)
       in case (if num > 0 then syscalls pad (nat num) else None) of
            Some h \<Rightarrow> kthen h (set_a0 p)
          | None \<Rightarrow>
              kthen (kget (\<lambda>s. procs s p)) (\<lambda>q.
              kthen (printf (''%d %s: unknown sys call %d'' @ [CHR 0x0A])
                       [PInt (of_int (pid q)), PStr (Some (pname q)), PInt (of_int num)]) (\<lambda>_.
              set_a0 p (Value (- 1))))))"

end
