(* ===== verification/Pagetable.thy ===== *)
theory Pagetable
  imports Vm
begin

text \<open>
  The abstract view of a page table: which table the walk visits at every depth
  (\<open>tbl\<close>), the leaf entry of a virtual address (\<open>pte_of\<close>), and the well-formedness that makes
  the tree of tables a tree (\<open>pt_wf\<close>). The lemmas say what allocating a table and writing a
  leaf entry do to this view; \<open>walk\<close>, \<open>mappages\<close> and \<open>uvmunmap\<close> are described through them.
\<close>

section \<open>The view of a page table\<close>

fun tbl :: "bytemem \<Rightarrow> addr \<Rightarrow> nat \<Rightarrow> u64 \<Rightarrow> addr option" where
  "tbl m root 0 va = Some root"
| "tbl m root (Suc d) va =
     (case tbl m root d va of None \<Rightarrow> None
      | Some t \<Rightarrow> (let v = load64 m (pte_slot t (2 - d) va)
                  in if bit v 0 then Some (PTE2PA v) else None))"

definition pte_of :: "bytemem \<Rightarrow> addr \<Rightarrow> u64 \<Rightarrow> u64" where
  "pte_of m root va = (case tbl m root 2 va of None \<Rightarrow> 0 | Some t \<Rightarrow> load64 m (pte_slot t 0 va))"

text \<open>The bits of an address that select the table at depth \<open>d\<close>, and its page number.\<close>

definition prefix_at :: "nat \<Rightarrow> u64 \<Rightarrow> u64" where
  "prefix_at d va = drop_bit (39 - 9 * d) va"

abbreviation vpn :: "u64 \<Rightarrow> u64" where
  "vpn va \<equiv> drop_bit 12 va"

definition tables :: "bytemem \<Rightarrow> addr \<Rightarrow> addr set" where
  "tables m root = {t. \<exists>d \<le> 2. \<exists>va < MAXVA. tbl m root d va = Some t}"

definition tbl_inj :: "bytemem \<Rightarrow> addr \<Rightarrow> bool" where
  "tbl_inj m root \<longleftrightarrow>
     (\<forall>d d' va va' t. d \<le> 2 \<longrightarrow> d' \<le> 2 \<longrightarrow> va < MAXVA \<longrightarrow> va' < MAXVA \<longrightarrow>
        tbl m root d va = Some t \<longrightarrow> tbl m root d' va' = Some t \<longrightarrow>
        d = d' \<and> prefix_at d va = prefix_at d va')"

text \<open>A page in use with at least one counted reference.\<close>

definition live :: "kmem \<Rightarrow> addr \<Rightarrow> bool" where
  "live s t \<longleftrightarrow> in_use s t \<and> 0 < refcount s (pa2index t)"

definition pt_wf :: "kmem \<Rightarrow> addr \<Rightarrow> bool" where
  "pt_wf s root \<longleftrightarrow> (\<forall>t \<in> tables (phys s) root. live s t) \<and> tbl_inj (phys s) root"

lemma tablesI: "tbl m root d va = Some t \<Longrightarrow> d \<le> 2 \<Longrightarrow> va < MAXVA \<Longrightarrow> t \<in> tables m root"
  by (auto simp: tables_def)

lemma pt_wf_in_use: "pt_wf s root \<Longrightarrow> tbl (phys s) root d va = Some t \<Longrightarrow> d \<le> 2 \<Longrightarrow> va < MAXVA \<Longrightarrow> in_use s t"
  by (auto simp: pt_wf_def live_def intro: tablesI)

lemma pt_wf_inj:
  "pt_wf s root \<Longrightarrow> tbl (phys s) root d va = Some t \<Longrightarrow> tbl (phys s) root d' va' = Some t \<Longrightarrow>
   d \<le> 2 \<Longrightarrow> d' \<le> 2 \<Longrightarrow> va < MAXVA \<Longrightarrow> va' < MAXVA \<Longrightarrow> d = d' \<and> prefix_at d va = prefix_at d va'"
  unfolding pt_wf_def tbl_inj_def by blast

lemma walk_loop_noalloc:
  "walk_loop 2 root va False s =
   (case tbl (phys s) root 2 va of None \<Rightarrow> 0 | Some t \<Rightarrow> pte_slot t 0 va, s)"
  by (simp add: numeral_2_eq_2 Let_def and_PTE_eq_0)

section \<open>Slots\<close>

lemma unat_PX: "unat (PX l va) < 512"
  using PX_less [of l va] by (simp add: word_less_nat_alt)

lemma unat_slot_offset: "unat (8 * PX l va) = 8 * unat (PX l va)"
  using unat_PX [of l va] by (simp add: unat_word_ariths)

lemma unat_pte_slot: "aligned t 0 \<Longrightarrow> unat (pte_slot t l va) = unat t + 8 * unat (PX l va)"
proof -
  assume al: "aligned t 0"
  have "unat t + 4096 \<le> 2 ^ 64"
    using al unat_less_64 [of t] by (auto simp: aligned_unat elim!: dvdE)
  then show ?thesis
    unfolding pte_slot_def using unat_PX [of l va] unat_slot_offset [of l va]
    by (subst unat_add_lem [THEN iffD1]) simp_all
qed

lemma slot_in_page: "aligned t 0 \<Longrightarrow> in_range x (pte_slot t l va) 8 \<Longrightarrow> x \<in> page_of t"
proof -
  assume al: "aligned t 0" and x: "in_range x (pte_slot t l va) 8"
  have "unat t + 4096 \<le> 2 ^ 64"
    using al unat_less_64 [of t] by (auto simp: aligned_unat elim!: dvdE)
  then show ?thesis
    using x unat_PX [of l va] block_interval [OF al, of x]
    by (simp add: page_of_def in_range_nowrap unat_pte_slot [OF al])
qed

lemma slot_page_self: "aligned t 0 \<Longrightarrow> pte_slot t l va \<in> page_of t"
  using slot_in_page [of t "pte_slot t l va" l va] by simp

lemma aligned8_slot: "aligned t 0 \<Longrightarrow> aligned8 (pte_slot t l va)"
  unfolding aligned8_def unat_pte_slot by (auto simp: aligned_unat intro: dvd_trans [of 8 4096])

lemma slot_inject:
  assumes "aligned t 0" "aligned t' 0" "pte_slot t l va = pte_slot t' l' va'"
  shows "t = t' \<and> PX l va = PX l' va'"
proof -
  have "pte_slot t l va \<in> page_of t" "pte_slot t l va \<in> page_of t'"
    using slot_page_self [OF assms(1), of l va] slot_page_self [OF assms(2), of l' va'] assms(3) by auto
  then have "t = t'" using page_of_disjoint [OF assms(1,2)] by blast
  then have "8 * unat (PX l va) = 8 * unat (PX l' va')"
    using assms unat_pte_slot [OF assms(1), of l va] unat_pte_slot [OF assms(1), of l' va'] by simp
  then show ?thesis using \<open>t = t'\<close> by (simp add: unat_eqD)
qed

lemma slot_nonzero: "kmem_wf s \<Longrightarrow> in_use s t \<Longrightarrow> pte_slot t l va \<noteq> 0"
proof -
  assume wf: "kmem_wf s" and u: "in_use s t"
  then have "pte_slot t l va \<in> page_of t" by (intro slot_page_self) (simp add: in_use_def)
  then have "pte_slot t l va \<in> usable s" using u by (auto simp: in_use_def)
  then show ?thesis using usable_nonzero wf by (auto simp: kmem_wf_def)
qed

section \<open>Which bits of an address matter\<close>

lemma bit_PX: "bit (PX l va) n \<longleftrightarrow> n < 9 \<and> bit va (12 + 9 * l + n)"
  by (auto simp: PX_bits PXSHIFT_def bit_take_bit_iff bit_drop_bit_eq)

lemma bit_prefix: "bit (prefix_at d va) n = bit va (39 - 9 * d + n)"
  by (simp add: prefix_at_def bit_drop_bit_eq)

lemma prefix_mono: "d' \<le> d \<Longrightarrow> d \<le> 3 \<Longrightarrow> prefix_at d va = prefix_at d va' \<Longrightarrow> prefix_at d' va = prefix_at d' va'"
proof (rule bit_word_eqI)
  fix n assume *: "d' \<le> d" "d \<le> 3" "prefix_at d va = prefix_at d va'"
  have "39 - 9 * d' + n = 39 - 9 * d + (9 * (d - d') + n)" using * by auto
  then show "bit (prefix_at d' va) n = bit (prefix_at d' va') n"
    using arg_cong [OF *(3), of "\<lambda>w. bit w (9 * (d - d') + n)"] by (simp only: bit_prefix)
qed

lemma prefix_Suc:
  assumes "d \<le> 2"
  shows "prefix_at (Suc d) va = prefix_at (Suc d) va' \<longleftrightarrow>
    prefix_at d va = prefix_at d va' \<and> PX (2 - d) va = PX (2 - d) va'"
proof
  assume eq: "prefix_at (Suc d) va = prefix_at (Suc d) va'"
  have "PX (2 - d) va = PX (2 - d) va'"
  proof (rule bit_word_eqI)
    fix n
    have "12 + 9 * (2 - d) + n = 39 - 9 * Suc d + n" using assms by auto
    then show "bit (PX (2 - d) va) n = bit (PX (2 - d) va') n"
      using arg_cong [OF eq, of "\<lambda>w. bit w n"] by (simp only: bit_PX bit_prefix)
  qed
  then show "prefix_at d va = prefix_at d va' \<and> PX (2 - d) va = PX (2 - d) va'"
    using prefix_mono [OF _ _ eq, of d] assms by auto
next
  assume eq: "prefix_at d va = prefix_at d va' \<and> PX (2 - d) va = PX (2 - d) va'"
  show "prefix_at (Suc d) va = prefix_at (Suc d) va'"
  proof (rule bit_word_eqI)
    fix n
    show "bit (prefix_at (Suc d) va) n = bit (prefix_at (Suc d) va') n"
    proof (cases "n < 9")
      case True
      then have "12 + 9 * (2 - d) + n = 39 - 9 * Suc d + n" using assms by auto
      then show ?thesis using arg_cong [OF conjunct2 [OF eq], of "\<lambda>w. bit w n"] True
        by (simp only: bit_PX bit_prefix simp_thms)
    next
      case False
      then have "39 - 9 * Suc d + n = 39 - 9 * d + (n - 9)" using assms by auto
      then show ?thesis using arg_cong [OF conjunct1 [OF eq], of "\<lambda>w. bit w (n - 9)"]
        by (simp only: bit_prefix)
    qed
  qed
qed

lemma prefix_3: "prefix_at (Suc 2) va = vpn va"
  by (simp add: prefix_at_def)

lemma prefix_0: "va < MAXVA \<Longrightarrow> prefix_at 0 va = 0"
  by (rule bit_word_eqI) (simp add: bit_prefix bit_high_MAXVA)

lemma tbl_prefix: "d \<le> 3 \<Longrightarrow> prefix_at d va = prefix_at d va' \<Longrightarrow> tbl m root d va = tbl m root d va'"
proof (induction d)
  case (Suc d)
  then have "prefix_at d va = prefix_at d va'" "PX (2 - d) va = PX (2 - d) va'"
    using prefix_Suc [of d va va'] by auto
  then show ?case using Suc by (simp add: pte_slot_def split: option.split)
qed simp

lemma pte_of_vpn: "vpn va = vpn va' \<Longrightarrow> pte_of m root va = pte_of m root va'"
proof -
  assume "vpn va = vpn va'"
  then have "prefix_at (Suc 2) va = prefix_at (Suc 2) va'" by (simp only: prefix_3)
  then have "prefix_at 2 va = prefix_at 2 va'" "PX 0 va = PX 0 va'" using prefix_Suc [of 2 va va'] by auto
  then show ?thesis using tbl_prefix [of 2 va va' m root] by (simp add: pte_of_def pte_slot_def split: option.split)
qed

section \<open>Frames\<close>

lemma tbl_cong:
  "(\<And>d t. d < D \<Longrightarrow> tbl m root d va = Some t \<Longrightarrow>
      load64 m' (pte_slot t (2 - d) va) = load64 m (pte_slot t (2 - d) va)) \<Longrightarrow>
   tbl m' root D va = tbl m root D va"
  by (induction D) (auto split: option.split)

lemma load64_page_cong:
  "aligned t 0 \<Longrightarrow> (\<And>x. x \<in> page_of t \<Longrightarrow> m' x = m x) \<Longrightarrow>
   load64 m' (pte_slot t l va) = load64 m (pte_slot t l va)"
  by (rule load64_cong) (auto dest: slot_in_page)

lemma pt_wf_aligned: "pt_wf s root \<Longrightarrow> t \<in> tables (phys s) root \<Longrightarrow> aligned t 0"
  by (simp add: pt_wf_def live_def in_use_def)

lemma tables_cong:
  "(\<And>d va. d \<le> 2 \<Longrightarrow> va < MAXVA \<Longrightarrow> tbl m' root d va = tbl m root d va) \<Longrightarrow>
   tables m' root = tables m root"
  unfolding tables_def by (simp cong: conj_cong)

lemma pt_frame:
  assumes "pt_wf s root" "\<And>t x. t \<in> tables (phys s) root \<Longrightarrow> x \<in> page_of t \<Longrightarrow> m' x = phys s x"
  shows "\<And>d va. d \<le> 2 \<Longrightarrow> va < MAXVA \<Longrightarrow> tbl m' root d va = tbl (phys s) root d va"
    and "\<And>va. va < MAXVA \<Longrightarrow> pte_of m' root va = pte_of (phys s) root va"
    and "tables m' root = tables (phys s) root"
proof -
  have ld: "load64 m' (pte_slot t l va) = load64 (phys s) (pte_slot t l va)"
    if "t \<in> tables (phys s) root" for t l va
    using that assms(2) pt_wf_aligned [OF assms(1)] by (intro load64_page_cong) auto
  show t: "tbl m' root d va = tbl (phys s) root d va" if "d \<le> 2" "va < MAXVA" for d va
    using that by (intro tbl_cong ld) (auto intro: tablesI)
  show "pte_of m' root va = pte_of (phys s) root va" if "va < MAXVA" for va
    using t [OF order_refl that] ld tablesI [of "phys s" root 2 va] that
    by (simp add: pte_of_def split: option.split)
  show "tables m' root = tables (phys s) root" using t by (rule tables_cong)
qed

lemma tbl_inj_cong:
  assumes "tbl_inj m root" "\<And>d va. d \<le> 2 \<Longrightarrow> va < MAXVA \<Longrightarrow> tbl m' root d va = tbl m root d va"
  shows "tbl_inj m' root"
  unfolding tbl_inj_def
proof (intro allI impI)
  fix d d' va va' t
  assume *: "d \<le> 2" "d' \<le> 2" "va < MAXVA" "va' < MAXVA" "tbl m' root d va = Some t" "tbl m' root d' va' = Some t"
  then have "tbl m root d va = Some t" "tbl m root d' va' = Some t" using assms(2) by metis+
  then show "d = d' \<and> prefix_at d va = prefix_at d va'"
    using assms(1) *(1-4) unfolding tbl_inj_def by blast
qed

lemma pt_wf_cong:
  assumes "pt_wf s root" "\<And>d va. d \<le> 2 \<Longrightarrow> va < MAXVA \<Longrightarrow> tbl (phys s') root d va = tbl (phys s) root d va"
    and "\<And>t. t \<in> tables (phys s) root \<Longrightarrow> live s t \<Longrightarrow> live s' t"
  shows "pt_wf s' root"
proof -
  have "tables (phys s') root = tables (phys s) root" using assms(2) by (rule tables_cong)
  moreover have "tbl_inj (phys s') root"
    by (rule tbl_inj_cong [OF _ assms(2)]) (use assms(1) in \<open>simp_all add: pt_wf_def\<close>)
  ultimately show ?thesis using assms(1,3) unfolding pt_wf_def by blast
qed

section \<open>Writing a leaf entry\<close>

lemma slot_vpn:
  assumes "pt_wf s root" "va < MAXVA" "va' < MAXVA"
    and "tbl (phys s) root 2 va = Some t" "tbl (phys s) root 2 va' = Some t'"
  shows "pte_slot t 0 va = pte_slot t' 0 va' \<longleftrightarrow> vpn va = vpn va'"
proof
  have al: "aligned t 0" "aligned t' 0"
    using pt_wf_in_use [OF assms(1,4)] pt_wf_in_use [OF assms(1,5)] assms by (auto simp: in_use_def)
  assume "pte_slot t 0 va = pte_slot t' 0 va'"
  from slot_inject [OF al this] have "t = t'" "PX 0 va = PX 0 va'" by auto
  moreover have "prefix_at 2 va = prefix_at 2 va'"
    using pt_wf_inj [OF assms(1,4) assms(5) [folded \<open>t = t'\<close>]] assms(2,3) by auto
  ultimately show "vpn va = vpn va'" using prefix_Suc [of 2 va va'] prefix_3 by simp
next
  assume "vpn va = vpn va'"
  then have "prefix_at 2 va = prefix_at 2 va'" "PX 0 va = PX 0 va'"
    using prefix_Suc [of 2 va va'] prefix_3 by auto
  moreover from this(1) have "t = t'" using tbl_prefix [of 2 va va'] assms(4,5) by auto
  ultimately show "pte_slot t 0 va = pte_slot t' 0 va'" by (simp add: pte_slot_def)
qed

lemma leaf_update:
  assumes "pt_wf s root" "va0 < MAXVA" "tbl (phys s) root 2 va0 = Some t0"
    and m': "m' = store64 (phys s) (pte_slot t0 0 va0) v"
  shows "\<And>d va. d \<le> 2 \<Longrightarrow> va < MAXVA \<Longrightarrow> tbl m' root d va = tbl (phys s) root d va"
    and "\<And>va. va < MAXVA \<Longrightarrow> pte_of m' root va = (if vpn va = vpn va0 then v else pte_of (phys s) root va)"
proof -
  have al: "aligned t 0" if "tbl (phys s) root d va = Some t" "d \<le> 2" "va < MAXVA" for t d va
    using pt_wf_in_use [OF assms(1) that] by (simp add: in_use_def)
  show t: "tbl m' root d va = tbl (phys s) root d va" if "d \<le> 2" "va < MAXVA" for d va
  proof (rule tbl_cong)
    fix d' t assume d': "d' < d" "tbl (phys s) root d' va = Some t"
    then have "t \<noteq> t0" using pt_wf_inj [OF assms(1) d'(2), of 2 va0] assms(2,3) that by auto
    then have "pte_slot t (2 - d') va \<noteq> pte_slot t0 0 va0"
      using slot_inject [OF al [OF d'(2)] al [OF assms(3)]] d' that assms(2) by auto
    then show "load64 m' (pte_slot t (2 - d') va) = load64 (phys s) (pte_slot t (2 - d') va)"
      unfolding m' using al [OF d'(2)] al [OF assms(3)] d' that assms(2)
      by (intro load64_store64_other aligned8_slot) auto
  qed
  show "pte_of m' root va = (if vpn va = vpn va0 then v else pte_of (phys s) root va)" if "va < MAXVA" for va
  proof (cases "tbl (phys s) root 2 va")
    case None
    have "vpn va \<noteq> vpn va0"
    proof
      assume "vpn va = vpn va0"
      then have "prefix_at 2 va = prefix_at 2 va0" using prefix_Suc [of 2 va va0] prefix_3 by simp
      then show False using tbl_prefix [of 2 va va0] None assms(3) by simp
    qed
    then show ?thesis using None t [OF order_refl that] by (simp add: pte_of_def)
  next
    case (Some t1)
    have e: "pte_slot t1 0 va = pte_slot t0 0 va0 \<longleftrightarrow> vpn va = vpn va0"
      using slot_vpn [OF assms(1) that assms(2) Some assms(3)] .
    have a8: "aligned8 (pte_slot t1 0 va)" "aligned8 (pte_slot t0 0 va0)"
      using al [OF Some _ that] al [OF assms(3) _ assms(2)] by (auto intro: aligned8_slot)
    show ?thesis
    proof (cases "vpn va = vpn va0")
      case True
      then show ?thesis using e Some t [OF order_refl that] by (simp add: pte_of_def m' load64_store64_same)
    next
      case False
      then show ?thesis
        using e Some t [OF order_refl that] load64_store64_other [OF a8] by (simp add: pte_of_def m')
    qed
  qed
qed

section \<open>Adding a table\<close>

lemma load64_zero: "(\<And>x. in_range x a 8 \<Longrightarrow> m x = 0) \<Longrightarrow> load64 m a = 0"
proof -
  assume "\<And>x. in_range x a 8 \<Longrightarrow> m x = 0"
  then have "load64 m a = load64 (\<lambda>_. 0) a" by (intro load64_cong) simp
  moreover have "load64 (\<lambda>_. 0) a = 0"
    unfolding load64_def by (rule bit_word_eqI) (simp add: bit_load_le)
  ultimately show ?thesis by simp
qed

lemma new_table_pte: "aligned p 0 \<Longrightarrow> PTE2PA (PA2PTE p OR PTE_V) = p \<and> bit (PA2PTE p OR PTE_V) 0"
proof -
  assume "aligned p 0"
  then have "PGROUNDDOWN p = p" by (intro PGROUNDDOWN_id) (simp add: aligned_def)
  moreover have "take_bit 10 PTE_V = PTE_V" by (rule bit_word_eqI) (auto simp: bit_take_bit_iff)
  ultimately show ?thesis using PTE2PA_PA2PTE [of PTE_V p] by (simp add: bit_or_iff)
qed

lemma tbl_none:
  assumes "d \<le> 2" "tbl m root d va0 = Some t0" "\<not> bit (load64 m (pte_slot t0 (2 - d) va0)) 0"
    and "prefix_at (Suc d) va = prefix_at (Suc d) va0"
  shows "tbl m root (Suc d) va = None"
  using prefix_Suc [OF assms(1), of va va0] tbl_prefix [of d va va0 m root] assms by (simp add: pte_slot_def)

lemma tbl_grow:
  assumes wf: "pt_wf s root" and d: "d < 2" and va0: "va0 < MAXVA" and t0: "tbl (phys s) root d va0 = Some t0"
    and inv: "\<not> bit (load64 (phys s) (pte_slot t0 (2 - d) va0)) 0"
    and p: "aligned p 0" "p \<notin> tables (phys s) root"
    and m1: "\<And>x. m1 x = (if x \<in> page_of p then 0 else phys s x)"
    and m': "m' = store64 m1 (pte_slot t0 (2 - d) va0) (PA2PTE p OR PTE_V)"
    and d': "d' \<le> 2" and va: "va < MAXVA"
  shows "tbl m' root d' va =
    (if d' = Suc d \<and> prefix_at (Suc d) va = prefix_at (Suc d) va0 then Some p else tbl (phys s) root d' va)"
proof -
  have al: "aligned t 0" if "t \<in> tables (phys s) root" for t using pt_wf_aligned [OF wf that] .
  have t0T: "t0 \<in> tables (phys s) root" using t0 d va0 by (intro tablesI) auto
  have old: "load64 m' (pte_slot t l v) = load64 (phys s) (pte_slot t l v)"
    if t: "t \<in> tables (phys s) root" and ne: "pte_slot t l v \<noteq> pte_slot t0 (2 - d) va0" for t l v
  proof -
    have "page_of t \<inter> page_of p = {}" using t p al by (intro page_of_disjoint) auto
    then have "load64 m1 (pte_slot t l v) = load64 (phys s) (pte_slot t l v)"
      using al [OF t] by (intro load64_page_cong) (auto simp: m1)
    then show ?thesis
      unfolding m' using ne al [OF t] al [OF t0T] by (simp add: load64_store64_other aligned8_slot)
  qed
  have low: "tbl m' root d1 va = tbl (phys s) root d1 va" if "d1 \<le> d" for d1
  proof (rule tbl_cong)
    fix d2 t assume d2: "d2 < d1" "tbl (phys s) root d2 va = Some t"
    then have tT: "t \<in> tables (phys s) root" using that d va by (intro tablesI) auto
    have "t \<noteq> t0" using pt_wf_inj [OF wf d2(2), of d va0] t0 d2 that d va va0 by auto
    then have "pte_slot t (2 - d2) va \<noteq> pte_slot t0 (2 - d) va0"
      using slot_inject [OF al [OF tT] al [OF t0T]] by blast
    from old [OF tT this] show "load64 m' (pte_slot t (2 - d2) va) = load64 (phys s) (pte_slot t (2 - d2) va)" .
  qed
  let ?same = "prefix_at (Suc d) va = prefix_at (Suc d) va0"
  have pre: "?same \<longleftrightarrow> prefix_at d va = prefix_at d va0 \<and> PX (2 - d) va = PX (2 - d) va0"
    using prefix_Suc [of d va va0] d by simp
  have mid: "tbl m' root (Suc d) va = (if ?same then Some p else tbl (phys s) root (Suc d) va)"
  proof (cases ?same)
    case True
    then have "tbl (phys s) root d va = Some t0" "pte_slot t0 (2 - d) va = pte_slot t0 (2 - d) va0"
      using pre tbl_prefix [of d va va0] t0 d by (auto simp: pte_slot_def)
    then show ?thesis
      using True low [OF order_refl] new_table_pte [OF p(1)] by (simp add: m' load64_store64_same)
  next
    case False
    show ?thesis
    proof (cases "tbl (phys s) root d va")
      case None
      then show ?thesis using False low [OF order_refl] by simp
    next
      case (Some t)
      then have tT: "t \<in> tables (phys s) root" using d va by (intro tablesI) auto
      have "pte_slot t (2 - d) va \<noteq> pte_slot t0 (2 - d) va0"
      proof
        assume "pte_slot t (2 - d) va = pte_slot t0 (2 - d) va0"
        from slot_inject [OF al [OF tT] al [OF t0T] this] have "t = t0" "PX (2 - d) va = PX (2 - d) va0" by auto
        moreover have "prefix_at d va = prefix_at d va0"
          using pt_wf_inj [OF wf Some, of d va0] t0 \<open>t = t0\<close> d va va0 by auto
        ultimately show False using False pre by simp
      qed
      from old [OF tT this] show ?thesis using False Some low [OF order_refl] by simp
    qed
  qed
  have none: "tbl (phys s) root (Suc d) va = None" if ?same
    using tbl_none [OF _ t0 inv that] d by simp
  consider "d' \<le> d" | "d' = Suc d" | "d = 0" "d' = 2" using d d' by linarith
  then show ?thesis
  proof cases
    case 1 then show ?thesis using low by simp
  next
    case 2 then show ?thesis using mid by simp
  next
    case 3
    show ?thesis
    proof (cases ?same)
      case True
      have "pte_slot p 1 va \<noteq> pte_slot t0 (2 - d) va0"
        using slot_inject [OF p(1) al [OF t0T]] p(2) t0T by blast
      then have "load64 m' (pte_slot p 1 va) = load64 m1 (pte_slot p 1 va)"
        unfolding m' using p(1) al [OF t0T] by (intro load64_store64_other aligned8_slot)
      also have "\<dots> = 0" using slot_in_page [OF p(1)] by (intro load64_zero) (simp add: m1)
      finally have "tbl m' root 2 va = None" using mid True 3 by (simp add: numeral_2_eq_2)
      then show ?thesis using none True 3 by (simp add: numeral_2_eq_2)
    next
      case False
      then have e: "tbl m' root 1 va = tbl (phys s) root 1 va" using mid 3 by simp
      have "tbl m' root 2 va = tbl (phys s) root 2 va"
      proof (cases "tbl (phys s) root 1 va")
        case None
        then show ?thesis using e by (simp add: numeral_2_eq_2)
      next
        case (Some t)
        then have tT: "t \<in> tables (phys s) root" using va by (intro tablesI [of _ _ 1]) auto
        have "t \<noteq> t0" using pt_wf_inj [OF wf Some, of 0 va0] t0 va va0 3 by auto
        then have "pte_slot t 1 va \<noteq> pte_slot t0 (2 - d) va0"
          using slot_inject [OF al [OF tT] al [OF t0T]] by blast
        from old [OF tT this] show ?thesis using e Some by (simp add: numeral_2_eq_2)
      qed
      then show ?thesis using 3 by simp
    qed
  qed
qed

lemma pte_of_grow:
  assumes wf: "pt_wf s root" and d: "d < 2" and va0: "va0 < MAXVA" and t0: "tbl (phys s) root d va0 = Some t0"
    and inv: "\<not> bit (load64 (phys s) (pte_slot t0 (2 - d) va0)) 0"
    and p: "aligned p 0" "p \<notin> tables (phys s) root"
    and m1: "\<And>x. m1 x = (if x \<in> page_of p then 0 else phys s x)"
    and m': "m' = store64 m1 (pte_slot t0 (2 - d) va0) (PA2PTE p OR PTE_V)"
    and va: "va < MAXVA"
  shows "pte_of m' root va = pte_of (phys s) root va"
proof -
  have t0T: "t0 \<in> tables (phys s) root" using t0 d va0 by (intro tablesI) auto
  note grow = tbl_grow [OF wf d va0 t0 inv p m1 m' order_refl va]
  have ld: "load64 m' (pte_slot t 0 va) = load64 m1 (pte_slot t 0 va)" if "t \<noteq> t0" "aligned t 0" for t
    unfolding m' using slot_inject [OF that(2) pt_wf_aligned [OF wf t0T]] that pt_wf_aligned [OF wf t0T]
    by (intro load64_store64_other aligned8_slot) auto
  show ?thesis
  proof (cases "2 = Suc d \<and> prefix_at (Suc d) va = prefix_at (Suc d) va0")
    case True
    then have "tbl (phys s) root (Suc d) va = None" using tbl_none [OF _ t0 inv, of va] d by simp
    then have old: "tbl (phys s) root 2 va = None" using True by (simp only:)
    have new: "tbl m' root 2 va = Some p" using grow True by (simp only: if_True simp_thms)
    have "load64 m' (pte_slot p 0 va) = load64 m1 (pte_slot p 0 va)" using p t0T by (intro ld) auto
    also have "\<dots> = 0" using slot_in_page [OF p(1)] by (intro load64_zero) (simp add: m1)
    finally show ?thesis using new old by (simp add: pte_of_def)
  next
    case False
    then have e: "tbl m' root 2 va = tbl (phys s) root 2 va" using grow by argo
    show ?thesis
    proof (cases "tbl (phys s) root 2 va")
      case (Some t)
      then have tT: "t \<in> tables (phys s) root" using va by (intro tablesI) auto
      have "t \<noteq> t0" using pt_wf_inj [OF wf Some, of d va0] t0 d va va0 by auto
      moreover have "page_of t \<inter> page_of p = {}" using tT p pt_wf_aligned [OF wf] by (intro page_of_disjoint) auto
      then have "load64 m1 (pte_slot t 0 va) = load64 (phys s) (pte_slot t 0 va)"
        using pt_wf_aligned [OF wf tT] by (intro load64_page_cong) (auto simp: m1)
      ultimately show ?thesis using ld [of t] pt_wf_aligned [OF wf tT] e Some by (simp add: pte_of_def)
    qed (use e in \<open>simp add: pte_of_def\<close>)
  qed
qed

lemma tbl_inj_grow:
  assumes inj: "tbl_inj m root" and p: "p \<notin> tables m root" and d: "d < 2" and va0: "va0 < MAXVA"
    and grow: "\<And>d' va. d' \<le> 2 \<Longrightarrow> va < MAXVA \<Longrightarrow> tbl m' root d' va =
      (if d' = Suc d \<and> prefix_at (Suc d) va = prefix_at (Suc d) va0 then Some p else tbl m root d' va)"
  shows "tbl_inj m' root"
  unfolding tbl_inj_def
proof (intro allI impI)
  fix d1 d2 va va' t
  assume *: "d1 \<le> 2" "d2 \<le> 2" "va < MAXVA" "va' < MAXVA" "tbl m' root d1 va = Some t" "tbl m' root d2 va' = Some t"
  have t: "(t = p \<and> d' = Suc d \<and> prefix_at (Suc d) v = prefix_at (Suc d) va0) \<or>
      (t \<noteq> p \<and> tbl m root d' v = Some t)"
    if "tbl m' root d' v = Some t" "d' \<le> 2" "v < MAXVA" for d' v
    using that grow [OF that(2,3)] p tablesI [of m root d' v t] by (auto split: if_splits)
  show "d1 = d2 \<and> prefix_at d1 va = prefix_at d1 va'"
  proof (cases "t = p")
    case True
    then show ?thesis using t [OF *(5,1,3)] t [OF *(6,2,4)] by auto
  next
    case False
    then have "tbl m root d1 va = Some t" "tbl m root d2 va' = Some t"
      using t [OF *(5,1,3)] t [OF *(6,2,4)] by auto
    then show ?thesis using inj *(1-4) unfolding tbl_inj_def by blast
  qed
qed

section \<open>Extension of a page table by empty tables\<close>

text \<open>
  The footprint of an operation on one page table (\<open>pt_mod\<close>): it may take pages from free
  memory and write its tables; every other page in use and every reference count of a page in
  use stay as they are. \<open>walk\<close> with allocation moreover keeps the translation of every
  address (\<open>pt_ext\<close>): the new tables are empty.
\<close>

definition pt_mod :: "addr \<Rightarrow> kmem \<Rightarrow> kmem \<Rightarrow> bool" where
  "pt_mod root s s' \<longleftrightarrow>
     kmem_inv s' \<and> pt_wf s' root \<and> kend s' = kend s \<and> free_mem s' \<subseteq> free_mem s \<and>
     (\<forall>t \<in> tables (phys s') root. t \<in> tables (phys s) root \<or> page_of t \<subseteq> free_mem s) \<and>
     (\<forall>x. x \<notin> free_mem s \<longrightarrow> (\<forall>t \<in> tables (phys s) root. x \<notin> page_of t) \<longrightarrow> phys s' x = phys s x) \<and>
     (\<forall>x \<in> usable s - free_mem s. refcount s' (pa2index x) = refcount s (pa2index x))"

definition pt_ext :: "addr \<Rightarrow> kmem \<Rightarrow> kmem \<Rightarrow> bool" where
  "pt_ext root s s' \<longleftrightarrow> pt_mod root s s' \<and>
     (\<forall>va < MAXVA. pte_of (phys s') root va = pte_of (phys s) root va) \<and>
     (\<forall>d va t. d \<le> 2 \<longrightarrow> va < MAXVA \<longrightarrow> tbl (phys s) root d va = Some t \<longrightarrow> tbl (phys s') root d va = Some t)"

lemma pt_mod_refl: "kmem_inv s \<Longrightarrow> pt_wf s root \<Longrightarrow> pt_mod root s s"
  by (simp add: pt_mod_def)

lemma pt_ext_refl: "kmem_inv s \<Longrightarrow> pt_wf s root \<Longrightarrow> pt_ext root s s"
  by (simp add: pt_ext_def pt_mod_refl)

lemma pt_modD:
  assumes "pt_mod root s s'"
  shows "kmem_inv s'" "pt_wf s' root" "kend s' = kend s" "free_mem s' \<subseteq> free_mem s" "usable s' = usable s"
    and "\<And>t. t \<in> tables (phys s') root \<Longrightarrow> t \<in> tables (phys s) root \<or> page_of t \<subseteq> free_mem s"
    and "\<And>x. x \<notin> free_mem s \<Longrightarrow> (\<And>t. t \<in> tables (phys s) root \<Longrightarrow> x \<notin> page_of t) \<Longrightarrow> phys s' x = phys s x"
    and "\<And>x. x \<in> usable s \<Longrightarrow> x \<notin> free_mem s \<Longrightarrow> refcount s' (pa2index x) = refcount s (pa2index x)"
  using assms unfolding pt_mod_def by (auto simp: usable_def)

lemma pt_extD:
  assumes "pt_ext root s s'"
  shows "pt_mod root s s'" "kmem_inv s'" "pt_wf s' root"
    and "\<And>va. va < MAXVA \<Longrightarrow> pte_of (phys s') root va = pte_of (phys s) root va"
    and "\<And>d va t. d \<le> 2 \<Longrightarrow> va < MAXVA \<Longrightarrow> tbl (phys s) root d va = Some t \<Longrightarrow> tbl (phys s') root d va = Some t"
  using assms unfolding pt_ext_def by (auto dest: pt_modD)

lemma pt_mod_trans:
  assumes a: "pt_mod root s s1" and b: "pt_mod root s1 s2"
  shows "pt_mod root s s2"
proof -
  note A = pt_modD [OF a] note B = pt_modD [OF b]
  have mem: "phys s2 x = phys s x" if x: "x \<notin> free_mem s" "\<forall>t \<in> tables (phys s) root. x \<notin> page_of t" for x
  proof -
    have "phys s2 x = phys s1 x"
    proof (rule B(7))
      show "x \<notin> free_mem s1" using A(4) x(1) by blast
      show "x \<notin> page_of t" if "t \<in> tables (phys s1) root" for t using A(6) [OF that] x by blast
    qed
    then show ?thesis using A(7) [of x] x by simp
  qed
  have "refcount s2 (pa2index x) = refcount s (pa2index x)" if "x \<in> usable s - free_mem s" for x
    using that A(8) [of x] B(8) [of x] A(4,5) by auto
  moreover have "t \<in> tables (phys s) root \<or> page_of t \<subseteq> free_mem s" if "t \<in> tables (phys s2) root" for t
    using B(6) [OF that] A(6) [of t] A(4) by blast
  ultimately show ?thesis using A(3,4) B(1-4) mem unfolding pt_mod_def by simp
qed

lemma pt_ext_trans: "pt_ext root s s1 \<Longrightarrow> pt_ext root s1 s2 \<Longrightarrow> pt_ext root s s2"
  unfolding pt_ext_def using pt_mod_trans [of root s s1 s2] by simp

lemma pt_ext_grow:
  assumes inv: "kmem_inv s" and wf: "pt_wf s root" and d: "d < 2" and va0: "va0 < MAXVA"
    and t0: "tbl (phys s) root d va0 = Some t0"
    and nv: "\<not> bit (load64 (phys s) (pte_slot t0 (2 - d) va0)) 0"
    and k: "kalloc s = (p, s1)" "p \<noteq> 0"
    and s': "s' = set_pte (pte_slot t0 (2 - d) va0) (PA2PTE p OR PTE_V) (zero_page p s1)"
  shows "pt_ext root s s' \<and> tbl (phys s') root (Suc d) va0 = Some p"
proof -
  note ka = kalloc_spec [OF inv k(1)]
  have iu: "in_use s1 p" "kmem_inv s1" "page_of p \<subseteq> free_mem s" "free_mem s1 = free_mem s - page_of p"
      "kend s1 = kend s" "refcount s1 = (refcount s)(pa2index p := 1)"
      "phys s1 = (\<lambda>a. if a \<in> page_of p then 5 else phys s a)"
    using ka k(2) by simp_all
  have al: "aligned p 0" using iu(1) by (simp add: in_use_def)
  have notT: "p \<notin> tables (phys s) root"
    using wf iu(3) page_of_self [of p] unfolding pt_wf_def live_def in_use_def by blast
  define m1 where "m1 = phys (zero_page p s1)"
  have m1: "m1 x = (if x \<in> page_of p then 0 else phys s x)" for x
    by (simp add: m1_def zero_page_def memset_eq page_of_range [OF al, symmetric] iu(7))
  have m': "phys s' = store64 m1 (pte_slot t0 (2 - d) va0) (PA2PTE p OR PTE_V)"
    by (simp add: s' set_pte_def m1_def)
  note grow = tbl_grow [OF wf d va0 t0 nv al notT m1 m']
  have fl: "freelist s' = freelist s1" "kend s' = kend s1" "refcount s' = refcount s1" "order_map s' = order_map s1"
    by (simp_all add: s' set_pte_def zero_page_def)
  have fm: "free_mem s' = free_mem s1" by (rule free_mem_cong [OF fl(1)])
  have inv': "kmem_inv s'"
    using iu(2) kmem_wf_cong [OF fl(1,2)] fm fl by (simp add: kmem_inv_def usable_def)
  have inuse': "in_use s' q" if "in_use s1 q" for q
    using that fm fl(2) by (simp add: in_use_def usable_def)
  have us: "usable s' = usable s" using iu(5) fl(2) by (simp add: usable_def)
  have kwf: "kmem_wf s" using inv by (simp add: kmem_inv_def)
  have pidx: "pa2index x \<noteq> pa2index p" if "x \<in> usable s" "x \<notin> page_of p" for x
  proof -
    have "p \<in> usable s" using in_use_usable [OF iu(1)] iu(5) by (simp add: usable_def)
    from pa2index_usable [OF kwf this that(1)] show ?thesis using that(2) by simp
  qed
  have ref: "refcount s' (pa2index x) = refcount s (pa2index x)" if "x \<in> usable s - free_mem s" for x
    using pidx [of x] that iu(3) fl(3) iu(6) by auto
  have new: "\<And>t. t \<in> tables (phys s') root \<Longrightarrow> t = p \<or> t \<in> tables (phys s) root"
    using grow unfolding tables_def by (auto split: if_splits)
  have liv: "live s' t" if "t \<in> tables (phys s') root" for t
  proof (cases "t = p")
    case True
    then show ?thesis using inuse' iu(1,6) fl(3) by (simp add: live_def)
  next
    case False
    then have lt: "live s t" using new [OF that] wf by (auto simp: pt_wf_def)
    then have "in_use s' t" using us fm iu(4) unfolding live_def in_use_def by blast
    then show ?thesis using lt ref [of t] in_use_usable [of s t] free_mem_page_subset [OF kwf, of t]
      unfolding live_def in_use_def by (metis DiffI Int_iff emptyE page_of_self)
  qed
  have inj: "tbl_inj (phys s') root"
    by (rule tbl_inj_grow [OF _ notT d va0 grow]) (use wf in \<open>simp_all add: pt_wf_def\<close>)
  have mono: "tbl (phys s') root d' va = Some t"
    if "d' \<le> 2" "va < MAXVA" "tbl (phys s) root d' va = Some t" for d' va t
    using grow [OF that(1,2)] that(3) tbl_none [OF _ t0 nv, of va] d by (auto split: if_splits)
  have t0T: "t0 \<in> tables (phys s) root" using t0 d va0 by (intro tablesI) auto
  have mem: "phys s' x = phys s x" if "x \<notin> free_mem s" "\<forall>t \<in> tables (phys s) root. x \<notin> page_of t" for x
    using that t0T slot_in_page [OF pt_wf_aligned [OF wf t0T], of x] iu(3)
    by (auto simp: m' store64_apply m1)
  have tab: "\<forall>t \<in> tables (phys s') root. t \<in> tables (phys s) root \<or> page_of t \<subseteq> free_mem s"
    using new iu(3) by blast
  have "pt_ext root s s'"
    unfolding pt_ext_def pt_mod_def using inv' liv inj iu(4,5) fl(2) fm mono mem ref tab
      pte_of_grow [OF wf d va0 t0 nv al notT m1 m'] by (auto simp: pt_wf_def)
  then show ?thesis using grow [of "Suc d" va0] d va0 by auto
qed

lemma pt_ext_fail:
  "kmem_inv s \<Longrightarrow> pt_wf s root \<Longrightarrow> kalloc s = (0, s1) \<Longrightarrow> pt_ext root s s1 \<and> free_mem s1 = {}"
  using kpages.alloc_fail [of s s1] pt_ext_refl by auto

text \<open>One level of the walk: the next table exists, is added, or memory has run out.\<close>

lemma walk_level:
  assumes inv: "kmem_inv s" "pt_wf s root" and d: "d < 2" and va: "va < MAXVA"
    and t: "tbl (phys s) root d va = Some t" and w: "walk_loop (2 - d) t va True s = (a, s')"
  shows "(a = 0 \<and> pt_ext root s s' \<and> free_mem s' = {}) \<or>
    (\<exists>t1 s1. pt_ext root s s1 \<and> tbl (phys s1) root (Suc d) va = Some t1 \<and>
      walk_loop (2 - Suc d) t1 va True s1 = (a, s'))"
proof -
  let ?slot = "pte_slot t (2 - d) va"
  obtain l where l: "2 - d = Suc l" "2 - Suc d = l" using d by (cases "2 - d") auto
  show ?thesis
  proof (cases "bit (load64 (phys s) ?slot) 0")
    case True
    then have "tbl (phys s) root (Suc d) va = Some (PTE2PA (load64 (phys s) ?slot))"
      using t by (simp add: Let_def)
    moreover have "walk_loop l (PTE2PA (load64 (phys s) ?slot)) va True s = (a, s')"
      using w True l by (simp add: Let_def and_PTE_eq_0)
    ultimately show ?thesis using pt_ext_refl [OF inv] unfolding l(2) by blast
  next
    case False
    obtain p s1 where k: "kalloc s = (p, s1)" by (cases "kalloc s")
    show ?thesis
    proof (cases "p = 0")
      case True
      then show ?thesis using w False l k pt_ext_fail [OF inv, of s1] by (simp add: Let_def and_PTE_eq_0)
    next
      case p: False
      define s2 where "s2 = set_pte ?slot (PA2PTE p OR PTE_V) (zero_page p s1)"
      have "pt_ext root s s2" "tbl (phys s2) root (Suc d) va = Some p"
        using pt_ext_grow [OF inv d va t False k p s2_def] by auto
      moreover have "walk_loop l p va True s2 = (a, s')"
        using w False l k p by (simp add: Let_def and_PTE_eq_0 s2_def)
      ultimately show ?thesis unfolding l(2) by blast
    qed
  qed
qed

lemma walk_alloc_spec:
  assumes inv: "kmem_inv s" "pt_wf s root" and va: "va < MAXVA" and w: "walk_loop 2 root va True s = (a, s')"
  shows "pt_ext root s s' \<and> ((a = 0 \<and> free_mem s' = {}) \<or>
    (\<exists>t. tbl (phys s') root 2 va = Some t \<and> a = pte_slot t 0 va \<and> a \<noteq> 0))"
proof -
  have fin: "pt_ext root s s' \<and> (\<exists>t. tbl (phys s') root 2 va = Some t \<and> a = pte_slot t 0 va \<and> a \<noteq> 0)"
    if "pt_ext root s s1" "tbl (phys s1) root 2 va = Some t" "walk_loop 0 t va True s1 = (a, s')" for t s1
  proof -
    have "kmem_wf s1" "in_use s1 t"
      using pt_extD(2,3) [OF that(1)] pt_wf_in_use [OF _ that(2)] va by (auto simp: kmem_inv_def)
    then show ?thesis using that slot_nonzero [of s1 t 0 va] by auto
  qed
  have "(a = 0 \<and> pt_ext root s s' \<and> free_mem s' = {}) \<or>
    (\<exists>t1 s1. pt_ext root s s1 \<and> tbl (phys s1) root 1 va = Some t1 \<and> walk_loop 1 t1 va True s1 = (a, s'))"
    using walk_level [OF inv _ va, of 0 root a s'] w by simp
  then consider "a = 0" "pt_ext root s s'" "free_mem s' = {}"
    | t1 s1 where "pt_ext root s s1" "tbl (phys s1) root 1 va = Some t1" "walk_loop 1 t1 va True s1 = (a, s')"
    by blast
  then show ?thesis
  proof cases
    case 1 then show ?thesis by blast
  next
    case (2 t1 s1)
    have "(a = 0 \<and> pt_ext root s1 s' \<and> free_mem s' = {}) \<or>
      (\<exists>t2 s2. pt_ext root s1 s2 \<and> tbl (phys s2) root (Suc 1) va = Some t2 \<and> walk_loop 0 t2 va True s2 = (a, s'))"
      using walk_level [OF pt_extD(2,3) [OF 2(1)] _ va 2(2), of a s'] 2(3)
      by (simp del: tbl.simps walk_loop.simps)
    then show ?thesis
      using pt_ext_trans [OF 2(1)] fin unfolding Suc_1 by blast
  qed
qed

text \<open>A leaf entry written with \<open>set_pte\<close>.\<close>

lemma set_leaf_spec:
  assumes inv: "kmem_inv s" "pt_wf s root" and va0: "va0 < MAXVA" and t0: "tbl (phys s) root 2 va0 = Some t0"
    and s': "s' = set_pte (pte_slot t0 0 va0) v s"
  shows "pt_mod root s s' \<and> free_mem s' = free_mem s \<and> refcount s' = refcount s \<and>
    tables (phys s') root = tables (phys s) root \<and>
    (\<forall>va < MAXVA. pte_of (phys s') root va = (if vpn va = vpn va0 then v else pte_of (phys s) root va))"
proof -
  have m': "phys s' = store64 (phys s) (pte_slot t0 0 va0) v" by (simp add: s' set_pte_def)
  note lu = leaf_update [OF inv(2) va0 t0 m']
  have fl: "freelist s' = freelist s" "kend s' = kend s" "refcount s' = refcount s" "order_map s' = order_map s"
    by (simp_all add: s' set_pte_def)
  have fm: "free_mem s' = free_mem s" by (rule free_mem_cong [OF fl(1)])
  have ki: "kmem_inv s'" using inv(1) kmem_wf_cong [OF fl(1,2)] fm fl by (simp add: kmem_inv_def usable_def)
  have "live s' t" if "live s t" for t using that fm fl by (simp add: live_def in_use_def usable_def)
  then have wf: "pt_wf s' root" by (intro pt_wf_cong [OF inv(2) lu(1)]) auto
  have t0T: "t0 \<in> tables (phys s) root" using t0 va0 by (intro tablesI) auto
  have tT: "tables (phys s') root = tables (phys s) root" using lu(1) by (rule tables_cong)
  have "phys s' x = phys s x" if "\<forall>t \<in> tables (phys s) root. x \<notin> page_of t" for x
    using that t0T slot_in_page [OF pt_wf_aligned [OF inv(2) t0T], of x] by (auto simp: m' store64_apply)
  then have "pt_mod root s s'" using ki wf fl fm tT by (simp add: pt_mod_def)
  then show ?thesis using fm fl tT lu(2) by blast
qed

end
