(* ===== verification/Vmap.thy ===== *)
theory Vmap
  imports Pagetable
begin

text \<open>
  Correctness of \<open>mappages\<close>, \<open>uvmunmap\<close> and \<open>freewalk\<close> of \<open>kernel/vm.c\<close> over the abstract
  view of page tables.
\<close>

section \<open>Pages of a range\<close>

lemma vpn_eq_iff: "aligned a 0 \<Longrightarrow> vpn va = vpn a \<longleftrightarrow> unat a \<le> unat va \<and> unat va < unat a + 4096"
  using block_interval [of a 0 va] by (auto simp: block_def)

lemma PGROUNDDOWN_vpn: "vpn va = vpn a \<Longrightarrow> aligned a 0 \<Longrightarrow> PGROUNDDOWN va = a"
  using PGROUNDDOWN_id [of a] by (simp add: PGROUNDDOWN_bits aligned_def)

lemma next_page:
  assumes "aligned a 0" "unat a + 8192 \<le> 2 ^ 64"
  shows "unat (a + PGSIZE) = unat a + 4096" "aligned (a + PGSIZE) 0"
proof -
  show u: "unat (a + PGSIZE) = unat a + 4096"
    using assms(2) by (subst unat_add_lem [THEN iffD1]) (simp_all add: PGSIZE_def)
  show "aligned (a + PGSIZE) 0" using assms(1) by (simp add: aligned_unat u)
qed

lemma unat_MAXVA: "unat MAXVA = 2 ^ 38"
  by (simp add: MAXVA_def)

text \<open>The translation after mapping \<open>k\<close> pages from \<open>a\<close> to the frames from \<open>pa\<close> on.\<close>

definition map_view :: "u64 \<Rightarrow> nat \<Rightarrow> u64 \<Rightarrow> u64 \<Rightarrow> (u64 \<Rightarrow> u64) \<Rightarrow> u64 \<Rightarrow> u64" where
  "map_view a k pa perm f va =
     (if unat a \<le> unat va \<and> unat va < unat a + k * 4096
      then PA2PTE (pa + (PGROUNDDOWN va - a)) OR perm OR PTE_V else f va)"

lemma map_view_cong: "f va = g va \<Longrightarrow> map_view a k pa perm f va = map_view a k pa perm g va"
  by (simp add: map_view_def)

lemma map_view_Suc:
  assumes "aligned a 0" "unat a + 8192 \<le> 2 ^ 64"
  shows "map_view (a + PGSIZE) k (pa + PGSIZE) perm
      (\<lambda>va. if vpn va = vpn a then PA2PTE pa OR perm OR PTE_V else f va) va =
    map_view a (Suc k) pa perm f va"
proof (cases "vpn va = vpn a")
  case True
  then show ?thesis
    using vpn_eq_iff [OF assms(1), of va] next_page [OF assms] PGROUNDDOWN_vpn [OF True assms(1)]
    by (simp add: map_view_def)
next
  case False
  then show ?thesis
    using vpn_eq_iff [OF assms(1), of va] next_page [OF assms] by (auto simp: map_view_def algebra_simps)
qed

section \<open>mappages\<close>

lemma map_one:
  assumes inv: "kmem_inv s" "pt_wf s root" and va: "a < MAXVA" and nv: "\<not> bit (pte_of (phys s) root a) 0"
  obtains (fail) s1 where "walk root a True s = Ret (0, s1)" "pt_mod root s s1" "free_mem s1 = {}"
      "\<And>va. va < MAXVA \<Longrightarrow> pte_of (phys s1) root va = pte_of (phys s) root va"
  | (ok) pte s1 where "walk root a True s = Ret (pte, s1)" "pte \<noteq> 0" "get_pte s1 pte AND PTE_V = 0"
      "pt_mod root s s1" "\<And>v. pt_mod root s (set_pte pte v s1)" "\<And>v. free_mem (set_pte pte v s1) = free_mem s1"
      "\<And>v va. va < MAXVA \<Longrightarrow> pte_of (phys (set_pte pte v s1)) root va =
         (if vpn va = vpn a then v else pte_of (phys s) root va)"
proof -
  obtain pte s1 where w: "walk_loop 2 root a True s = (pte, s1)" by (cases "walk_loop 2 root a True s")
  have wk: "walk root a True s = Ret (pte, s1)" using va w by (simp add: walk_def)
  note ws = walk_alloc_spec [OF inv va w]
  have ext: "pt_ext root s s1" using ws by blast
  note E = pt_extD [OF ext]
  show thesis
  proof (cases "pte = 0")
    case True
    then show thesis using ws E(1,4) wk fail [of s1] by auto
  next
    case False
    then obtain t where t: "tbl (phys s1) root 2 a = Some t" "pte = pte_slot t 0 a" using ws by blast
    have "get_pte s1 pte = pte_of (phys s1) root a" using t by (simp add: pte_of_def)
    then have z: "get_pte s1 pte AND PTE_V = 0" using E(4) [OF va] nv by (simp add: and_PTE_eq_0)
    note sl = set_leaf_spec [OF E(2,3) va t(1) refl, folded t(2)]
    show thesis
    proof (rule ok [OF wk False z E(1)])
      show "pt_mod root s (set_pte pte v s1)" for v using sl [of v] pt_mod_trans [OF E(1)] by blast
      show "free_mem (set_pte pte v s1) = free_mem s1" for v using sl [of v] by blast
      show "pte_of (phys (set_pte pte v s1)) root va = (if vpn va = vpn a then v else pte_of (phys s) root va)"
        if "va < MAXVA" for v va using sl [of v] E(4) [OF that] that by simp
    qed
  qed
qed

definition unmapped :: "bytemem \<Rightarrow> addr \<Rightarrow> u64 \<Rightarrow> nat \<Rightarrow> bool" where
  "unmapped m root a k \<longleftrightarrow>
     (\<forall>va < MAXVA. unat a \<le> unat va \<and> unat va < unat a + k * 4096 \<longrightarrow> \<not> bit (pte_of m root va) 0)"

lemma map_loop_spec:
  assumes "kmem_inv s" "pt_wf s root" "aligned a 0" "unat a + Suc n * 4096 \<le> 2 ^ 38"
    and "lst = a + of_nat n * PGSIZE" "unmapped (phys s) root a (Suc n)"
  shows "\<exists>r s'. map_loop root a lst pa perm s = Ret (r, s') \<and> pt_mod root s s' \<and>
    ((r = 0 \<and> (\<forall>va < MAXVA. pte_of (phys s') root va = map_view a (Suc n) pa perm (pte_of (phys s) root) va)) \<or>
     (r = - 1 \<and> free_mem s' = {} \<and> (\<exists>k \<le> n. \<forall>va < MAXVA.
        pte_of (phys s') root va = map_view a k pa perm (pte_of (phys s) root) va)))"
  using assms
proof (induction n arbitrary: s a pa)
  case (0 s a pa)
  have va: "a < MAXVA" using 0(4) unat_MAXVA by (simp add: word_less_nat_alt)
  have nv: "\<not> bit (pte_of (phys s) root a) 0" using 0(6) va by (simp add: unmapped_def)
  from 0(1,2) va nv show ?case
  proof (cases rule: map_one)
    case (fail s1)
    then show ?thesis using 0(5)
      by (subst map_loop.simps) (auto simp: map_view_def intro!: exI [of _ 0])
  next
    case (ok pte s1)
    let ?s2 = "set_pte pte (PA2PTE pa OR perm OR PTE_V) s1"
    have "map_loop root a lst pa perm s = Ret (0, ?s2)"
      using ok(1-3) 0(5) by (subst map_loop.simps) simp
    moreover have "pte_of (phys ?s2) root va = map_view a (Suc 0) pa perm (pte_of (phys s) root) va"
      if "va < MAXVA" for va
      using ok(7) [OF that] vpn_eq_iff [OF 0(3), of va] PGROUNDDOWN_vpn [of va a] 0(3) by (simp add: map_view_def)
    ultimately show ?thesis using ok(5) by blast
  qed
next
  case (Suc n s a pa)
  have va: "a < MAXVA" using Suc.prems(4) unat_MAXVA by (simp add: word_less_nat_alt)
  have nv: "\<not> bit (pte_of (phys s) root a) 0" using Suc.prems(6) va by (simp add: unmapped_def)
  have np: "unat (a + PGSIZE) = unat a + 4096" "aligned (a + PGSIZE) 0"
    using next_page [OF Suc.prems(3)] Suc.prems(4) by auto
  from Suc.prems(1,2) va nv show ?case
  proof (cases rule: map_one)
    case (fail s1)
    then show ?thesis
      by (subst map_loop.simps) (auto simp: map_view_def intro!: exI [of _ 0])
  next
    case (ok pte s1)
    define s2 where "s2 = set_pte pte (PA2PTE pa OR perm OR PTE_V) s1"
    have m2: "pt_mod root s s2" unfolding s2_def by (rule ok(5))
    have p2: "pte_of (phys s2) root va =
        (if vpn va = vpn a then PA2PTE pa OR perm OR PTE_V else pte_of (phys s) root va)" if "va < MAXVA" for va
      unfolding s2_def using ok(7) [OF that] .
    have "unmapped (phys s2) root (a + PGSIZE) (Suc n)"
      using Suc.prems(6) p2 vpn_eq_iff [OF Suc.prems(3)] np(1) by (simp add: unmapped_def)
    moreover have ne: "a \<noteq> lst"
    proof
      assume "a = lst"
      then have "of_nat (Suc n) * PGSIZE = 0" using Suc.prems(5) by simp
      moreover have "unat (of_nat (Suc n * 4096) :: u64) = Suc n * 4096"
        using Suc.prems(4) by (intro unat_of_nat_64) simp
      moreover have "of_nat (Suc n) * PGSIZE = of_nat (Suc n * 4096)" by (simp add: PGSIZE_def)
      ultimately show False by simp
    qed
    moreover have "lst = a + PGSIZE + of_nat n * PGSIZE" using Suc.prems(5) by (simp add: algebra_simps)
    ultimately obtain r s' where IH: "map_loop root (a + PGSIZE) lst (pa + PGSIZE) perm s2 = Ret (r, s')"
        "pt_mod root s2 s'"
        "(r = 0 \<and> (\<forall>va < MAXVA. pte_of (phys s') root va =
            map_view (a + PGSIZE) (Suc n) (pa + PGSIZE) perm (pte_of (phys s2) root) va)) \<or>
         (r = - 1 \<and> free_mem s' = {} \<and> (\<exists>k \<le> n. \<forall>va < MAXVA.
            pte_of (phys s') root va = map_view (a + PGSIZE) k (pa + PGSIZE) perm (pte_of (phys s2) root) va))"
      using Suc.IH [OF pt_modD(1,2) [OF m2] np(2), of "pa + PGSIZE"] np(1) Suc.prems(4) by auto
    have view: "map_view (a + PGSIZE) k (pa + PGSIZE) perm (pte_of (phys s2) root) va =
        map_view a (Suc k) pa perm (pte_of (phys s) root) va" if "va < MAXVA" for k va
      using map_view_Suc [OF Suc.prems(3), of k pa perm "pte_of (phys s) root" va] Suc.prems(4)
        map_view_cong [of "pte_of (phys s2) root" va
          "\<lambda>va. if vpn va = vpn a then PA2PTE pa OR perm OR PTE_V else pte_of (phys s) root va"] p2 [OF that]
      by auto
    have "map_loop root a lst pa perm s = Ret (r, s')"
      using ok(1-3) ne IH(1) by (subst map_loop.simps) (simp add: s2_def)
    moreover have "pt_mod root s s'" using pt_mod_trans [OF m2 IH(2)] .
    moreover have "\<exists>k \<le> Suc n. \<forall>va < MAXVA. pte_of (phys s') root va = map_view a k pa perm (pte_of (phys s) root) va"
      if "r \<noteq> 0"
    proof -
      obtain k where "k \<le> n" "\<forall>va < MAXVA. pte_of (phys s') root va =
          map_view (a + PGSIZE) k (pa + PGSIZE) perm (pte_of (phys s2) root) va" using IH(3) \<open>r \<noteq> 0\<close> by blast
      then show ?thesis using view by (intro exI [of _ "Suc k"]) simp
    qed
    ultimately show ?thesis using IH(3) view by auto
  qed
qed

lemma unat_page_size: "n * 4096 < 2 ^ 64 \<Longrightarrow> unat (of_nat n * PGSIZE) = n * 4096"
proof -
  assume "n * 4096 < 2 ^ 64"
  then have "unat (of_nat (n * 4096) :: u64) = n * 4096" by (rule unat_of_nat_64)
  moreover have "of_nat n * PGSIZE = of_nat (n * 4096)" by (simp add: PGSIZE_def)
  ultimately show ?thesis by simp
qed

lemma pages_mod: "(of_nat n * PGSIZE) mod PGSIZE = 0"
proof -
  have "of_nat n * PGSIZE = push_bit 12 (of_nat n)" by (simp add: PGSIZE_def push_bit_eq_mult)
  then show ?thesis by (simp add: mod_PGSIZE take_bit_push_bit)
qed

lemma mappages_spec:
  assumes "kmem_inv s" "pt_wf s root" "aligned va 0" "0 < n" "unat va + n * 4096 \<le> 2 ^ 38"
    and "unmapped (phys s) root va n"
  shows "\<exists>r s'. mappages root va (of_nat n * PGSIZE) pa perm s = Ret (r, s') \<and> pt_mod root s s' \<and>
    ((r = 0 \<and> (\<forall>v < MAXVA. pte_of (phys s') root v = map_view va n pa perm (pte_of (phys s) root) v)) \<or>
     (r = - 1 \<and> free_mem s' = {} \<and> (\<exists>k < n. \<forall>v < MAXVA.
        pte_of (phys s') root v = map_view va k pa perm (pte_of (phys s) root) v)))"
proof -
  obtain k where k: "n = Suc k" using assms(4) by (cases n) auto
  have "unat (of_nat n * PGSIZE) = n * 4096" using assms(5) by (intro unat_page_size) simp
  then have "of_nat n * PGSIZE \<noteq> 0" using assms(4) by (metis mult_is_0 unsigned_0 zero_neq_numeral less_not_refl)
  moreover have lst: "va + of_nat n * PGSIZE - PGSIZE = va + of_nat k * PGSIZE" by (simp add: k algebra_simps)
  ultimately have e: "mappages root va (of_nat n * PGSIZE) pa perm s =
      map_loop root va (va + of_nat k * PGSIZE) pa perm s"
    unfolding mappages_def lst using assms(3) pages_mod [of n] by (simp add: mod_PGSIZE aligned_def)
  show ?thesis
    using map_loop_spec [OF assms(1-3) _ refl, of k pa perm] assms(5,6)
    unfolding e unfolding k less_Suc_eq_le by simp
qed

text \<open>A fresh address space: one empty table.\<close>

lemma uvmcreate_spec:
  assumes "kmem_inv s" "uvmcreate s = (root, s')" "root \<noteq> 0"
  shows "kmem_inv s' \<and> pt_wf s' root \<and> tables (phys s') root = {root} \<and>
    (\<forall>va. pte_of (phys s') root va = 0) \<and> page_of root \<subseteq> free_mem s \<and> free_mem s' = free_mem s - page_of root"
proof -
  obtain s1 where k: "kalloc s = (root, s1)" and s': "s' = zero_page root s1"
    using assms(2,3) by (auto simp: uvmcreate_def split: prod.splits if_splits)
  have ka: "in_use s1 root" "kmem_inv s1" "page_of root \<subseteq> free_mem s" "free_mem s1 = free_mem s - page_of root"
      "refcount s1 = (refcount s)(pa2index root := 1)"
    using kalloc_spec [OF assms(1) k] assms(3) by simp_all
  have al: "aligned root 0" using ka(1) by (simp add: in_use_def)
  have fl: "freelist s' = freelist s1" "kend s' = kend s1" "refcount s' = refcount s1" "order_map s' = order_map s1"
    by (simp_all add: s' zero_page_def)
  have fm: "free_mem s' = free_mem s1" by (rule free_mem_cong [OF fl(1)])
  have ki: "kmem_inv s'" using ka(2) kmem_wf_cong [OF fl(1,2)] fm fl by (simp add: kmem_inv_def usable_def)
  have "load64 (phys s') (pte_slot root l va) = 0" for l va
    using slot_in_page [OF al, of _ l va]
    by (intro load64_zero) (auto simp: s' zero_page_def memset_eq page_of_range [OF al])
  then have t: "tbl (phys s') root d va = (if d = 0 then Some root else None)" for d va
    by (induction d) auto
  have tT: "tables (phys s') root = {root}" by (auto simp: tables_def t MAXVA_def split: if_splits intro!: exI [of _ "0 :: u64"])
  have "live s' root" using ka(1,5) fm fl by (simp add: live_def in_use_def usable_def)
  moreover have "tbl_inj (phys s') root" using prefix_0 by (simp add: tbl_inj_def t)
  ultimately have "pt_wf s' root" using tT by (simp add: pt_wf_def)
  then show ?thesis using ki tT t ka fm by (simp add: pte_of_def)
qed

text \<open>
  C14. \<open>mappages\<close> installs exactly the requested mappings. On a well-formed page table and a
  page-aligned range that has no valid entry and ends below \<open>MAXVA\<close>, it never panics. If it
  returns 0, the entry of every page of the range is the frame at the same distance from
  \<open>pa\<close> with the given permissions, and no other translation has changed. If it returns -1,
  memory is exhausted and a prefix of the range is mapped. In both cases the page table
  is well formed again, and no page outside the tables of this tree that was in use,
  and no reference count of such a page, has changed.
\<close>

theorem mappages_correct:
  assumes "kmem_inv s" "pt_wf s root" "aligned va 0" "0 < n" "unat va + n * 4096 \<le> 2 ^ 38"
    and "unmapped (phys s) root va n"
  shows "\<exists>r s'. mappages root va (of_nat n * PGSIZE) pa perm s = Ret (r, s') \<and> pt_mod root s s' \<and>
    ((r = 0 \<and> (\<forall>v < MAXVA. pte_of (phys s') root v = map_view va n pa perm (pte_of (phys s) root) v)) \<or>
     (r = - 1 \<and> free_mem s' = {} \<and> (\<exists>k < n. \<forall>v < MAXVA.
        pte_of (phys s') root v = map_view va k pa perm (pte_of (phys s) root) v)))"
  using mappages_spec [OF assms] .

lemma sample_space:
  "kmem_inv (snd (uvmcreate sample_kmem)) \<and> pt_wf (snd (uvmcreate sample_kmem)) 0x80400000 \<and>
   (\<forall>va. pte_of (phys (snd (uvmcreate sample_kmem))) 0x80400000 va = 0)"
proof -
  have "fst (uvmcreate sample_kmem) = 0x80400000"
    using sample_kalloc by (cases "kalloc sample_kmem") (simp add: uvmcreate_def)
  then have "uvmcreate sample_kmem = (0x80400000, snd (uvmcreate sample_kmem))" by (metis prod.collapse)
  from uvmcreate_spec [OF sample_inv this] show ?thesis by simp
qed

theorem mappages_correct_witness:
  "\<exists>r s'. mappages 0x80400000 0x1000 (of_nat 2 * PGSIZE) 0x87000000 PTE_U (snd (uvmcreate sample_kmem)) = Ret (r, s')"
  using mappages_correct [of "snd (uvmcreate sample_kmem)" "0x80400000" "0x1000" 2 "0x87000000" PTE_U] sample_space
  by (auto simp: aligned_unat unmapped_def)

section \<open>uvmunmap\<close>

text \<open>Giving up one reference to a live page.\<close>

lemma drop_ref_spec:
  assumes "kmem_inv s" "live s pa"
  shows "\<exists>s'. drop_ref pa s = Ret s' \<and> kmem_inv s' \<and> kend s' = kend s \<and>
    refcount s' = (refcount s)(pa2index pa := refcount s (pa2index pa) - 1) \<and>
    free_mem s' = (if refcount s (pa2index pa) = 1 then free_mem s \<union> page_of pa else free_mem s) \<and>
    (\<forall>x. x \<notin> page_of pa \<or> refcount s (pa2index pa) \<noteq> 1 \<longrightarrow> phys s' x = phys s x)"
proof -
  let ?c = "refcount s (pa2index pa)"
  define n where "n = unat ?c - 1"
  have u: "in_use s pa" "0 < unat ?c" using assms(2) by (simp_all add: live_def word_less_nat_alt)
  have c: "?c = of_nat (Suc n)" using u(2) by (simp add: n_def)
  have n: "n < 255" using unsigned_less [of ?c, where ?'a = nat] by (simp add: n_def)
  have s: "with_ref pa (Suc n) s = s" unfolding with_ref_def c [symmetric] by simp
  show ?thesis
  proof (cases "n = 0")
    case True
    then show ?thesis using drop_ref_last [OF assms(1) u(1)] s c by auto
  next
    case False
    then have "drop_ref pa s = Ret (with_ref pa n s)" using drop_ref_shared [OF u(1), of n] n s by simp
    moreover have "?c \<noteq> 1" using False n by (metis c One_nat_def diff_Suc_1 n_def unsigned_1)
    moreover have "kmem_inv (with_ref pa n s)"
      using kmem_inv_refcount [OF assms(1) u(1)] by (simp add: with_ref_def)
    moreover have "of_nat n = ?c - 1" by (simp add: c)
    ultimately show ?thesis by simp
  qed
qed

text \<open>
  The frames mapped by a range, and what freeing them needs: every valid entry is a leaf,
  its frame is a live page that is not a table of this tree, and no frame is mapped twice.
\<close>

definition in_pages :: "u64 \<Rightarrow> u64 \<Rightarrow> nat \<Rightarrow> bool" where
  "in_pages va a k \<longleftrightarrow> unat a \<le> unat va \<and> unat va < unat a + k * 4096"

definition frames :: "bytemem \<Rightarrow> addr \<Rightarrow> u64 \<Rightarrow> nat \<Rightarrow> addr set" where
  "frames m root a k =
     {PTE2PA (pte_of m root va) | va. va < MAXVA \<and> bit (pte_of m root va) 0 \<and> in_pages va a k}"

definition leaves_ok :: "kmem \<Rightarrow> addr \<Rightarrow> u64 \<Rightarrow> nat \<Rightarrow> bool" where
  "leaves_ok s root a k \<longleftrightarrow>
     (\<forall>va < MAXVA. in_pages va a k \<and> bit (pte_of (phys s) root va) 0 \<longrightarrow>
        PTE_FLAGS (pte_of (phys s) root va) \<noteq> PTE_V \<and> live s (PTE2PA (pte_of (phys s) root va)) \<and>
        PTE2PA (pte_of (phys s) root va) \<notin> tables (phys s) root \<and>
        (\<forall>va' < MAXVA. in_pages va' a k \<and> bit (pte_of (phys s) root va') 0 \<and>
           PTE2PA (pte_of (phys s) root va') = PTE2PA (pte_of (phys s) root va) \<longrightarrow> vpn va = vpn va'))"

lemma in_pages_0 [simp]: "\<not> in_pages va a 0"
  by (simp add: in_pages_def)

lemma in_pages_Suc:
  "unat (a + PGSIZE) = unat a + 4096 \<Longrightarrow>
   in_pages va a (Suc k) \<longleftrightarrow> in_pages va a 1 \<or> in_pages va (a + PGSIZE) k"
  by (auto simp: in_pages_def)

lemma in_pages_apart: "unat (a + PGSIZE) = unat a + 4096 \<Longrightarrow> in_pages va (a + PGSIZE) k \<Longrightarrow> \<not> in_pages va a 1"
  by (auto simp: in_pages_def)

lemma in_pages_1: "aligned a 0 \<Longrightarrow> in_pages va a 1 \<longleftrightarrow> vpn va = vpn a"
  using vpn_eq_iff [of a va] by (auto simp: in_pages_def)

lemma frames_Suc:
  "unat (a + PGSIZE) = unat a + 4096 \<Longrightarrow>
   frames m root a (Suc k) = frames m root a 1 \<union> frames m root (a + PGSIZE) k"
  unfolding frames_def using in_pages_Suc [of a _ k] by blast

text \<open>What unmapping a range leaves behind; \<open>P\<close> are the frames that lose a reference.\<close>

definition unmap_post :: "addr \<Rightarrow> u64 \<Rightarrow> nat \<Rightarrow> addr set \<Rightarrow> kmem \<Rightarrow> kmem \<Rightarrow> bool" where
  "unmap_post root a k P s s' \<longleftrightarrow>
     kmem_inv s' \<and> pt_wf s' root \<and> kend s' = kend s \<and> tables (phys s') root = tables (phys s) root \<and>
     (\<forall>va < MAXVA. pte_of (phys s') root va =
        (if in_pages va a k \<and> bit (pte_of (phys s) root va) 0 then 0 else pte_of (phys s) root va)) \<and>
     (\<forall>x \<in> usable s. refcount s' (pa2index x) =
        refcount s (pa2index x) - (if \<exists>q \<in> P. x \<in> page_of q then 1 else 0)) \<and>
     free_mem s' = free_mem s \<union> (\<Union>q \<in> {q \<in> P. refcount s (pa2index q) = 1}. page_of q) \<and>
     (\<forall>x. (\<forall>t \<in> tables (phys s) root. x \<notin> page_of t) \<longrightarrow>
        (\<forall>q \<in> P. x \<in> page_of q \<longrightarrow> refcount s (pa2index q) \<noteq> 1) \<longrightarrow> phys s' x = phys s x)"

lemma unmap_post_skip:
  assumes "kmem_inv s" "pt_wf s root" "\<And>va. va < MAXVA \<Longrightarrow> in_pages va a k \<Longrightarrow> \<not> bit (pte_of (phys s) root va) 0"
  shows "unmap_post root a k {} s s"
  using assms by (auto simp: unmap_post_def)

lemma unmap_post_one:
  assumes inv: "kmem_inv s" "pt_wf s root" and va0: "a < MAXVA" "aligned a 0"
    and t0: "tbl (phys s) root 2 a = Some t0" and lv: "live s pa" and nt: "pa \<notin> tables (phys s) root"
    and dr: "drop_ref pa s = Ret s1" and vb: "bit (pte_of (phys s) root a) 0"
  shows "unmap_post root a 1 {pa} s (set_pte (pte_slot t0 0 a) 0 s1)"
proof -
  have D: "kmem_inv s1" "kend s1 = kend s"
      "refcount s1 = (refcount s)(pa2index pa := refcount s (pa2index pa) - 1)"
      "free_mem s1 = (if refcount s (pa2index pa) = 1 then free_mem s \<union> page_of pa else free_mem s)"
      "\<And>x. x \<notin> page_of pa \<or> refcount s (pa2index pa) \<noteq> 1 \<Longrightarrow> phys s1 x = phys s x"
    using drop_ref_spec [OF inv(1) lv] dr by auto
  have kw: "kmem_wf s" using inv(1) by (simp add: kmem_inv_def)
  have us: "usable s1 = usable s" using D(2) by (simp add: usable_def)
  have alp: "aligned pa 0" "pa \<in> usable s" using lv in_use_usable by (auto simp: live_def in_use_def)
  have dis: "page_of t \<inter> page_of pa = {}" if "t \<in> tables (phys s) root" for t
    using that nt pt_wf_aligned [OF inv(2) that] alp by (intro page_of_disjoint) auto
  have fr: "\<And>d va. d \<le> 2 \<Longrightarrow> va < MAXVA \<Longrightarrow> tbl (phys s1) root d va = tbl (phys s) root d va"
      "\<And>va. va < MAXVA \<Longrightarrow> pte_of (phys s1) root va = pte_of (phys s) root va"
      "tables (phys s1) root = tables (phys s) root"
    using pt_frame [OF inv(2), of "phys s1"] D(5) dis by blast+
  have idx: "pa2index x = pa2index pa \<longleftrightarrow> x \<in> page_of pa" if "x \<in> usable s" for x
    using pa2index_usable [OF kw alp(2) that] by auto
  have "live s1 t" if "t \<in> tables (phys s) root" "live s t" for t
  proof -
    have "t \<notin> page_of pa" using dis [OF that(1)] page_of_self by blast
    then have "refcount s1 (pa2index t) = refcount s (pa2index t)"
      using idx [of t] that(2) in_use_usable by (auto simp: D(3) live_def)
    moreover have "page_of t \<inter> free_mem s1 = {}"
      using that(2) dis [OF that(1)] D(4) by (auto simp: live_def in_use_def split: if_splits)
    ultimately show ?thesis using that(2) us by (simp add: live_def in_use_def)
  qed
  then have wf1: "pt_wf s1 root" by (intro pt_wf_cong [OF inv(2) fr(1)]) auto
  have t1: "tbl (phys s1) root 2 a = Some t0" using fr(1) t0 va0 by simp
  note sl = set_leaf_spec [OF D(1) wf1 va0(1) t1 refl, of 0]
  let ?s2 = "set_pte (pte_slot t0 0 a) 0 s1"
  have M: "pt_mod root s1 ?s2" using sl by blast
  have "pte_of (phys ?s2) root va = (if in_pages va a 1 \<and> bit (pte_of (phys s) root va) 0 then 0 else pte_of (phys s) root va)"
    if "va < MAXVA" for va
    using sl that fr(2) [OF that] in_pages_1 [OF va0(2), of va] vb pte_of_vpn [of va a] by auto
  moreover have "phys ?s2 x = phys s x" if "\<forall>t \<in> tables (phys s) root. x \<notin> page_of t" "x \<notin> page_of pa \<or> refcount s (pa2index pa) \<noteq> 1" for x
  proof -
    have tT: "t0 \<in> tables (phys s) root" using t0 va0 by (intro tablesI) auto
    have "\<not> in_range x (pte_slot t0 0 a) 8"
      using that(1) tT slot_in_page [OF pt_wf_aligned [OF inv(2) tT], of x] by auto
    then show ?thesis using D(5) [OF that(2)] by (simp add: set_pte_def store64_apply)
  qed
  moreover have "refcount ?s2 (pa2index x) = refcount s (pa2index x) - (if \<exists>q \<in> {pa}. x \<in> page_of q then 1 else 0)"
    if "x \<in> usable s" for x
  proof (cases "x \<in> page_of pa")
    case True
    then have "pa2index x = pa2index pa" using idx [OF that] by simp
    then show ?thesis using sl D(3) True by simp
  next
    case False
    then show ?thesis using sl D(3) idx [OF that] by simp
  qed
  ultimately show ?thesis
    unfolding unmap_post_def using sl pt_modD(1,2,3) [OF M] D(2,4) fr(3) by auto
qed

lemma unmap_postD:
  assumes "unmap_post root a k P s s'"
  shows "kmem_inv s'" "pt_wf s' root" "kend s' = kend s" "tables (phys s') root = tables (phys s) root"
    and "\<And>va. va < MAXVA \<Longrightarrow> pte_of (phys s') root va =
        (if in_pages va a k \<and> bit (pte_of (phys s) root va) 0 then 0 else pte_of (phys s) root va)"
    and "\<And>x. x \<in> usable s \<Longrightarrow> refcount s' (pa2index x) =
        refcount s (pa2index x) - (if \<exists>q \<in> P. x \<in> page_of q then 1 else 0)"
    and "free_mem s' = free_mem s \<union> (\<Union>q \<in> {q \<in> P. refcount s (pa2index q) = 1}. page_of q)"
    and "\<And>x. (\<forall>t \<in> tables (phys s) root. x \<notin> page_of t) \<Longrightarrow> (\<forall>q \<in> P. x \<in> page_of q \<longrightarrow> refcount s (pa2index q) \<noteq> 1) \<Longrightarrow> phys s' x = phys s x"
  using assms unfolding unmap_post_def by blast+

lemma unmap_post_trans:
  assumes A: "unmap_post root a 1 P s s1" and B: "unmap_post root (a + PGSIZE) k Q s1 s2"
    and np: "unat (a + PGSIZE) = unat a + 4096" and us: "\<And>q. q \<in> P \<union> Q \<Longrightarrow> q \<in> usable s"
    and dis: "\<And>p q. p \<in> P \<Longrightarrow> q \<in> Q \<Longrightarrow> page_of p \<inter> page_of q = {}"
  shows "unmap_post root a (Suc k) (P \<union> Q) s s2"
proof -
  note A = unmap_postD [OF A] and B = unmap_postD [OF B]
  have us1: "usable s1 = usable s" using A(3) by (simp add: usable_def)
  have one: "\<not> ((\<exists>q \<in> P. x \<in> page_of q) \<and> (\<exists>q \<in> Q. x \<in> page_of q))" for x using dis by blast
  have rc: "refcount s2 (pa2index x) = refcount s (pa2index x) - (if \<exists>q \<in> P \<union> Q. x \<in> page_of q then 1 else 0)"
    if "x \<in> usable s" for x
    using A(6) [OF that] B(6) [unfolded us1, OF that] one [of x] by auto
  have r1: "refcount s1 (pa2index q) = refcount s (pa2index q)" if "q \<in> Q" for q
  proof -
    have "\<not> (\<exists>p \<in> P. q \<in> page_of p)" using dis [OF _ that] page_of_self [of q] by blast
    then show ?thesis using A(6) [OF us, of q] that by simp
  qed
  have fm: "free_mem s2 = free_mem s \<union> (\<Union>q \<in> {q \<in> P \<union> Q. refcount s (pa2index q) = 1}. page_of q)"
    unfolding B(7) A(7) using r1 by auto
  have pt: "pte_of (phys s2) root va =
      (if in_pages va a (Suc k) \<and> bit (pte_of (phys s) root va) 0 then 0 else pte_of (phys s) root va)"
    if "va < MAXVA" for va
    using A(5) [OF that] B(5) [OF that] in_pages_Suc [OF np, of va k] by auto
  have "phys s2 x = phys s x" if "\<forall>t \<in> tables (phys s) root. x \<notin> page_of t"
    "\<forall>q \<in> P \<union> Q. x \<in> page_of q \<longrightarrow> refcount s (pa2index q) \<noteq> 1" for x
    using A(8) [of x] B(8) [of x] that A(4) r1 by auto
  then show ?thesis using rc fm pt A(3,4) B(1-4) unfolding unmap_post_def by simp
qed

lemma unmap_post_live:
  assumes "unmap_post root a k P s s1" "kmem_inv s" "live s q" "\<And>p. p \<in> P \<Longrightarrow> page_of q \<inter> page_of p = {}"
  shows "live s1 q"
proof -
  note A = unmap_postD [OF assms(1)]
  have "\<not> (\<exists>p \<in> P. q \<in> page_of p)" using assms(4) page_of_self [of q] by blast
  then have "refcount s1 (pa2index q) = refcount s (pa2index q)"
    using A(6) [of q] assms(3) in_use_usable [of s q] by (simp add: live_def)
  moreover have "page_of q \<inter> free_mem s1 = {}" using assms(3,4) A(7) by (auto simp: live_def in_use_def)
  ultimately show ?thesis using assms(3) A(3) by (simp add: live_def in_use_def usable_def)
qed

lemma leaves_okD:
  assumes "leaves_ok s root a k" "va < MAXVA" "in_pages va a k" "bit (pte_of (phys s) root va) 0"
  shows "PTE_FLAGS (pte_of (phys s) root va) \<noteq> PTE_V" "live s (PTE2PA (pte_of (phys s) root va))"
    "PTE2PA (pte_of (phys s) root va) \<notin> tables (phys s) root"
    and "\<And>va'. va' < MAXVA \<Longrightarrow> in_pages va' a k \<Longrightarrow> bit (pte_of (phys s) root va') 0 \<Longrightarrow>
      PTE2PA (pte_of (phys s) root va') = PTE2PA (pte_of (phys s) root va) \<Longrightarrow> vpn va = vpn va'"
  using assms unfolding leaves_ok_def by blast+

lemma frames_apart:
  assumes ok: "leaves_ok s root a (Suc k)" and np: "unat (a + PGSIZE) = unat a + 4096" and al: "aligned a 0"
    and p: "p \<in> frames (phys s) root a 1" and q: "q \<in> frames (phys s) root (a + PGSIZE) k"
  shows "page_of p \<inter> page_of q = {}" "live s p" "live s q"
proof -
  obtain v where v: "v < MAXVA" "bit (pte_of (phys s) root v) 0" "in_pages v a 1" "p = PTE2PA (pte_of (phys s) root v)"
    using p unfolding frames_def by blast
  obtain w where w: "w < MAXVA" "bit (pte_of (phys s) root w) 0" "in_pages w (a + PGSIZE) k"
      "q = PTE2PA (pte_of (phys s) root w)"
    using q unfolding frames_def by blast
  have wide: "in_pages v a (Suc k)" "in_pages w a (Suc k)" using v(3) w(3) in_pages_Suc [OF np] by blast+
  note L = leaves_okD [OF ok v(1) wide(1) v(2)] and M = leaves_okD [OF ok w(1) wide(2) w(2)]
  show "live s p" "live s q" using L(2) M(2) v(4) w(4) by auto
  have "p \<noteq> q"
  proof
    assume "p = q"
    then have "vpn v = vpn w" using L(4) [OF w(1) wide(2) w(2)] v(4) w(4) by simp
    then have "in_pages w a 1" using v(3) in_pages_1 [OF al] by simp
    then show False using in_pages_apart [OF np w(3)] by simp
  qed
  then show "page_of p \<inter> page_of q = {}"
    using \<open>live s p\<close> \<open>live s q\<close> by (intro page_of_disjoint) (auto simp: live_def in_use_def)
qed

lemma frames_cong:
  "(\<And>va. va < MAXVA \<Longrightarrow> in_pages va a k \<Longrightarrow> pte_of m' root va = pte_of m root va) \<Longrightarrow>
   frames m' root a k = frames m root a k"
  unfolding frames_def by (intro Collect_cong) (metis (no_types))

text \<open>The conditions for a part of the range survive a step that keeps its entries.\<close>

lemma leaves_ok_mono:
  assumes ok: "leaves_ok s root a k" and sub: "\<And>va. in_pages va b j \<Longrightarrow> in_pages va a k"
    and same: "\<And>va. va < MAXVA \<Longrightarrow> in_pages va b j \<Longrightarrow> pte_of (phys s1) root va = pte_of (phys s) root va"
    and tab: "tables (phys s1) root = tables (phys s) root"
    and lv: "\<And>q. q \<in> frames (phys s) root b j \<Longrightarrow> live s q \<Longrightarrow> live s1 q"
  shows "leaves_ok s1 root b j"
  unfolding leaves_ok_def
proof (intro allI impI)
  fix va assume va: "va < MAXVA" and v: "in_pages va b j \<and> bit (pte_of (phys s1) root va) 0"
  have eq: "pte_of (phys s1) root va = pte_of (phys s) root va" using same va v by blast
  have vb: "bit (pte_of (phys s) root va) 0" using v eq by simp
  note L = leaves_okD [OF ok va sub [OF conjunct1 [OF v]] vb]
  have "PTE2PA (pte_of (phys s) root va) \<in> frames (phys s) root b j" using va v vb unfolding frames_def by blast
  from lv [OF this L(2)] show "PTE_FLAGS (pte_of (phys s1) root va) \<noteq> PTE_V \<and> live s1 (PTE2PA (pte_of (phys s1) root va)) \<and>
      PTE2PA (pte_of (phys s1) root va) \<notin> tables (phys s1) root \<and>
      (\<forall>va' < MAXVA. in_pages va' b j \<and> bit (pte_of (phys s1) root va') 0 \<and>
        PTE2PA (pte_of (phys s1) root va') = PTE2PA (pte_of (phys s1) root va) \<longrightarrow> vpn va = vpn va')"
    unfolding eq tab using L same sub by auto
qed

lemma leaves_ok_rest:
  assumes ok: "leaves_ok s root a (Suc k)" and np: "unat (a + PGSIZE) = unat a + 4096" and al: "aligned a 0"
    and inv: "kmem_inv s" and post: "unmap_post root a 1 (frames (phys s) root a 1) s s1"
  shows "leaves_ok s1 root (a + PGSIZE) k"
proof (rule leaves_ok_mono [OF ok])
  note A = unmap_postD [OF post]
  show "in_pages va a (Suc k)" if "in_pages va (a + PGSIZE) k" for va
    using in_pages_Suc [OF np, of va k] that by blast
  show "pte_of (phys s1) root va = pte_of (phys s) root va" if "va < MAXVA" "in_pages va (a + PGSIZE) k" for va
    using A(5) [OF that(1)] in_pages_apart [OF np that(2)] by simp
  show "tables (phys s1) root = tables (phys s) root" by (rule A(4))
  show "live s1 q" if "q \<in> frames (phys s) root (a + PGSIZE) k" "live s q" for q
    using unmap_post_live [OF post inv that(2)] frames_apart(1) [OF ok np al _ that(1)] by (metis Int_commute)
qed

lemma unmap_page:
  assumes inv: "kmem_inv s" "pt_wf s root" and al: "aligned a 0" and va: "a < MAXVA"
    and lt: "a < va_end" and ok: "leaves_ok s root a 1"
  shows "\<exists>s1. unmap_loop root a va_end True s = unmap_loop root (a + PGSIZE) va_end True s1 \<and>
    unmap_post root a 1 (frames (phys s) root a 1) s s1"
proof -
  define e where "e = pte_of (phys s) root a"
  have ia: "in_pages a a 1" by (simp add: in_pages_def)
  have pe: "pte_of (phys s) root v = e" if "in_pages v a 1" for v
    unfolding e_def using that in_pages_1 [OF al, of v] by (intro pte_of_vpn) simp
  have w: "walk root a False s = Ret (case tbl (phys s) root 2 a of None \<Rightarrow> 0 | Some t \<Rightarrow> pte_slot t 0 a, s)"
    using va by (simp add: walk_def walk_loop_noalloc)
  have kw: "kmem_wf s" using inv(1) by (simp add: kmem_inv_def)
  show ?thesis
  proof (cases "bit e 0")
    case False
    then have "unmap_loop root a va_end True s = unmap_loop root (a + PGSIZE) va_end True s"
      using w lt by (subst unmap_loop.simps) (simp add: e_def pte_of_def and_PTE_eq_0 split: option.splits)
    moreover have "unmap_post root a 1 {} s s" using False pe by (intro unmap_post_skip [OF inv]) simp
    moreover have "frames (phys s) root a 1 = {}" using False pe unfolding frames_def by auto
    ultimately show ?thesis by auto
  next
    case True
    then obtain t0 where t0: "tbl (phys s) root 2 a = Some t0" by (auto simp: e_def pte_of_def split: option.splits)
    then have e: "e = load64 (phys s) (pte_slot t0 0 a)" by (simp add: e_def pte_of_def)
    have nz: "pte_slot t0 0 a \<noteq> 0" using slot_nonzero [OF kw pt_wf_in_use [OF inv(2) t0 _ va]] by simp
    note L = leaves_okD [OF ok va ia True [unfolded e_def], folded e_def]
    obtain s1 where dr: "drop_ref (PTE2PA e) s = Ret s1" using drop_ref_spec [OF inv(1) L(2)] by auto
    have "unmap_loop root a va_end True s = unmap_loop root (a + PGSIZE) va_end True (set_pte (pte_slot t0 0 a) 0 s1)"
      using w t0 nz lt True L(1) dr by (subst unmap_loop.simps) (simp add: e and_PTE_eq_0)
    moreover have "frames (phys s) root a 1 = {PTE2PA e}" using True pe va ia unfolding frames_def by auto
    ultimately show ?thesis using unmap_post_one [OF inv va al t0 L(2,3) dr True [unfolded e_def]] by auto
  qed
qed

lemma unmap_loop_spec:
  assumes "kmem_inv s" "pt_wf s root" "aligned a 0" "unat a + n * 4096 \<le> 2 ^ 38"
    and "va_end = a + of_nat n * PGSIZE" "leaves_ok s root a n"
  shows "\<exists>s'. unmap_loop root a va_end True s = Ret s' \<and>
    unmap_post root a n (frames (phys s) root a n) s s'"
  using assms
proof (induction n arbitrary: s a)
  case 0
  then show ?case
    using unmap_post_skip [OF 0(1,2), of a 0] by (subst unmap_loop.simps) (simp add: frames_def)
next
  case (Suc n)
  have va: "a < MAXVA" using Suc.prems(4) unat_MAXVA by (simp add: word_less_nat_alt)
  have np: "unat (a + PGSIZE) = unat a + 4096" "aligned (a + PGSIZE) 0"
    using next_page [OF Suc.prems(3)] Suc.prems(4) by auto
  have "unat va_end = unat a + Suc n * 4096"
    unfolding Suc.prems(5) using Suc.prems(4) unat_page_size [of "Suc n"] by (subst unat_add_lem [THEN iffD1]) simp_all
  then have lt: "a < va_end" by (simp add: word_less_nat_alt)
  have w1: "in_pages v a (Suc n)" if "in_pages v a 1" for v
    using that in_pages_Suc [OF np(1)] by blast
  then have ok1: "leaves_ok s root a 1" using Suc.prems(6) unfolding leaves_ok_def by blast
  obtain s1 where s1: "unmap_loop root a va_end True s = unmap_loop root (a + PGSIZE) va_end True s1"
      "unmap_post root a 1 (frames (phys s) root a 1) s s1"
    using unmap_page [OF Suc.prems(1-3) va lt ok1] by blast
  note A = unmap_postD [OF s1(2)]
  have ok2: "leaves_ok s1 root (a + PGSIZE) n"
    by (rule leaves_ok_rest [OF Suc.prems(6) np(1) Suc.prems(3,1) s1(2)])
  have "va_end = a + PGSIZE + of_nat n * PGSIZE" using Suc.prems(5) by (simp add: algebra_simps)
  from Suc.IH [OF A(1,2) np(2) _ this ok2] obtain s' where s': "unmap_loop root (a + PGSIZE) va_end True s1 = Ret s'"
      "unmap_post root (a + PGSIZE) n (frames (phys s1) root (a + PGSIZE) n) s1 s'"
    using Suc.prems(4) np(1) by auto
  have fr: "frames (phys s1) root (a + PGSIZE) n = frames (phys s) root (a + PGSIZE) n"
    using A(5) in_pages_apart [OF np(1)] by (intro frames_cong) simp
  have "unmap_post root a (Suc n) (frames (phys s) root a 1 \<union> frames (phys s) root (a + PGSIZE) n) s s'"
  proof (rule unmap_post_trans [OF s1(2) s'(2) [unfolded fr] np(1)])
    fix q assume "q \<in> frames (phys s) root a 1 \<union> frames (phys s) root (a + PGSIZE) n"
    then have "q \<in> frames (phys s) root a (Suc n)" using frames_Suc [OF np(1)] by blast
    then have "live s q" using leaves_okD(2) [OF Suc.prems(6)] unfolding frames_def by blast
    then show "q \<in> usable s" by (simp add: live_def in_use_usable)
  next
    fix p q assume "p \<in> frames (phys s) root a 1" "q \<in> frames (phys s) root (a + PGSIZE) n"
    then show "page_of p \<inter> page_of q = {}" by (rule frames_apart(1) [OF Suc.prems(6) np(1) Suc.prems(3)])
  qed
  then show ?case using s1(1) s'(1) frames_Suc [OF np(1), of "phys s" root n] by auto
qed

lemma uvmunmap_spec:
  assumes "kmem_inv s" "pt_wf s root" "aligned va 0" "unat va + n * 4096 \<le> 2 ^ 38" "leaves_ok s root va n"
  shows "\<exists>s'. uvmunmap root va (of_nat n) True s = Ret s' \<and>
    unmap_post root va n (frames (phys s) root va n) s s'"
  using unmap_loop_spec [OF assms(1-4) refl assms(5)] assms(3)
  by (simp add: uvmunmap_def mod_PGSIZE aligned_def)



section \<open>Freeing an address space\<close>

lemma freewalk_entries_empty:
  "(\<And>j. i \<le> j \<Longrightarrow> j < i + n \<Longrightarrow> load64 (phys s) (root + 8 * of_nat j) = 0) \<Longrightarrow>
   freewalk_entries rec root i n s = Ret s"
  by (induction n arbitrary: i) simp_all

text \<open>
  C16. Creating an address space and freeing it again loses a page. The table page from
  \<open>kalloc\<close> has reference count 1 and \<open>freewalk\<close> hands it to \<open>kfree\<close> without \<open>decref\<close>,
  which then keeps it: the page is neither free nor reachable.
\<close>

theorem uvmfree_leaks_table:
  assumes "kmem_inv s" "uvmcreate s = (root, s1)" "root \<noteq> 0"
  shows "uvmfree root 0 s1 = Ret s1 \<and> free_mem s1 = free_mem s - page_of root \<and> page_of root \<subseteq> free_mem s"
proof -
  note U = uvmcreate_spec [OF assms]
  have lv: "live s1 root" using U by (simp add: pt_wf_def)
  have al: "aligned root 0" using lv by (simp add: live_def in_use_def)
  obtain s0 where s1: "s1 = zero_page root s0"
    using assms(2,3) by (auto simp: uvmcreate_def split: prod.splits if_splits)
  have "load64 (phys s1) (root + 8 * of_nat j) = 0" if "j < 512" for j
  proof -
    have b: "unat root + 4096 \<le> 2 ^ 64"
      using al unat_less_64 [of root] by (auto simp: aligned_unat elim!: dvdE)
    have "unat (root + of_nat (8 * j)) = unat root + 8 * j"
      by (rule unat_plus_of_nat) (use b that in linarith)
    then have u: "unat (root + 8 * of_nat j) = unat root + 8 * j" by simp
    have "in_range x root 4096" if "in_range x (root + 8 * of_nat j) 8" for x
      using that \<open>j < 512\<close> b u by (simp add: in_range_nowrap)
    then show ?thesis by (intro load64_zero) (simp add: s1 zero_page_def memset_eq)
  qed
  then have fw: "freewalk_entries rec root 0 512 s1 = Ret s1" for rec by (intro freewalk_entries_empty) simp
  have "kfree root s1 = Ret s1"
    using lv not_bad_pa [of s1 root] by (simp add: kfree_def getref_def live_def)
  moreover have "freewalk 3 root s1 = kbind (freewalk_entries (freewalk 2) root 0 512 s1) (kfree root)"
    using freewalk.simps(2) [of 2 root s1] by (simp del: freewalk.simps freewalk_entries.simps)
  ultimately have "freewalk 3 root s1 = Ret s1" by (simp only: fw kbind.simps)
  then show ?thesis using U by (simp add: uvmfree_def del: freewalk.simps)
qed

theorem uvmfree_leaks_table_witness:
  "uvmfree 0x80400000 0 (snd (uvmcreate sample_kmem)) = Ret (snd (uvmcreate sample_kmem))"
proof -
  have "fst (uvmcreate sample_kmem) = 0x80400000"
    using sample_kalloc by (cases "kalloc sample_kmem") (simp add: uvmcreate_def)
  then have "uvmcreate sample_kmem = (0x80400000, snd (uvmcreate sample_kmem))" by (metis prod.collapse)
  from uvmfree_leaks_table [OF sample_inv this] show ?thesis by simp
qed

end
