(* ===== verification/Pagefault.thy ===== *)
theory Pagefault
  imports Vmap
begin

text \<open>
  What the page-fault handler of \<open>kernel/trap.c\<close> does to memory: a page that has not been touched
  yet is allocated, a page shared by \<open>fork\<close> is copied when it is written.
\<close>

section \<open>The two kinds of page fault\<close>

text \<open>Allocate a zeroed page at \<open>va\<close>: 0, or the failure (1: no page, 2: no page-table page).\<close>

definition lazy_alloc :: "addr \<Rightarrow> u64 \<Rightarrow> kmem \<Rightarrow> (nat \<times> kmem) kres" where
  "lazy_alloc pt va s =
     (case kalloc s of (mem, s1) \<Rightarrow>
        if mem = 0 then Ret (1, s1)
        else kbind (mappages pt (PGROUNDDOWN va) PGSIZE mem (PTE_W OR PTE_X OR PTE_R OR PTE_U) (zero_page mem s1)) (\<lambda>(r, s2).
               if r \<noteq> 0 then kbind (kfree mem s2) (\<lambda>s3. Ret (2, s3)) else Ret (0, s2)))"

text \<open>Give the faulting process its own copy of a shared page: the entry is at address \<open>pte\<close>.\<close>

definition cow_fault :: "addr \<Rightarrow> kmem \<Rightarrow> (nat \<times> kmem) kres" where
  "cow_fault pte s =
     (let pa = PTE2PA (get_pte s pte)
      in case kalloc s of (mem, s1) \<Rightarrow>
           if mem = 0 then Ret (1, s1)
           else let s2 = s1\<lparr>phys := memmove (phys s1) mem pa 4096\<rparr>;
                    flags = (PTE_FLAGS (get_pte s2 pte) AND NOT PTE_COW) OR PTE_W;
                    s3 = set_pte pte (PA2PTE mem OR flags OR PTE_V) s2
                in kbind (decref pa s3) (\<lambda>(freed, s4).
                     if freed then kbind (kfree pa s4) (\<lambda>s5. Ret (0, s5)) else Ret (0, s4)))"

section \<open>A fresh page\<close>

text \<open>Filling a freshly allocated page disturbs no page table.\<close>

lemma fresh_page:
  assumes inv: "kmem_inv s" "pt_wf s root" and k: "kalloc s = (mem, s1)" "mem \<noteq> 0"
    and s2: "s2 = s1\<lparr>phys := m\<rparr>" and m: "\<forall>x. x \<notin> page_of mem \<longrightarrow> m x = phys s x"
  shows "kmem_inv s2" "pt_wf s2 root" "free_mem s2 = free_mem s - page_of mem" "page_of mem \<subseteq> free_mem s"
    "refcount s2 = (refcount s)(pa2index mem := 1)" "kend s2 = kend s" "live s2 mem"
    "tables (phys s2) root = tables (phys s) root"
    "\<And>d va. d \<le> 2 \<Longrightarrow> va < MAXVA \<Longrightarrow> tbl (phys s2) root d va = tbl (phys s) root d va"
    "\<And>va. va < MAXVA \<Longrightarrow> pte_of (phys s2) root va = pte_of (phys s) root va"
    "\<And>q. live s q \<Longrightarrow> live s2 q"
    "\<And>q. live s q \<Longrightarrow> page_of q \<inter> page_of mem = {}"
proof -
  have ka: "kmem_inv s1" "in_use s1 mem" "page_of mem \<subseteq> free_mem s" "free_mem s1 = free_mem s - page_of mem"
    "kend s1 = kend s" "refcount s1 = (refcount s)(pa2index mem := 1)"
    using kalloc_spec [OF inv(1) k(1)] k(2) by auto
  have fl: "freelist s2 = freelist s1" "kend s2 = kend s1" "refcount s2 = refcount s1" "order_map s2 = order_map s1"
    by (simp_all add: s2)
  have fm: "free_mem s2 = free_mem s1" by (rule free_mem_cong [OF fl(1)])
  have us: "usable s2 = usable s" "usable s1 = usable s" using ka(5) fl(2) by (simp_all add: usable_def)
  show "kmem_inv s2" using ka(1) kmem_wf_cong [OF fl(1,2)] fm fl by (simp add: kmem_inv_def usable_def)
  show "free_mem s2 = free_mem s - page_of mem" "page_of mem \<subseteq> free_mem s" "refcount s2 = (refcount s)(pa2index mem := 1)"
    "kend s2 = kend s" using ka fm fl by simp_all
  show "live s2 mem" using ka(2,6) fm fl us by (simp add: live_def in_use_def)
  show dis: "page_of q \<inter> page_of mem = {}" if "live s q" for q
    using that ka(3) by (auto simp: live_def in_use_def)
  have kw: "kmem_wf s" using inv(1) by (simp add: kmem_inv_def)
  show live: "live s2 q" if q: "live s q" for q
  proof -
    have u: "mem \<in> usable s" "q \<in> usable s"
      using ka(2) us q in_use_usable [of s1 mem] in_use_usable [of s q] by (auto simp: live_def)
    have "q \<notin> page_of mem" using dis [OF q] page_of_self [of q] by blast
    then have "pa2index q \<noteq> pa2index mem" using pa2index_usable [OF kw u] by auto
    then show ?thesis using q ka fm fl us by (auto simp: live_def in_use_def)
  qed
  have fr: "m x = phys s x" if "t \<in> tables (phys s) root" "x \<in> page_of t" for t x
    using m dis [of t] that inv(2) by (auto simp: pt_wf_def)
  have f2: "phys s2 = m" by (simp add: s2)
  show tb: "tbl (phys s2) root d va = tbl (phys s) root d va" if "d \<le> 2" "va < MAXVA" for d va
    unfolding f2 using pt_frame(1) [OF inv(2) fr that] .
  show "pte_of (phys s2) root va = pte_of (phys s) root va" if "va < MAXVA" for va
    unfolding f2 using pt_frame(2) [OF inv(2) fr that] .
  show "tables (phys s2) root = tables (phys s) root"
    unfolding f2 using pt_frame(3) [OF inv(2) fr] .
  show "pt_wf s2 root" by (rule pt_wf_cong [OF inv(2) tb live]) auto
qed

section \<open>Copy on write\<close>

text \<open>Dropping the reference to a frame that is no table keeps the page table.\<close>

lemma drop_frame:
  assumes inv: "kmem_inv s" "pt_wf s root" and pa: "live s pa" "pa \<notin> tables (phys s) root"
  shows "\<exists>s'. drop_ref pa s = Ret s' \<and> kmem_inv s' \<and> pt_wf s' root \<and> kend s' = kend s \<and>
    refcount s' = (refcount s)(pa2index pa := refcount s (pa2index pa) - 1) \<and>
    free_mem s' = (if refcount s (pa2index pa) = 1 then free_mem s \<union> page_of pa else free_mem s) \<and>
    (\<forall>x. x \<notin> page_of pa \<or> refcount s (pa2index pa) \<noteq> 1 \<longrightarrow> phys s' x = phys s x) \<and>
    (\<forall>va < MAXVA. pte_of (phys s') root va = pte_of (phys s) root va)"
proof -
  obtain s' where d: "drop_ref pa s = Ret s'" "kmem_inv s'" "kend s' = kend s"
    "refcount s' = (refcount s)(pa2index pa := refcount s (pa2index pa) - 1)"
    "free_mem s' = (if refcount s (pa2index pa) = 1 then free_mem s \<union> page_of pa else free_mem s)"
    "\<forall>x. x \<notin> page_of pa \<or> refcount s (pa2index pa) \<noteq> 1 \<longrightarrow> phys s' x = phys s x"
    using drop_ref_spec [OF inv(1) pa(1)] by blast
  have al: "aligned pa 0" using pa(1) by (simp add: live_def in_use_def)
  have dis: "page_of t \<inter> page_of pa = {}" if "t \<in> tables (phys s) root" for t
    using that pa(2) pt_wf_aligned [OF inv(2) that] al by (intro page_of_disjoint) auto
  have fr: "phys s' x = phys s x" if "t \<in> tables (phys s) root" "x \<in> page_of t" for t x
    using d(6) dis [OF that(1)] that(2) by blast
  have live: "live s' t" if "t \<in> tables (phys s) root" "live s t" for t
  proof -
    have u: "pa \<in> usable s" "t \<in> usable s" using pa(1) that(2) in_use_usable by (auto simp: live_def)
    have "t \<notin> page_of pa" using dis [OF that(1)] page_of_self [of t] by blast
    then have "pa2index t \<noteq> pa2index pa" using pa2index_usable [OF _ u] inv(1) by (auto simp: kmem_inv_def)
    then show ?thesis using that(2) dis [OF that(1)] d(3-5) by (auto simp: live_def in_use_def usable_def)
  qed
  have "pt_wf s' root" by (rule pt_wf_cong [OF inv(2) pt_frame(1) [OF inv(2) fr] live])
  moreover have "pte_of (phys s') root va = pte_of (phys s) root va" if "va < MAXVA" for va
    using pt_frame(2) [OF inv(2) fr that] .
  ultimately show ?thesis using d by blast
qed


lemma cow_fault_drop:
  "cow_fault pte s = (let pa = PTE2PA (get_pte s pte) in case kalloc s of (mem, s1) \<Rightarrow>
     if mem = 0 then Ret (1, s1)
     else let s2 = s1\<lparr>phys := memmove (phys s1) mem pa 4096\<rparr>
          in kbind (drop_ref pa (set_pte pte (PA2PTE mem OR ((PTE_FLAGS (get_pte s2 pte) AND NOT PTE_COW) OR PTE_W) OR PTE_V) s2))
               (\<lambda>s4. Ret (0, s4)))"
  by (auto simp: cow_fault_def drop_ref_def Let_def kbind_assoc intro!: arg_cong [where f = "kbind _"] split: prod.split)

lemma page_room:
  assumes "kmem_inv s" "in_use s p"
  shows "aligned p 0" "unat p + 4096 < 2 ^ 64"
proof -
  have "p \<in> usable s" using assms(2) by (rule in_use_usable)
  then have "p < PHYSTOP" using usable_bounds assms(1) by (auto simp: kmem_inv_def)
  then show "aligned p 0" "unat p + 4096 < 2 ^ 64"
    using assms(2) by (simp_all add: in_use_def word_less_nat_alt PHYSTOP_def KERNBASE_def)
qed

text \<open>The bytes of the page at \<open>pa\<close>.\<close>

definition page_bytes :: "bytemem \<Rightarrow> addr \<Rightarrow> u8 list" where
  "page_bytes m pa = read_bytes m pa 4096"

lemma in_range_iff: "in_range x a n \<longleftrightarrow> (\<exists>i < n. x = a + of_nat i)" if "n \<le> 2 ^ 64"
proof
  assume "in_range x a n"
  then show "\<exists>i < n. x = a + of_nat i"
    by (intro exI [of _ "unat (x - a)"]) (simp add: in_range_def)
next
  assume "\<exists>i < n. x = a + of_nat i"
  then show "in_range x a n" using that by (auto simp: in_range_def)
qed

text \<open>The entry after a copy: the new frame, writable, no longer shared.\<close>

definition cow_entry :: "u64 \<Rightarrow> addr \<Rightarrow> u64" where
  "cow_entry e mem = PA2PTE mem OR ((PTE_FLAGS e AND NOT PTE_COW) OR PTE_W) OR PTE_V"

lemma cow_entry_bits:
  assumes "aligned mem 0"
  shows "PTE2PA (cow_entry e mem) = mem" "cow_entry e mem AND PTE_COW = 0" "cow_entry e mem AND PTE_W \<noteq> 0"
    "cow_entry e mem AND PTE_V \<noteq> 0" "cow_entry e mem AND PTE_U = e AND PTE_U"
proof -
  define f where "f = ((PTE_FLAGS e AND NOT PTE_COW) OR PTE_W) OR PTE_V"
  have c: "cow_entry e mem = PA2PTE mem OR f" by (simp add: cow_entry_def f_def or.assoc)
  have f: "bit f n \<longleftrightarrow> n < 10 \<and> (bit e n \<and> n \<noteq> 8 \<or> n = 2 \<or> n = 0)" for n
    by (auto simp: f_def PTE_FLAGS_bits bit_take_bit_iff bit_or_iff bit_and_iff bit_not_iff)
  have "take_bit 10 f = f" by (rule bit_word_eqI) (auto simp: bit_take_bit_iff f)
  then show "PTE2PA (cow_entry e mem) = mem"
    using assms PTE2PA_PA2PTE [of f mem] by (simp add: c PGROUNDDOWN_id aligned_def)
  show "cow_entry e mem AND PTE_COW = 0" "cow_entry e mem AND PTE_W \<noteq> 0" "cow_entry e mem AND PTE_V \<noteq> 0"
    by (simp_all add: and_PTE_eq_0 c bit_or_iff f bit_PA2PTE_low)
  show "cow_entry e mem AND PTE_U = e AND PTE_U"
    by (rule bit_word_eqI) (auto simp: c f bit_or_iff bit_and_iff bit_PA2PTE_low)
qed


lemma walk_found:
  assumes "walk root va False s = Ret (pte, s)" "pte \<noteq> 0"
  obtains tb where "va < MAXVA" "tbl (phys s) root 2 va = Some tb" "pte = pte_slot tb 0 va" "get_pte s pte = pte_of (phys s) root va"
  using assms by (auto simp: walk_def walk_loop_noalloc pte_of_def split: if_splits option.splits)

text \<open>Copying a page in use to a fresh page.\<close>

lemma copy_page:
  assumes inv: "kmem_inv s" and k: "kalloc s = (mem, s1)" "mem \<noteq> 0" and pa: "live s pa"
  defines "m \<equiv> memmove (phys s1) mem pa 4096"
  shows "\<forall>x. x \<notin> page_of mem \<longrightarrow> m x = phys s x" "page_bytes m mem = page_bytes (phys s) pa"
proof -
  have ka: "kmem_inv s1" "in_use s1 mem" "page_of mem \<subseteq> free_mem s" "phys s1 = (\<lambda>a. if a \<in> page_of mem then 5 else phys s a)"
    using kalloc_spec [OF inv k(1)] k(2) by auto
  have mem: "aligned mem 0" "unat mem + 4096 < 2 ^ 64" by (rule page_room [OF ka(1,2)])+
  have p: "aligned pa 0" "unat pa + 4096 < 2 ^ 64"
    using page_room [OF inv, of pa] pa by (auto simp: live_def)
  have m: "m x = (if x \<in> page_of mem then phys s1 (pa + (x - mem)) else phys s1 x)" for x
    using memmove_eq [of pa 4096 mem "phys s1"] mem p by (simp add: m_def page_of_range)
  show "\<forall>x. x \<notin> page_of mem \<longrightarrow> m x = phys s x" using m ka(4) by simp
  have "m (mem + of_nat i) = phys s (pa + of_nat i)" if i: "i < 4096" for i
  proof -
    have in1: "mem + of_nat i \<in> page_of mem" using i mem(1) by (auto simp: page_of_range in_range_iff)
    have "pa + of_nat i \<in> page_of pa" using i p(1) by (auto simp: page_of_range in_range_iff)
    then have "pa + of_nat i \<notin> page_of mem" using ka(3) pa by (auto simp: live_def in_use_def)
    then show ?thesis using m in1 ka(4) by simp
  qed
  then show "page_bytes m mem = page_bytes (phys s) pa" by (simp add: page_bytes_def read_bytes_def)
qed

lemma page_bytes_cong:
  assumes "aligned q 0" "\<And>x. x \<in> page_of q \<Longrightarrow> m x = m' x"
  shows "page_bytes m q = page_bytes m' q"
proof -
  have "q + of_nat i \<in> page_of q" if "i < 4096" for i using that assms(1) by (auto simp: page_of_range in_range_iff)
  then show ?thesis using assms(2) by (simp add: page_bytes_def read_bytes_def)
qed

lemma cow_fault_ok:
  assumes "kalloc s = (mem, s1)" "mem \<noteq> 0" "get_pte s pte = e" and s2: "s2 = s1\<lparr>phys := memmove (phys s1) mem (PTE2PA e) 4096\<rparr>"
    and "get_pte s2 pte = e" "drop_ref (PTE2PA e) (set_pte pte (cow_entry e mem) s2) = Ret s4"
  shows "cow_fault pte s = Ret (0, s4)"
proof -
  have "load64 (memmove (phys s1) mem (PTE2PA e) 4096) pte = e" using assms(5) by (simp add: s2)
  then show ?thesis using assms by (simp add: cow_fault_drop Let_def cow_entry_def)
qed

text \<open>The state after a successful copy, with \<open>m\<close> the memory after the copy of the page.\<close>

definition cow_post :: "addr \<Rightarrow> u64 \<Rightarrow> addr \<Rightarrow> addr \<Rightarrow> bytemem \<Rightarrow> kmem \<Rightarrow> kmem \<Rightarrow> bool" where
  "cow_post root va pa mem m s s' \<longleftrightarrow>
     page_of mem \<subseteq> free_mem s \<and> page_of mem \<subseteq> usable s \<and> aligned mem 0 \<and> page_of pa \<inter> page_of mem = {} \<and>
     kmem_inv s' \<and> pt_wf s' root \<and> kend s' = kend s \<and> pa2index mem \<noteq> pa2index pa \<and>
     refcount s' = (refcount s)(pa2index mem := 1, pa2index pa := refcount s (pa2index pa) - 1) \<and>
     free_mem s' = (free_mem s - page_of mem) \<union> (if refcount s (pa2index pa) = 1 then page_of pa else {}) \<and>
     (\<forall>v < MAXVA. pte_of (phys s') root v =
        (if vpn v = vpn va then cow_entry (pte_of (phys s) root va) mem else pte_of (phys s) root v)) \<and>
     (\<forall>x. x \<notin> page_of mem \<longrightarrow> m x = phys s x) \<and> page_bytes m mem = page_bytes (phys s) pa \<and>
     (\<forall>x. x \<notin> free_mem s - page_of mem \<and> (\<forall>t \<in> tables (phys s) root. x \<notin> page_of t) \<and>
        (x \<notin> page_of pa \<or> refcount s (pa2index pa) \<noteq> 1) \<longrightarrow> phys s' x = m x)"

lemma cow_fault_post:
  assumes inv: "kmem_inv s" "pt_wf s root" and w: "walk root va False s = Ret (pte, s)" "pte \<noteq> 0"
    and e: "e = pte_of (phys s) root va" and pa: "live s (PTE2PA e)" "PTE2PA e \<notin> tables (phys s) root"
    and k: "kalloc s = (mem, s1)" "mem \<noteq> 0"
  shows "\<exists>s' m. cow_fault pte s = Ret (0, s') \<and> cow_post root va (PTE2PA e) mem m s s'"
proof -
  let ?pa = "PTE2PA e" and ?m = "memmove (phys s1) mem (PTE2PA e) 4096"
  obtain tb where va: "va < MAXVA" and tb: "tbl (phys s) root 2 va = Some tb" "pte = pte_slot tb 0 va" "get_pte s pte = e"
    using walk_found [OF w] e by blast
  define s2 where "s2 = s1\<lparr>phys := ?m\<rparr>"
  note cp = copy_page [OF inv(1) k pa(1)]
  note F = fresh_page [OF inv k s2_def cp(1)]
  have t2: "tbl (phys s2) root 2 va = Some tb" using F(9) tb(1) va by simp
  have g2: "get_pte s2 pte = e" using F(10) [OF va] t2 tb(2) e by (simp add: pte_of_def)
  define s3 where "s3 = set_pte pte (cow_entry e mem) s2"
  have S: "pt_mod root s2 s3" "free_mem s3 = free_mem s2" "refcount s3 = refcount s2" "tables (phys s3) root = tables (phys s) root"
    "\<And>v. v < MAXVA \<Longrightarrow> pte_of (phys s3) root v = (if vpn v = vpn va then cow_entry e mem else pte_of (phys s) root v)"
    using set_leaf_spec [OF F(1,2) va t2, of s3] s3_def tb(2) F(8,10) by auto
  note M = pt_modD [OF S(1)]
  have "live s3 ?pa" "?pa \<notin> tables (phys s3) root"
    using F(11) [OF pa(1)] pa(2) S(2-4) M(5) by (simp_all add: live_def in_use_def)
  from drop_frame [OF M(1,2) this] obtain s4 where D: "drop_ref ?pa s3 = Ret s4" "kmem_inv s4" "pt_wf s4 root" "kend s4 = kend s3"
    "refcount s4 = (refcount s3)(pa2index ?pa := refcount s3 (pa2index ?pa) - 1)"
    "free_mem s4 = (if refcount s3 (pa2index ?pa) = 1 then free_mem s3 \<union> page_of ?pa else free_mem s3)"
    "\<And>x. x \<notin> page_of ?pa \<or> refcount s3 (pa2index ?pa) \<noteq> 1 \<Longrightarrow> phys s4 x = phys s3 x"
    "\<And>v. v < MAXVA \<Longrightarrow> pte_of (phys s4) root v = pte_of (phys s3) root v" by blast
  have us: "usable s2 = usable s" using F(6) by (simp add: usable_def)
  have u: "mem \<in> usable s" "?pa \<in> usable s"
    using F(7) pa(1) us in_use_usable [of s2 mem] in_use_usable [of s ?pa] by (auto simp: live_def)
  have "mem \<notin> page_of ?pa" using F(12) [OF pa(1)] page_of_self [of mem] by blast
  then have ne: "pa2index mem \<noteq> pa2index ?pa" using pa2index_usable [OF _ u(2,1)] inv(1) by (auto simp: kmem_inv_def)
  have "phys s4 x = ?m x" if "x \<notin> free_mem s - page_of mem" "\<forall>t \<in> tables (phys s) root. x \<notin> page_of t"
    "x \<notin> page_of ?pa \<or> refcount s (pa2index ?pa) \<noteq> 1" for x
    using D(7) [of x] M(7) [of x] that S(3) F(3,5,8) ne by (auto simp: s2_def)
  then have "cow_post root va ?pa mem ?m s s4"
    unfolding cow_post_def using F(3-7,12) pa(1) D(2-6,8) S(2,3,5) M(3) ne cp us e by (simp add: live_def in_use_def)
  moreover have "cow_fault pte s = Ret (0, s4)" using cow_fault_ok [OF k tb(3) s2_def g2] D(1) s3_def by simp
  ultimately show ?thesis by blast
qed

lemma page_apart_tables:
  assumes "pt_wf s root" "aligned q 0" "q \<notin> tables (phys s) root" "x \<in> page_of q"
  shows "\<forall>t \<in> tables (phys s) root. x \<notin> page_of t"
proof
  fix t assume t: "t \<in> tables (phys s) root"
  then have "t \<noteq> q" using assms(3) by blast
  then have "page_of t \<inter> page_of q = {}" by (rule page_of_disjoint [OF pt_wf_aligned [OF assms(1) t] assms(2)])
  then show "x \<notin> page_of t" using assms(4) by blast
qed

lemma cow_postD:
  assumes "cow_post root va pa mem m s s'"
  shows "page_of mem \<subseteq> free_mem s" "page_of mem \<subseteq> usable s" "aligned mem 0" "page_of pa \<inter> page_of mem = {}"
    "kend s' = kend s" "pa2index mem \<noteq> pa2index pa" "page_bytes m mem = page_bytes (phys s) pa"
    "refcount s' = (refcount s)(pa2index mem := 1, pa2index pa := refcount s (pa2index pa) - 1)"
    "free_mem s' = (free_mem s - page_of mem) \<union> (if refcount s (pa2index pa) = 1 then page_of pa else {})"
    "x \<notin> free_mem s - page_of mem \<Longrightarrow> \<forall>t \<in> tables (phys s) root. x \<notin> page_of t \<Longrightarrow>
      x \<notin> page_of pa \<or> refcount s (pa2index pa) \<noteq> 1 \<Longrightarrow> phys s' x = m x"
    "x \<notin> page_of mem \<Longrightarrow> m x = phys s x" "kmem_inv s'" "pt_wf s' root"
    "v < MAXVA \<Longrightarrow> pte_of (phys s') root v = (if vpn v = vpn va then cow_entry (pte_of (phys s) root va) mem else pte_of (phys s) root v)"
  using assms by (simp_all add: cow_post_def)

text \<open>Pages that are neither tables nor freed keep their bytes.\<close>

lemma cow_post_others:
  assumes post: "cow_post root va pa mem m s s'" and wf: "pt_wf s root" and pa: "aligned pa 0"
    and q: "in_use s q" "q \<notin> tables (phys s) root" "q = pa \<longrightarrow> refcount s (pa2index q) \<noteq> 1"
  shows "in_use s' q \<and> page_bytes (phys s') q = page_bytes (phys s) q"
proof -
  have al: "aligned q 0" using q(1) by (simp add: in_use_def)
  note P = cow_postD [OF post]
  have old: "page_of q \<inter> page_of pa = {} \<or> refcount s (pa2index pa) \<noteq> 1"
    using q(3) page_of_disjoint [OF al pa] by blast
  have free: "page_of q \<inter> free_mem s = {}" using q(1) by (simp add: in_use_def)
  then have "in_use s' q" using q(1) P(5,9) old by (auto simp: in_use_def usable_def)
  moreover have "phys s' x = phys s x" if "x \<in> page_of q" for x
  proof -
    have "x \<notin> free_mem s" using free that by blast
    then have "phys s' x = m x" using old that by (intro P(10) page_apart_tables [OF wf al q(2) that]) blast+
    moreover have "m x = phys s x" using P(1) \<open>x \<notin> free_mem s\<close> by (intro P(11)) blast
    ultimately show ?thesis by simp
  qed
  ultimately show ?thesis using page_bytes_cong [OF al] by blast
qed

lemma cow_post_copy:
  assumes post: "cow_post root va pa mem m s s'" and wf: "pt_wf s root"
  shows "live s' mem" "page_bytes (phys s') mem = page_bytes (phys s) pa"
proof -
  note P = cow_postD [OF post]
  have "page_of mem \<inter> free_mem s' = {}" using P(4,9) by auto
  moreover have "refcount s' (pa2index mem) = 1" using P(6,8) by simp
  ultimately show "live s' mem" using P(2,3,5) by (simp add: live_def in_use_def usable_def)
  have "mem \<notin> tables (phys s) root"
  proof
    assume "mem \<in> tables (phys s) root"
    then have "page_of mem \<inter> free_mem s = {}" using wf by (simp add: pt_wf_def live_def in_use_def)
    then show False using P(1) page_of_self [of mem] by blast
  qed
  then have "phys s' x = m x" if "x \<in> page_of mem" for x
    using P(4) that by (intro P(10) page_apart_tables [OF wf P(3) _ that]) blast+
  then show "page_bytes (phys s') mem = page_bytes (phys s) pa" using page_bytes_cong [OF P(3), of "phys s'" m] P(7) by simp
qed

text \<open>
  C29. A write to a page shared copy-on-write gives the writer a page of its own. For a well-formed
  page table and a shared frame that is in use, \<open>cow_fault\<close> on the entry of \<open>va\<close> either reports that
  memory is exhausted and changes nothing, or it maps \<open>va\<close> to a page that was free, writable and with
  the bytes of the old frame. No other address is translated differently; the old frame loses one
  reference, and as long as others share it, it keeps its bytes; all other pages in use stay as they are.
\<close>
theorem cow_fault_correct:
  assumes inv: "kmem_inv s" "pt_wf s root" and va: "va < MAXVA" and w: "walk root va False s = Ret (pte, s)" "pte \<noteq> 0"
    and e: "e = pte_of (phys s) root va" and pa: "live s (PTE2PA e)" "PTE2PA e \<notin> tables (phys s) root"
  shows "\<exists>r s'. cow_fault pte s = Ret (r, s') \<and>
    (r = 1 \<and> s' = s \<and> free_mem s = {} \<or>
     r = 0 \<and> (\<exists>mem. page_of mem \<subseteq> free_mem s \<and> kmem_inv s' \<and> pt_wf s' root \<and> live s' mem \<and>
       page_bytes (phys s') mem = page_bytes (phys s) (PTE2PA e) \<and>
       (\<forall>v < MAXVA. pte_of (phys s') root v = (if vpn v = vpn va then cow_entry e mem else pte_of (phys s) root v)) \<and>
       refcount s' = (refcount s)(pa2index mem := 1, pa2index (PTE2PA e) := refcount s (pa2index (PTE2PA e)) - 1) \<and>
       (\<forall>q. in_use s q \<and> q \<notin> tables (phys s) root \<and> (q = PTE2PA e \<longrightarrow> refcount s (pa2index q) \<noteq> 1) \<longrightarrow>
         in_use s' q \<and> page_bytes (phys s') q = page_bytes (phys s) q)))"
proof -
  let ?pa = "PTE2PA e"
  obtain mem s1 where k: "kalloc s = (mem, s1)" by (cases "kalloc s")
  show ?thesis
  proof (cases "mem = 0")
    case True
    then show ?thesis using kalloc_spec [OF inv(1) k] k by (auto simp: cow_fault_def)
  next
    case False
    obtain s' m where c: "cow_fault pte s = Ret (0, s')" "cow_post root va ?pa mem m s s'"
      using cow_fault_post [OF inv w e pa k False] by blast
    have al: "aligned ?pa 0" using pa(1) by (simp add: live_def in_use_def)
    note P = cow_postD [OF c(2)]
    show ?thesis
    proof (intro exI [of _ "0 :: nat"] exI [of _ s'] conjI disjI2 refl exI [of _ mem] allI impI)
      show "in_use s' q" "page_bytes (phys s') q = page_bytes (phys s) q"
        if "in_use s q \<and> q \<notin> tables (phys s) root \<and> (q = ?pa \<longrightarrow> refcount s (pa2index q) \<noteq> 1)" for q
        using cow_post_others [OF c(2) inv(2) al] that by blast+
    qed (use c(1) P e cow_post_copy [OF c(2) inv(2)] in simp_all)
  qed
qed

section \<open>An address space with one page\<close>

text \<open>
  The page at user address \<open>0x1000\<close> is the frame \<open>0x80403000\<close>, which begins with the bytes 104 and 105;
  its tables are the three pages before it, and four pages are free.
\<close>

definition user_mem :: bytemem where
  "user_mem = store64 (store64 (store64 (\<lambda>a. if a = 0x80403000 then 104 else if a = 0x80403001 then 105 else 0)
     0x80400000 (PA2PTE 0x80401000 OR PTE_V)) 0x80401000 (PA2PTE 0x80402000 OR PTE_V))
     0x80402008 (PA2PTE 0x80403000 OR (PTE_R OR PTE_W OR PTE_U OR PTE_V))"

definition user_km :: kmem where
  "user_km = \<lparr>kend = 0x80400000, freelist = (\<lambda>k. if k = 2 then [0x80404000] else []),
     refcount = (\<lambda>i. if i \<in> pa2index ` {0x80400000, 0x80401000, 0x80402000, 0x80403000} then 1 else 0),
     order_map = (\<lambda>i. 0), phys = user_mem\<rparr>"

lemma user_free: "free_blocks user_km = {(2, 0x80404000)}" "free_mem user_km = block 0x80404000 2"
proof -
  show f: "free_blocks user_km = {(2, 0x80404000)}"
    by (auto simp: free_blocks_def user_km_def split: if_splits)
  show "free_mem user_km = block 0x80404000 2" by (simp add: free_mem_def f)
qed

lemma user_aligned: "aligned 0x80404000 2" "aligned 0x80404000 0" "aligned 0x80400000 0" "aligned 0x80401000 0"
    "aligned 0x80402000 0" "aligned 0x80403000 0"
  by (simp_all add: aligned_unat)

lemma user_inv: "kmem_inv user_km"
proof -
  have sub: "block 0x80404000 2 \<subseteq> usable user_km"
    by (auto simp: block_interval [OF user_aligned(1)] usable_def user_km_def
        word_le_nat_alt word_less_nat_alt PHYSTOP_def KERNBASE_def)
  then have wf: "kmem_wf user_km"
    unfolding kmem_wf_def user_free using user_aligned by (simp add: user_km_def MAX_ORDER_def KERNBASE_def)
  have "refcount user_km (pa2index x) = 0" if "x \<in> block 0x80404000 2" for x
  proof -
    have "unat x \<ge> 0x80404000" "unat x < 0x80408000" using that by (simp_all add: block_interval [OF user_aligned(1)])
    then have "pa2index x \<ge> 1028"
      using pa2index_unat(1) [of x] by (simp add: KERNBASE_def PHYSTOP_def word_le_nat_alt word_less_nat_alt)
    then show ?thesis by (auto simp: user_km_def pa2index_def KERNBASE_def PGSIZE_def)
  qed
  with wf show ?thesis by (simp add: kmem_inv_def user_free) (simp add: user_km_def)
qed

lemma user_load:
  assumes "aligned8 a"
  shows "load64 user_mem a =
    (if a = 0x80400000 then PA2PTE 0x80401000 OR PTE_V else if a = 0x80401000 then PA2PTE 0x80402000 OR PTE_V
     else if a = 0x80402008 then PA2PTE 0x80403000 OR (PTE_R OR PTE_W OR PTE_U OR PTE_V)
     else load64 (\<lambda>a. if a = 0x80403000 then 104 else if a = 0x80403001 then 105 else 0) a)"
  using assms by (auto simp: user_mem_def mem_simps aligned8_def)

lemma user_slot:
  assumes "t \<in> {0x80400000, 0x80401000, 0x80402000}"
  shows "load64 user_mem (pte_slot t l va) =
    (if PX l va = 0 \<and> t = 0x80400000 then PA2PTE 0x80401000 OR PTE_V
     else if PX l va = 0 \<and> t = 0x80401000 then PA2PTE 0x80402000 OR PTE_V
     else if PX l va = 1 \<and> t = 0x80402000 then PA2PTE 0x80403000 OR (PTE_R OR PTE_W OR PTE_U OR PTE_V) else 0)"
proof -
  have t: "aligned t 0" using assms user_aligned by auto
  have z: "load64 (\<lambda>a. if a = 0x80403000 then 104 else if a = 0x80403001 then 105 else 0) (pte_slot t l va) = (0 :: u64)"
  proof (rule load64_zero)
    fix x assume "in_range x (pte_slot t l va) 8"
    then have "x \<in> page_of t" by (rule slot_in_page [OF t])
    then have "unat x < unat t + 4096" using t by (simp add: page_of_def block_interval)
    then show "(if x = 0x80403000 then 104 else if x = 0x80403001 then 105 else (0 :: u8)) = 0" using assms by auto
  qed
  have u: "unat (pte_slot t l va) = unat t + 8 * unat (PX l va)" "unat (PX l va) < 512"
    using unat_pte_slot [OF t] unat_PX by auto
  have eq: "pte_slot t l va = a \<longleftrightarrow> unat t + 8 * unat (PX l va) = unat a" for a
    using u(1) by (metis word_unat_eq_iff)
  have px: "PX l va = 0 \<longleftrightarrow> unat (PX l va) = 0" "PX l va = 1 \<longleftrightarrow> unat (PX l va) = 1"
    by (simp_all add: word_unat_eq_iff)
  show ?thesis
    unfolding user_load [OF aligned8_slot [OF t]] z eq px using assms u(2) by auto
qed

lemma new_entry: "PTE2PA (PA2PTE 0x80401000 OR PTE_V) = 0x80401000" "PTE2PA (PA2PTE 0x80402000 OR PTE_V) = 0x80402000"
    "bit (PA2PTE p OR PTE_V) 0" "PTE2PA (PA2PTE 0x80403000 OR (PTE_R OR PTE_W OR PTE_U OR PTE_V)) = 0x80403000"
    "bit (PA2PTE p OR (PTE_R OR PTE_W OR PTE_U OR PTE_V)) n \<longleftrightarrow> bit (PA2PTE p) n \<or> n \<in> {0, 1, 2, 4}"
proof -
  have f: "take_bit 10 (PTE_R OR PTE_W OR PTE_U OR PTE_V) = (PTE_R OR PTE_W OR PTE_U OR PTE_V)"
    by (rule bit_word_eqI) (auto simp: bit_take_bit_iff bit_or_iff)
  show "PTE2PA (PA2PTE 0x80403000 OR (PTE_R OR PTE_W OR PTE_U OR PTE_V)) = 0x80403000"
    using PTE2PA_PA2PTE [OF f, of "0x80403000"] by (simp add: PGROUNDDOWN_def PGSIZE_def)
qed (use new_table_pte user_aligned in \<open>auto simp: bit_or_iff\<close>)

lemma user_tbl:
  "tbl user_mem 0x80400000 1 va = (if PX 2 va = 0 then Some 0x80401000 else None)"
  "tbl user_mem 0x80400000 2 va = (if PX 2 va = 0 \<and> PX 1 va = 0 then Some 0x80402000 else None)"
proof -
  show 1: "tbl user_mem 0x80400000 1 va = (if PX 2 va = 0 then Some 0x80401000 else None)"
    by (simp add: Let_def user_slot new_entry)
  have "tbl user_mem 0x80400000 (Suc 1) va = (if PX 2 va = 0 \<and> PX 1 va = 0 then Some 0x80402000 else None)"
    unfolding tbl.simps(2) [of _ _ 1] 1 by (simp add: Let_def user_slot new_entry)
  then show "tbl user_mem 0x80400000 2 va = (if PX 2 va = 0 \<and> PX 1 va = 0 then Some 0x80402000 else None)"
    by (simp only: Suc_1)
qed

lemma user_tbl_cases:
  assumes "tbl user_mem 0x80400000 d va = Some t" "d \<le> 2"
  shows "d = 0 \<and> t = 0x80400000 \<or> d = 1 \<and> t = 0x80401000 \<and> PX 2 va = 0 \<or> d = 2 \<and> t = 0x80402000 \<and> PX 2 va = 0 \<and> PX 1 va = 0"
proof -
  consider "d = 0" | "d = 1" | "d = 2" using assms(2) by linarith
  then show ?thesis using assms(1) by cases (auto simp: user_tbl simp del: tbl.simps(2) One_nat_def split: if_splits)
qed

lemma user_page_live:
  assumes "p \<in> {0x80400000, 0x80401000, 0x80402000, 0x80403000}"
  shows "live user_km p"
proof -
  have al: "aligned p 0" using assms user_aligned by auto
  have pg: "page_of p = {x. unat p \<le> unat x \<and> unat x < unat p + 4096}"
    using block_interval [OF al] by (auto simp: page_of_def)
  have "page_of p \<subseteq> usable user_km" "page_of p \<inter> block 0x80404000 2 = {}"
    unfolding pg using assms by (auto simp: block_interval [OF user_aligned(1)] usable_def user_km_def
        word_le_nat_alt word_less_nat_alt PHYSTOP_def KERNBASE_def)
  then show ?thesis using al assms by (auto simp: live_def in_use_def user_free) (auto simp: user_km_def)
qed

lemma user_pt_wf: "pt_wf user_km 0x80400000"
proof -
  have "live user_km t" if "t \<in> tables (phys user_km) 0x80400000" for t
    using that user_tbl_cases by (intro user_page_live) (fastforce simp: tables_def user_km_def)
  moreover have "tbl_inj user_mem 0x80400000"
    unfolding tbl_inj_def
  proof (intro allI impI)
    fix d d' va va' t
    assume a: "d \<le> 2" "d' \<le> 2" "va < MAXVA" "va' < MAXVA" "tbl user_mem 0x80400000 d va = Some t" "tbl user_mem 0x80400000 d' va' = Some t"
    have c: "d = d'" "1 \<le> d \<Longrightarrow> PX 2 va = PX 2 va'" "2 \<le> d \<Longrightarrow> PX 1 va = PX 1 va'"
      using user_tbl_cases [OF a(5,1)] user_tbl_cases [OF a(6,2)] by auto
    have p0: "prefix_at 0 va = prefix_at 0 va'" using prefix_0 a(3,4) by simp
    have p1: "1 \<le> d \<Longrightarrow> prefix_at 1 va = prefix_at 1 va'" using prefix_Suc [of 0 va va'] p0 c(2) by simp
    have p2: "2 \<le> d \<Longrightarrow> prefix_at 2 va = prefix_at 2 va'"
      using prefix_Suc [of 1 va va'] p1 c(3) by (simp add: numeral_2_eq_2)
    consider "d = 0" | "d = 1" | "d = 2" using a(1) by linarith
    then show "d = d' \<and> prefix_at d va = prefix_at d va'" using c(1) p0 p1 p2 by cases auto
  qed
  ultimately show ?thesis by (simp add: pt_wf_def user_km_def)
qed

lemma user_tables: "0x80403000 \<notin> tables (phys user_km) 0x80400000"
  using user_tbl_cases [of _ _ "0x80403000"] by (fastforce simp: tables_def user_km_def)

lemma user_pte: "PX 2 va = 0 \<Longrightarrow> PX 1 va = 0 \<Longrightarrow> PX 0 va = 1 \<Longrightarrow>
    pte_of user_mem 0x80400000 va = PA2PTE 0x80403000 OR (PTE_R OR PTE_W OR PTE_U OR PTE_V)"
  by (simp add: pte_of_def user_tbl(2) user_slot del: tbl.simps)

lemma user_walk: "walk 0x80400000 0x1000 False user_km = Ret (0x80402008, user_km)"
  by (simp add: walk_def walk_loop_noalloc user_km_def user_tbl(2) MAXVA_def PX_def PXSHIFT_def pte_slot_def
      del: tbl.simps walk_loop.simps)

lemma cow_fault_correct_witness:
  "\<exists>r s'. cow_fault 0x80402008 user_km = Ret (r, s') \<and> r = 0 \<and> kmem_inv s'"
proof -
  have e: "pte_of (phys user_km) 0x80400000 0x1000 = PA2PTE 0x80403000 OR (PTE_R OR PTE_W OR PTE_U OR PTE_V)"
    using user_pte [of "0x1000"] by (simp add: user_km_def PX_def PXSHIFT_def)
  have "0x80404000 \<in> free_mem user_km" using block_interval [OF user_aligned(1), of "0x80404000"] by (simp add: user_free)
  then show ?thesis
    using cow_fault_correct [OF user_inv user_pt_wf _ user_walk _ e [symmetric]] user_page_live user_tables
    by (auto simp: MAXVA_def new_entry)
qed

end
