(* ===== verification/Trap.thy ===== *)
theory Trap
  imports Sysproc Pagefault
begin

text \<open>
  \<open>kernel/trap.c\<close>, with \<open>kernel/plic.c\<close>, and the boot sequence of \<open>kernel/main.c\<close>. The state is extended by
  the supervisor registers of the running hart, the pending interrupts of the PLIC and the
  addresses that the linker assigns. Disk transfers complete within \<open>virtio_disk_rw\<close> in this
  model, so the disk interrupt has nothing left to do.
\<close>

record system = kernel +
  scause :: u64
  stval :: u64
  sepc :: u64
  sstatus :: u64
  stvec :: u64
  satp :: u64
  stimecmp :: u64
  mtime :: u64
  irqs :: "nat list"
  kernelvec :: u64
  uservec :: u64
  userret :: u64
  usertrap_addr :: u64
  etext :: u64
  kernel_pagetable :: u64

definition SSTATUS_SPP :: u64 where "SSTATUS_SPP = push_bit 8 1"
definition SSTATUS_SPIE :: u64 where "SSTATUS_SPIE = push_bit 5 1"
definition UART0_IRQ :: nat where "UART0_IRQ = 10"
definition VIRTIO0_IRQ :: nat where "VIRTIO0_IRQ = 1"

section \<open>Page faults\<close>

definition nl :: string where "nl = [CHR 0x0A]"

definition pid_arg :: "nat \<Rightarrow> 'a kernel_scheme \<Rightarrow> parg" where
  "pid_arg p s = PInt (of_int (pid (procs s p)))"

definition fault_kill :: "nat \<Rightarrow> string \<Rightarrow> parg list \<Rightarrow> ('a kernel_scheme, unit) kop" where
  "fault_kill p fmt as s =
     kthen (printf (fmt @ nl) (as @ [pid_arg p s])) (\<lambda>_. setkilled p) s"

definition lazy_result :: "nat \<Rightarrow> nat \<Rightarrow> ('a kernel_scheme, unit) kop" where
  "lazy_result p r =
     (if r = 1 then fault_kill p ''usertrap(): out of memory for lazy allocation pid=%d'' []
      else if r = 2 then fault_kill p ''usertrap(): failed to map page for lazy allocation pid=%d'' []
      else kret ())"

definition page_fault :: "nat \<Rightarrow> u64 \<Rightarrow> ('a kernel_scheme, unit) kop" where
  "page_fault p va s =
     (let q = procs s p
      in if va \<ge> sz q \<or> va < PGSIZE
         then fault_kill p ''usertrap(): page fault on invalid address 0x%lx pid=%d'' [PLong va] s
         else kthen (on_km (walk (pagetable q) va False)) (\<lambda>pte s1.
           if pte = 0 then kthen (on_km (lazy_alloc (pagetable q) va)) (lazy_result p) s1
           else let e = get_pte (km s1) pte
                in if e AND PTE_V \<noteq> 0 \<and> e AND PTE_COW \<noteq> 0
                   then kthen (on_km (cow_fault pte)) (\<lambda>r.
                          if r = 1 then fault_kill p ''usertrap(): out of memory for COW allocation pid=%d'' []
                          else kret ()) s1
                   else if e AND PTE_V = 0
                   then kthen (on_km (lazy_alloc (pagetable q) va)) (lazy_result p) s1
                   else fault_kill p ''usertrap(): unexpected page fault va=0x%lx pte=0x%lx pid=%d'' [PLong va, PLong e] s1) s)"

section \<open>Interrupts\<close>

definition plic_claim :: "'a system_scheme \<Rightarrow> nat \<times> 'a system_scheme" where
  "plic_claim s = (case irqs s of [] \<Rightarrow> (0, s) | i # is \<Rightarrow> (i, s\<lparr>irqs := is\<rparr>))"

definition clockintr :: "('a system_scheme, unit) kop" where
  "clockintr =
     kthen (kget hart) (\<lambda>h.
     kthen (kwhen (h = 0)
              (kthen (acquire LTicks) (\<lambda>_. kthen (kmod (\<lambda>s. s\<lparr>ticks := ticks s + 1\<rparr>)) (\<lambda>_.
               kthen (wakeup (Some ChanTicks)) (\<lambda>_. release LTicks))))) (\<lambda>_.
     kthen updatestatistics (\<lambda>_. kmod (\<lambda>s. s\<lparr>stimecmp := mtime s + 1000000\<rparr>))))"

definition devintr :: "('a system_scheme, nat) kop" where
  "devintr s =
     (if scause s = 0x8000000000000009
      then case plic_claim s of (irq, s1) \<Rightarrow>
             kthen (if irq = UART0_IRQ then uartintr
                    else if irq = VIRTIO0_IRQ then kret ()
                    else if irq \<noteq> 0 then printf (''unexpected interrupt irq=%d'' @ nl) [PInt (of_nat irq)]
                    else kret ()) (\<lambda>_. kret 1) s1
      else if scause s = 0x8000000000000005 then kthen clockintr (\<lambda>_. kret 2) s
      else Ret (0, s))"

section \<open>Traps from user space\<close>

text \<open>How a trap handler ends: with the page table to return to user space, or switched away.\<close>

datatype trapret = ToUser u64 | Away

definition usertrapret :: "('a system_scheme, trapret) kop" where
  "usertrapret =
     kthen curproc (\<lambda>p.
     kthen (kmod intr_off) (\<lambda>_.
     kthen (kmod (\<lambda>s. s\<lparr>stvec := TRAMPOLINE + (uservec s - trampoline s)\<rparr>)) (\<lambda>_.
     kthen (kmod (\<lambda>s. tf_set p KernelSatp (satp s) s)) (\<lambda>_.
     kthen (kmod (\<lambda>s. tf_set p KernelSp (kstack (procs s p) + PGSIZE) s)) (\<lambda>_.
     kthen (kmod (\<lambda>s. tf_set p KernelTrap (usertrap_addr s) s)) (\<lambda>_.
     kthen (kmod (\<lambda>s. tf_set p KernelHartid (of_nat (hart s)) s)) (\<lambda>_.
     kthen (kmod (\<lambda>s. s\<lparr>sstatus := (sstatus s AND NOT SSTATUS_SPP) OR SSTATUS_SPIE\<rparr>)) (\<lambda>_.
     kthen (kmod (\<lambda>s. s\<lparr>sepc := tf_get p Epc s\<rparr>)) (\<lambda>_.
     kget (\<lambda>s. ToUser (MAKE_SATP (pagetable (procs s p)))))))))))))"

definition exit_away :: "int \<Rightarrow> ('a system_scheme, trapret) kop" where
  "exit_away status = kthen (exit status) (\<lambda>_. kret Away)"

text \<open>The end of \<open>usertrap\<close>, also where a system call that slept and a \<open>yield\<close> resume.\<close>

definition usertrap_end :: "nat \<Rightarrow> nat \<Rightarrow> ('a system_scheme, trapret) kop" where
  "usertrap_end p which_dev =
     kthen (killed p) (\<lambda>k.
       if k then exit_away (- 1)
       else if which_dev = 2 then kthen yield (\<lambda>_. kret Away)
       else usertrapret)"

definition usertrap_syscall :: "u8 list \<Rightarrow> nat \<Rightarrow> ('a system_scheme, trapret) kop" where
  "usertrap_syscall pad p =
     kthen (killed p) (\<lambda>k.
       if k then exit_away (- 1)
       else kthen (kmod (\<lambda>s. tf_set p Epc (tf_get p Epc s + 4) s)) (\<lambda>_.
            kthen (kmod intr_on) (\<lambda>_. kthen (syscall pad) (\<lambda>fin.
              if fin then usertrap_end p 0 else kret Away))))"

definition usertrap :: "u8 list \<Rightarrow> ('a system_scheme, trapret) kop" where
  "usertrap pad s =
     (if sstatus s AND SSTATUS_SPP \<noteq> 0 then Panic ''usertrap: not from user mode''
      else kthen curproc (\<lambda>p. kthen (kmod (\<lambda>s. tf_set p Epc (sepc s) s)) (\<lambda>_.
             if scause s = 8 then usertrap_syscall pad p
             else kthen devintr (\<lambda>d.
               if d \<noteq> 0 then usertrap_end p d
               else if scause s = 13 \<or> scause s = 15
               then kthen (page_fault p (stval s)) (\<lambda>_. usertrap_end p 0)
               else kthen (\<lambda>s. printf (''usertrap(): unexpected scause 0x%lx pid=%d'' @ nl) [PLong (scause s), pid_arg p s] s) (\<lambda>_.
                    kthen (printf (''            sepc=0x%lx stval=0x%lx'' @ nl) [PLong (sepc s), PLong (stval s)]) (\<lambda>_.
                    kthen (setkilled p) (\<lambda>_. usertrap_end p 0)))))) (s\<lparr>stvec := kernelvec s\<rparr>))"

section \<open>Traps from the kernel\<close>

definition kerneltrap :: "('a system_scheme, trapret option) kop" where
  "kerneltrap s =
     (if sstatus s AND SSTATUS_SPP = 0 then Panic ''kerneltrap: not from supervisor mode''
      else if intr_get s then Panic ''kerneltrap: interrupts enabled''
      else kthen devintr (\<lambda>d.
             if d = 0
             then kthen (printf (''scause=0x%lx sepc=0x%lx stval=0x%lx'' @ nl)
                           [PLong (scause s), PLong (sepc s), PLong (stval s)]) (\<lambda>_. kpanic ''kerneltrap'')
             else kthen (if d = 2 then myproc else kret None) (\<lambda>p.
               if p \<noteq> None then kthen yield (\<lambda>_. kret (Some Away))
               else kthen (kmod (\<lambda>s1. s1\<lparr>sepc := sepc s, sstatus := sstatus s\<rparr>)) (\<lambda>_. kret None))) s)"

section \<open>First scheduling and boot\<close>

definition forkret :: "('a system_scheme, trapret) kop" where
  "forkret =
     kthen curproc (\<lambda>p. kthen (release (LProc p)) (\<lambda>_. kthen (kget first) (\<lambda>f.
     kthen (kwhen f (kthen (fs_call (fsinit ROOTDEV)) (\<lambda>_. kmod (\<lambda>s. s\<lparr>first := False\<rparr>)))) (\<lambda>_.
     usertrapret))))"

definition trapinit :: "'a system_scheme \<Rightarrow> 'a system_scheme" where
  "trapinit = initlock LTicks"

definition trapinithart :: "'a system_scheme \<Rightarrow> 'a system_scheme" where
  "trapinithart s = s\<lparr>stvec := kernelvec s\<rparr>"

definition kvminit :: "('a system_scheme, unit) kop" where
  "kvminit s =
     kthen (on_km (kvmmake (etext s) (trampoline s))) (\<lambda>pt. kmod (\<lambda>s. s\<lparr>kernel_pagetable := pt\<rparr>)) s"

definition kvminithart :: "'a system_scheme \<Rightarrow> 'a system_scheme" where
  "kvminithart s = s\<lparr>satp := MAKE_SATP (kernel_pagetable s)\<rparr>"

definition kinit_op :: "('a system_scheme, unit) kop" where
  "kinit_op s = (case kinit (km s) of None \<Rightarrow> Diverge | Some m \<Rightarrow> Ret ((), s\<lparr>km := m\<rparr>))"

text \<open>\<open>main\<close> on hart 0, up to its call of \<open>scheduler\<close>.\<close>

definition main_boot :: "('a system_scheme, unit) kop" where
  "main_boot =
     kthen (kmod (\<lambda>s. (consoleinit s)\<lparr>devsw := (devsw s)(CONSOLE := True)\<rparr>)) (\<lambda>_. kthen (kmod printfinit) (\<lambda>_.
     kthen (printf nl []) (\<lambda>_. kthen (printf (''xv6 kernel is booting'' @ nl) []) (\<lambda>_. kthen (printf nl []) (\<lambda>_.
     kthen kinit_op (\<lambda>_. kthen kvminit (\<lambda>_. kthen (kmod kvminithart) (\<lambda>_.
     kthen (kmod procinit) (\<lambda>_. kthen (kmod trapinit) (\<lambda>_. kthen (kmod trapinithart) (\<lambda>_.
     kthen (kmod binit) (\<lambda>_. kthen (kmod iinit) (\<lambda>_. kthen (kmod fileinit) (\<lambda>_. userinit))))))))))))))"

end
