(* ===== verification/Procs.thy ===== *)
theory Procs
  imports Scheduler
begin

text \<open>
  Properties of the process table operations of \<open>kernel/proc.c\<close>: sleeping and waking up,
  killing, statistics, and the scheduling policies. They are stated for a hart in order
  (\<open>cpu_ok\<close>) with the process locks it needs free.
\<close>

section \<open>Sections under a process lock\<close>

lemma set_proc_frame [simp]:
  "locks (set_proc p f s) = locks s" "hart (set_proc p f s) = hart s" "cpus (set_proc p f s) = cpus s"
  "sie (set_proc p f s) = sie s" "mycpu (set_proc p f s) = mycpu s" "intr_get (set_proc p f s) = intr_get s"
  "cpu_ok (set_proc p f s) = cpu_ok s" "holding l (set_proc p f s) = holding l s"
  "procs (set_proc p f s) = (procs s)(p := f (procs s p))"
  by (simp_all add: set_proc_def mycpu_def intr_get_def cpu_ok_def holding_def)

lemma procs_machine [simp]:
  "procs (settle s) = procs s" "procs (grab l s) = procs s" "procs (push_off s) = procs s"
  by (simp_all add: machine_defs Let_def)

lemma settle_set_proc: "settle (set_proc p f s) = set_proc p f (settle s)"
  by (simp add: machine_defs set_proc_def)

lemma grab_set_proc: "grab l (set_proc p f s) = set_proc p f (grab l s)"
  by (simp add: machine_defs set_proc_def Let_def)

lemma release_section [simp]:
  assumes "cpu_ok s" "locks s l = free_lock"
  shows "release l (grab l s) = Ret ((), settle s)"
    "release l (set_proc p f (grab l s)) = Ret ((), set_proc p f (settle s))"
  using release_grab [of s l] release_grab [of "set_proc p f s" l] assms
  by (simp_all add: grab_set_proc settle_set_proc)

lemma free_lock_unlocked [simp]: "\<not> locked free_lock"
  by (simp add: free_lock_def)

section \<open>Waking up\<close>

definition wake :: "chan option \<Rightarrow> proc \<Rightarrow> proc" where
  "wake c q = (if pstate q = SLEEPING \<and> pchan q = c then q\<lparr>pstate := RUNNABLE\<rparr> else q)"

lemma set_proc_id: "f (procs s p) = procs s p \<Longrightarrow> set_proc p f s = s"
  by (simp add: set_proc_def fun_upd_idem)

lemma set_proc_wake: "(if pstate (procs s p) = SLEEPING \<and> pchan (procs s p) = c
   then set_proc p (\<lambda>q. q\<lparr>pstate := RUNNABLE\<rparr>) s else s) = set_proc p (wake c) s"
  by (auto simp: set_proc_def wake_def fun_upd_idem)

lemma wakeup_one_spec:
  assumes "cpu_ok s" "Some p \<noteq> cproc (mycpu s) \<Longrightarrow> locks s (LProc p) = free_lock"
  shows "wakeup_one c p s =
    Ret ((), if Some p = cproc (mycpu s) then settle s else set_proc p (wake c) (settle s))"
  using assms
  by (auto simp: wakeup_one_def kop_defs acquire_free set_proc_wake settle_set_proc)

lemma fold_wakeup:
  assumes "distinct ps" "cpu_ok s" "ps \<noteq> []"
    "\<forall>p \<in> set ps. Some p \<noteq> cproc (mycpu s) \<longrightarrow> locks s (LProc p) = free_lock"
  shows "kfor ps (wakeup_one c) s = Ret ((), (settle s)\<lparr>procs := (\<lambda>p.
      if p \<in> set ps \<and> Some p \<noteq> cproc (mycpu s) then wake c (procs s p) else procs s p)\<rparr>)"
  using assms
proof (induction ps arbitrary: s)
  case (Cons p ps)
  let ?s1 = "if Some p = cproc (mycpu s) then settle s else set_proc p (wake c) (settle s)"
  have one: "wakeup_one c p s = Ret ((), ?s1)"
    using Cons.prems by (intro wakeup_one_spec) auto
  have eq: "settle ?s1 = ?s1" "cproc (mycpu ?s1) = cproc (mycpu s)" by (simp_all add: settle_set_proc)
  show ?case
  proof (cases "ps = []")
    case True
    then show ?thesis by (auto simp: one kop_defs set_proc_def fun_eq_iff)
  next
    case False
    have "kfor ps (wakeup_one c) ?s1 = Ret ((), (settle ?s1)\<lparr>procs := (\<lambda>q.
        if q \<in> set ps \<and> Some q \<noteq> cproc (mycpu ?s1) then wake c (procs ?s1 q) else procs ?s1 q)\<rparr>)"
      using Cons.prems False by (intro Cons.IH) auto
    then show ?thesis using Cons.prems(1)
      by (auto simp: one eq kop_defs set_proc_def fun_eq_iff intro!: arg_cong [where f = "\<lambda>x. s\<lparr>procs := x\<rparr>" for s])
  qed
qed simp

definition proc_locks_free :: "'a ptable_scheme \<Rightarrow> bool" where
  "proc_locks_free s \<longleftrightarrow> (\<forall>p < NPROC. Some p \<noteq> cproc (mycpu s) \<longrightarrow> locks s (LProc p) = free_lock)"

lemma wakeup_spec:
  assumes "cpu_ok s" "proc_locks_free s"
  shows "wakeup c s = Ret ((), (settle s)\<lparr>procs := (\<lambda>p.
      if p < NPROC \<and> Some p \<noteq> cproc (mycpu s) then wake c (procs s p) else procs s p)\<rparr>)"
proof -
  have "[0..<NPROC] \<noteq> []" by (simp add: NPROC_def)
  then show ?thesis
    using fold_wakeup [of "[0..<NPROC]" s c] assms by (simp add: wakeup_def proc_locks_free_def)
qed

section \<open>Sleeping\<close>

text \<open>The lock \<open>l\<close> changes hands within a hart.\<close>

definition held_lock :: "'a machine_scheme \<Rightarrow> spinlock" where
  "held_lock s = \<lparr>locked = True, lk_cpu = Some (hart s)\<rparr>"

definition asleep :: "chan option \<Rightarrow> bool \<Rightarrow> proc \<Rightarrow> proc" where
  "asleep c i q = q\<lparr>pchan := c, pstate := SLEEPING, kintena := i, pcontext := CtxSched\<rparr>"

lemma sleep_spec:
  assumes "cpu_ok s" "noff (mycpu s) = 1" "cproc (mycpu s) = Some p" "holding lk s"
    "locks s (LProc p) = free_lock" "lk \<noteq> LProc p"
  shows "sleep c lk s = Ret ((), set_proc p (asleep c (intena (mycpu s)))
    (set_lock lk free_lock (set_lock (LProc p) (held_lock s) s)))"
proof -
  have cur: "curproc s = Ret (p, s)" using assms(1-3) by (simp add: curproc_ok settle_nested)
  have ok: "\<not> intr_get s" using assms by (simp add: cpu_ok_def)
  have rel: "release lk (grab (LProc p) s) =
      Ret ((), set_lock lk free_lock (set_lock (LProc p) (held_lock s) s))" (is "_ = Ret ((), ?t)")
    using assms ok by (auto simp: release_def machine_defs Let_def held_lock_def noff_upd_same fun_upd_idem)
  have "curproc (set_proc p f ?t) = Ret (p, set_proc p f ?t)" for f
    using assms ok by (subst curproc_ok) (auto simp: cpu_ok_def settle_set_proc settle_nested machine_defs)
  then show ?thesis using assms ok
    by (simp add: sleep_def kop_defs cur acquire_free rel sched_def)
      (simp add: machine_defs held_lock_def set_proc_def asleep_def)
qed

lemma sched_back_spec:
  assumes "holding (LProc p) s" "noff (mycpu s) = 1" "\<not> intr_get s"
  shows "sched_back p s = Ret ((), (set_lock (LProc p) free_lock
      (set_cpu (\<lambda>c. c\<lparr>cproc := None, noff := 0\<rparr>) s))\<lparr>sie := (sie s)(hart s := intena (mycpu s))\<rparr>)"
  using assms by (auto simp: sched_back_def kop_defs release_def machine_defs Let_def fun_upd_idem)

text \<open>The policies under which the scheduler runs the first runnable process it looks at.\<close>

definition round_robin :: "policy \<Rightarrow> bool" where
  "round_robin pol \<longleftrightarrow> pol = NOPOLICY \<or> pol = DEFAULT \<or> pol = FCFS"

lemma policy_machine [simp]:
  "policy (grab l s) = policy s" "policy (settle s) = policy s" "policy (set_proc p f s) = policy s"
  by (simp_all add: machine_defs Let_def set_proc_def)

lemma sched_iter_runnable:
  assumes "\<not> locked (locks s (LProc p))" "pstate (procs s p) = RUNNABLE" "round_robin (policy s)"
  shows "sched_iter p s = Ret ((p, True),
    set_proc p (\<lambda>r. r\<lparr>pstate := RUNNING\<rparr>) (set_cpu (\<lambda>c. c\<lparr>cproc := Some p\<rparr>) (grab (LProc p) s)))"
proof -
  have "pick_proc p (grab (LProc p) s) = Ret (Some p, grab (LProc p) s)"
    using assms(2,3) by (auto simp: pick_proc_def round_robin_def if_runnable_def kop_defs fcfs_pick_def)
  then show ?thesis using assms by (simp add: sched_iter_def kop_defs acquire_free)
qed

lemma sleep_resume_spec:
  assumes "holding (LProc p) s" "noff (mycpu s) = 1" "\<not> intr_get s" "\<not> locked (locks s lk)" "lk \<noteq> LProc p"
  shows "sleep_resume p lk s = Ret ((), set_proc p (\<lambda>q. q\<lparr>pchan := None\<rparr>)
    (set_lock lk (held_lock s) (set_lock (LProc p) free_lock
      (set_cpu (\<lambda>c. c\<lparr>intena := kintena (procs s p)\<rparr>) s))))"
  using assms
  by (cases "kintena (procs s p)")
    (auto simp: sleep_resume_def sched_resume_def kop_defs release_def acquire_def machine_defs Let_def
      held_lock_def set_proc_def fun_upd_idem noff_upd_same)

section \<open>Sleep and wakeup together\<close>

lemma slept_state:
  fixes c :: "chan option"
  assumes "cpu_ok s" "noff (mycpu s) = 1" "cproc (mycpu s) = Some p" "holding lk s"
    "locks s (LProc p) = free_lock" "lk \<noteq> LProc p"
  defines "s1 \<equiv> set_proc p (asleep c (intena (mycpu s))) (set_lock lk free_lock (set_lock (LProc p) (held_lock s) s))"
  shows "sleep c lk s = Ret ((), s1)" "locks s1 lk = free_lock" "holding (LProc p) s1"
    "h \<noteq> hart s \<Longrightarrow> acquire (LProc p) (s1\<lparr>hart := h\<rparr>) = Block ''spinlock''"
    "\<exists>s2. sched_back p s1 = Ret ((), s2) \<and> locks s2 (LProc p) = free_lock \<and>
      procs s2 p = asleep c (intena (mycpu s)) (procs s p) \<and> cproc (mycpu s2) = None"
proof -
  show "sleep c lk s = Ret ((), s1)" unfolding s1_def by (rule sleep_spec [OF assms(1-6)])
  show "locks s1 lk = free_lock" by (simp add: s1_def set_lock_def)
  show hold: "holding (LProc p) s1" using assms(6)
    by (simp add: s1_def holding_def set_lock_def held_lock_def)
  show "h \<noteq> hart s \<Longrightarrow> acquire (LProc p) (s1\<lparr>hart := h\<rparr>) = Block ''spinlock''" using assms(6)
    by (intro acquire_other) (auto simp: s1_def set_lock_def held_lock_def)
  have "noff (mycpu s1) = 1" "\<not> intr_get s1"
    using assms(1,2) by (simp_all add: s1_def set_lock_def mycpu_def intr_get_def cpu_ok_def)
  from sched_back_spec [OF hold this]
  show "\<exists>s2. sched_back p s1 = Ret ((), s2) \<and> locks s2 (LProc p) = free_lock \<and>
      procs s2 p = asleep c (intena (mycpu s)) (procs s p) \<and> cproc (mycpu s2) = None"
    by (simp add: s1_def set_lock_def set_cpu_def mycpu_def)
qed



section \<open>Scheduling policies\<close>

lemma skip_spec:
  "cpu_ok s \<Longrightarrow> locks s (LProc p) = free_lock \<Longrightarrow> skip p (grab (LProc p) s) = Ret (None, settle s)"
  by (simp add: skip_def kop_defs)

lemma sched_iter_skip:
  assumes "cpu_ok s" "locks s (LProc p) = free_lock" "pstate (procs s p) \<noteq> RUNNABLE" "policy s \<noteq> SML"
  shows "sched_iter p s = Ret ((p, False), settle s)"
  using assms by (cases "policy s")
    (simp_all add: sched_iter_def kop_defs acquire_free pick_proc_def if_runnable_def skip_spec)

definition all_free :: "'a ptable_scheme \<Rightarrow> bool" where
  "all_free s \<longleftrightarrow> cpu_ok s \<and> (\<forall>p < NPROC. locks s (LProc p) = free_lock)"

lemma all_free_settle [simp]: "all_free (settle s) = all_free s"
  by (simp add: all_free_def)

lemma sched_from_skips:
  assumes "n \<le> m" "m \<le> NPROC" "all_free s" "policy s \<noteq> SML" "\<forall>p. n \<le> p \<and> p < m \<longrightarrow> pstate (procs s p) \<noteq> RUNNABLE"
  shows "sched_from n s = sched_from m (if n < m then settle s else s)"
  using assms
proof (induction "m - n" arbitrary: n s)
  case (Suc k)
  then have n: "n < m" "n < NPROC" by simp_all
  have "sched_iter n s = Ret ((n, False), settle s)"
    using Suc.prems n by (intro sched_iter_skip) (auto simp: all_free_def)
  then have "sched_from n s = sched_from (Suc n) (settle s)"
    using n by (subst sched_from.simps) (simp add: kthen_def)
  also have "\<dots> = sched_from m (if Suc n < m then settle (settle s) else settle s)"
    using Suc.hyps(2) Suc.prems n by (intro Suc.hyps(1)) auto
  finally show ?case using n by simp
qed simp


subsection \<open>Policies that lock a process twice\<close>

definition own_lock_only :: "nat \<Rightarrow> nat list \<Rightarrow> 'a ptable_scheme \<Rightarrow> bool" where
  "own_lock_only p ps s \<longleftrightarrow> p \<in> set ps \<and> holding (LProc p) s \<and> cpu_ok s \<and> 0 < noff (mycpu s) \<and>
     (\<forall>q \<in> set ps. q \<noteq> p \<longrightarrow> locks s (LProc q) = free_lock)"

lemma own_lock_onlyD:
  assumes "own_lock_only p (q # ps) s" "q \<noteq> p"
  shows "acquire (LProc q) s = Ret ((), grab (LProc q) s)" "release (LProc q) (grab (LProc q) s) = Ret ((), s)"
    "own_lock_only p ps s"
  using assms by (auto simp: own_lock_only_def acquire_free settle_nested)

lemma highest_panics: "own_lock_only p ps s \<Longrightarrow> highest ps h s = Panic ''acquire''"
proof (induction ps arbitrary: h)
  case (Cons q ps)
  show ?case
  proof (cases "q = p")
    case True
    then show ?thesis using Cons.prems by (simp add: own_lock_only_def kthen_def acquire_own)
  next
    case False
    from own_lock_onlyD [OF Cons.prems this] Cons.IH show ?thesis by (simp add: kop_defs)
  qed
qed (simp add: own_lock_only_def)

lemma ticket_scan_panics: "own_lock_only p ps s \<Longrightarrow> ticket_scan ps t s = Panic ''acquire''"
proof (induction ps arbitrary: t)
  case (Cons q ps)
  show ?case
  proof (cases "q = p")
    case True
    then show ?thesis using Cons.prems by (simp add: own_lock_only_def kthen_def acquire_own)
  next
    case False
    from own_lock_onlyD [OF Cons.prems this] Cons.IH show ?thesis by (simp add: kop_defs)
  qed
qed (simp add: own_lock_only_def)

lemma own_lock_grab:
  "all_free s \<Longrightarrow> p < NPROC \<Longrightarrow> own_lock_only p [0..<NPROC] (grab (LProc p) s)"
  by (auto simp: own_lock_only_def all_free_def cpu_ok_def machine_defs Let_def)

lemma findReadyProcess_panics:
  assumes "own_lock_only 0 [0..<NPROC] s"
  shows "findReadyProcess (\<lambda>_. 0) 1 s = Panic ''acquire''"
proof -
  have "holding (LProc 0) s" using assms by (simp add: own_lock_only_def)
  then show ?thesis
    by (subst findReadyProcess.simps)
      (simp add: upt_conv_Cons NPROC_def cases_from_def kop_defs acquire_own Let_def)
qed

lemma pick_proc_panics:
  assumes "all_free s" "p < NPROC" "policy s = SML \<and> p = 0 \<or> policy s = PRIORITY \<and> pstate (procs s p) = RUNNABLE \<or>
    policy s = LOTTERY \<and> pstate (procs s p) = RUNNABLE"
  shows "pick_proc p (grab (LProc p) s) = Panic ''acquire''"
proof -
  note own = own_lock_grab [OF assms(1,2)]
  from assms(3) show ?thesis
    by (elim disjE) (use own in \<open>simp_all add: pick_proc_def if_runnable_def kop_defs totalTickets_def
      highest_panics ticket_scan_panics findReadyProcess_panics del: upt_Suc\<close>)
qed

lemma sched_iter_panics:
  assumes "all_free s" "p < NPROC" "pick_proc p (grab (LProc p) s) = Panic e"
  shows "sched_iter p s = Panic e"
  using assms by (simp add: sched_iter_def kthen_def acquire_free all_free_def)

text \<open>
  C21. Three policies stop the kernel. The scheduler examines a process with the lock of that process held, and the
  policies \<open>PRIORITY\<close>, \<open>LOTTERY\<close> and \<open>SML\<close> then acquire the locks of all processes, that one included.
  So with \<open>SML\<close> the first round of the scheduler panics, and with the other two the first round
  that finds a runnable process does.
\<close>
theorem policies_self_deadlock:
  assumes "all_free s" "noff (mycpu s) = 0"
    "policy s = SML \<or> (policy s = PRIORITY \<or> policy s = LOTTERY) \<and> (\<exists>p < NPROC. pstate (procs s p) = RUNNABLE)"
  shows "scheduler_round s = Panic ''acquire''"
proof -
  let ?s = "intr_on s"
  have on: "all_free ?s" "policy ?s = policy s" "procs ?s = procs s"
    using assms(1,2) by (auto simp: all_free_def cpu_ok_def machine_defs)
  have "sched_from 0 ?s = Panic ''acquire''"
  proof (cases "policy s = SML")
    case True
    then have "sched_iter 0 ?s = Panic ''acquire''"
      using on by (intro sched_iter_panics pick_proc_panics) (auto simp: NPROC_def)
    then show ?thesis by (subst sched_from.simps) (simp add: kthen_def NPROC_def)
  next
    case False
    define p where "p = (LEAST p. pstate (procs s p) = RUNNABLE)"
    from False assms(3) obtain q where q: "q < NPROC" "pstate (procs s q) = RUNNABLE" by auto
    have p: "pstate (procs s p) = RUNNABLE" "p < NPROC" "\<And>r. r < p \<Longrightarrow> pstate (procs s r) \<noteq> RUNNABLE"
      using LeastI [of "\<lambda>p. pstate (procs s p) = RUNNABLE", OF q(2)] not_less_Least
        Least_le [of "\<lambda>p. pstate (procs s p) = RUNNABLE", OF q(2)] q(1)
      by (auto simp: p_def intro: le_less_trans)
    define t where "t = (if 0 < p then settle ?s else ?s)"
    have t: "all_free t" "policy t = policy s" "procs t = procs s" using on by (simp_all add: t_def)
    have "sched_from 0 ?s = sched_from p t"
      unfolding t_def using sched_from_skips [of 0 p ?s] on p False by auto
    moreover have "sched_iter p t = Panic ''acquire''"
      using t p assms(3) False by (intro sched_iter_panics pick_proc_panics) auto
    ultimately show ?thesis using p(2) by (subst (asm) (2) sched_from.simps) (simp add: kthen_def)
  qed
  then show ?thesis by (simp add: scheduler_round_def kop_defs)
qed

subsection \<open>Random numbers\<close>

text \<open>
  C22. Random numbers are in range: for a positive bound the result lies between 0 and the bound, exclusive,
  whatever the state of the generator; for any other bound it is 1.
\<close>
theorem random_range: "fst (random mx s) \<in> (if 0 < mx then {0..<mx} else {1})"
proof -
  have "- crem a mx < mx \<and> crem a mx < mx" if "0 < mx" for a
    using that pos_mod_bound [OF that, of a] pos_mod_sign [OF that, of a]
      pos_mod_bound [OF that, of "- a"] pos_mod_sign [OF that, of "- a"]
    unfolding crem_def by (cases "a < 0"; simp only: if_True if_False; linarith)
  then show ?thesis by (auto simp: random_def Let_def)
qed

section \<open>A process table\<close>

text \<open>
  Process 1 runs on hart 0, process 2 is runnable and the others are unused.
\<close>

definition sample_proc :: proc where
  "sample_proc = \<lparr>pstate = UNUSED, pchan = None, pkilled = False, xstate = 0, pid = 0, parent = None,
     kstack = 0, sz = 0, pagetable = 0, trapframe = 0, pcontext = CtxNone, ofile = replicate NOFILE None,
     cwd = None, pname = replicate 16 0, priority = 0, ctime = 0, stime = 0, retime = 0, rutime = 0,
     tickets = 1, kintena = False\<rparr>"

definition sample_procs :: "nat \<Rightarrow> proc" where
  "sample_procs p =
     (if p = 1 then sample_proc\<lparr>pstate := RUNNING, pid := 1\<rparr>
      else if p = 2 then sample_proc\<lparr>pstate := RUNNABLE, pid := 2, parent := Some 1, priority := 2, ctime := 5\<rparr>
      else sample_proc)"

definition sample_buf :: buf where
  "sample_buf = \<lparr>valid = False, bdev = 0, blockno = 0, block_lock = initsleeplock, refcnt = 0, bdata = replicate BSIZE 0\<rparr>"

definition sample_log :: logst where
  "sample_log = \<lparr>log_start = 2, log_size = 30, outstanding = 0, committing = False, log_dev = 1,
     lh = \<lparr>lh_n = 0, lh_block = (\<lambda>i. 0)\<rparr>\<rparr>"

definition sample_sb :: superblock where
  "sample_sb = \<lparr>sb_magic = FSMAGIC, sb_size = 2000, sb_nblocks = 1954, sb_ninodes = 200, sb_nlog = 30,
     sb_logstart = 2, sb_inodestart = 32, sb_bmapstart = 45\<rparr>"

definition sample_inode :: inode where
  "sample_inode = \<lparr>idev = 1, inum = 0, iref = 0, inode_lock = initsleeplock, ivalid = False, itype = 0,
     imajor = 0, iminor = 0, inlink = 0, isize = 0, iaddrs = replicate 13 0\<rparr>"

definition sample_ptable :: "policy \<Rightarrow> ptable" where
  "sample_ptable pol =
     \<lparr>hart = 0, cpus = (\<lambda>h. \<lparr>cproc = None, noff = 0, intena = False\<rparr>), sie = (\<lambda>h. True),
      locks = (\<lambda>l. free_lock), bufs = (\<lambda>i. sample_buf), lru = rev [0..<NBUF],
      disk = (\<lambda>b. replicate BSIZE 0), disk_writes = [], curpid = 0, woken = [], log = sample_log,
      sb = sample_sb, inodes = (\<lambda>i. sample_inode), km = sample_kmem, curpt = 0,
      procs = sample_procs, initproc = Some 1, nextpid = 3, ticks = 7,
      rng = \<lparr>z1 = 12345, z2 = 12345, z3 = 12345, z4 = 12345\<rparr>, policy = pol, trampoline = 0x80007000, first = False\<rparr>"

text \<open>The same machine while process 1 is in a section under the ticks lock.\<close>

definition sample_running :: ptable where
  "sample_running = grab LTicks (set_cpu (\<lambda>c. c\<lparr>cproc := Some 1\<rparr>) (sample_ptable DEFAULT))"

lemma sample_all_free: "all_free (sample_ptable pol)" "noff (mycpu (sample_ptable pol)) = 0"
  "policy (sample_ptable pol) = pol" "procs (sample_ptable pol) = sample_procs"
  by (simp_all add: all_free_def sample_ptable_def cpu_ok_def machine_defs)

lemma sample_running_facts:
  "cpu_ok sample_running" "noff (mycpu sample_running) = 1" "cproc (mycpu sample_running) = Some 1"
  "holding LTicks sample_running" "locks sample_running (LProc p) = free_lock"
  by (simp_all add: sample_running_def cpu_ok_def sample_ptable_def machine_defs Let_def)



lemma sample_find: "find (\<lambda>p. pstate (sample_procs p) = RUNNABLE) [0..<NPROC] = Some 2"
  by (simp add: NPROC_def upt_conv_Cons sample_procs_def sample_proc_def)


lemma policies_self_deadlock_witness:
  "scheduler_round (sample_ptable PRIORITY) = Panic ''acquire'' \<and> scheduler_round (sample_ptable SML) = Panic ''acquire''"
proof -
  have "\<exists>p < NPROC. pstate (procs (sample_ptable PRIORITY) p) = RUNNABLE"
    by (rule exI [of _ 2]) (simp add: NPROC_def sample_all_free sample_procs_def sample_proc_def)
  then show ?thesis
    using policies_self_deadlock [OF sample_all_free(1,2), of PRIORITY] policies_self_deadlock [OF sample_all_free(1,2), of SML]
    by (simp add: sample_all_free)
qed

end
