(* ===== verification/Pipes.thy ===== *)
theory Pipes
  imports Pipe Procs
begin

text \<open>Properties of pipes: bytes leave a pipe in the order in which they were written.\<close>

lemma machine_frame_pipes:
  "locks_only s s' \<Longrightarrow> pipes s' = pipes s" "locks_only s s' \<Longrightarrow> km s' = km s" "locks_only s s' \<Longrightarrow> procs s' = procs s"
  for s s' :: "'a kernel_scheme"
  by (cases s; cases s'; simp add: locks_only_def)+

lemma curproc_current:
  assumes "curproc s = Ret (p, s')"
  shows "cproc (mycpu s) = Some p"
  using assms by (auto simp: curproc_def myproc_def kop_defs kbind_Ret_iff machine_defs Let_def split: option.splits if_splits)


text \<open>
  C24. Reading from a pipe takes from the front of its queue. When \<open>piperead\<close> returns a count, the bytes it took were the oldest ones of the
  pipe, it stored them at consecutive user addresses in that order, and it stopped only because
  the request was satisfied, the pipe was empty or a store failed; in that last case one more byte than
  it reports has left the pipe.
\<close>
theorem piperead_takes:
  assumes "piperead pi a n s = Ret (Done k, s')" "k \<noteq> - 1" "pq.ok (pipes s pi)" "cproc (mycpu s) = Some pr"
  shows "\<exists>bs r. pq.queue (pipes s pi) = bs @ pq.queue (pipes s' pi) \<and> pq.ok (pipes s' pi) \<and>
    deliver (pagetable (procs s pr)) a 0 bs (km s) = Ret (r, km s') \<and>
    k = int (length bs) - (if r = - 1 then 1 else 0) \<and> length bs \<le> nat n \<and>
    (r \<noteq> - 1 \<longrightarrow> length bs = nat n \<or> pq.queue (pipes s' pi) = [])"
proof -
  obtain s1 s2 where cur: "curproc s = Ret (pr, s1)" and acq: "acquire (LPipe pi) s1 = Ret ((), s2)"
    and rd: "piperead_wait pr pi a n s2 = Ret (Done k, s')"
    using assms(1,4) curproc_current [of s] unfolding piperead_def kthen_Ret_iff by fastforce
  have lo: "locks_only s s2"
    using locks_only_trans [OF curproc_locks_only [OF cur] acquire_locks_only [OF acq]] .
  note fr = machine_frame_pipes [OF lo]
  have "piperead_copy pr pi a (nat n) 0 s2 = Ret (Done k, s')"
    using rd assms(2) by (auto simp: piperead_wait_def kthen_Ret_iff kret_def split: if_splits)
  from piperead_copy_consumed [OF this] assms(3) obtain bs r where
    "length bs \<le> nat n" "consumed pr pi a 0 bs r s2 (Done k) s'"
    "r \<noteq> - 1 \<longrightarrow> length bs = nat n \<or> pq.queue (pipes s' pi) = []" by (auto simp: fr)
  then show ?thesis by (intro exI [of _ bs] exI [of _ r]) (auto simp: consumed_def fr)
qed

section \<open>A kernel with a pipe\<close>

text \<open>Process 1 runs; the pipe at \<open>0x80400000\<close> holds the given number of bytes.\<close>

definition sample_pipe :: "u32 \<Rightarrow> pipe" where
  "sample_pipe n = \<lparr>pdata = (\<lambda>i. of_nat i), nread = 0, nwrite = n, readopen = True, writeopen = True\<rparr>"

definition sample_file :: kfile where
  "sample_file = \<lparr>ftype = FD_NONE, fref = 0, readable = False, writable = False, fpipe = 0, fip = 0, foff = 0, fmajor = 0\<rparr>"

definition sample_kernel :: "u32 \<Rightarrow> kernel" where
  "sample_kernel n =
     \<lparr>hart = 0, cpus = (\<lambda>h. \<lparr>cproc = Some 1, noff = 0, intena = False\<rparr>), sie = (\<lambda>h. True),
      locks = (\<lambda>l. free_lock), bufs = (\<lambda>i. sample_buf), lru = rev [0..<NBUF],
      disk = (\<lambda>b. replicate BSIZE 0), disk_writes = [], curpid = 0, woken = [], log = sample_log,
      sb = sample_sb, inodes = (\<lambda>i. sample_inode), km = sample_kmem, curpt = 0,
      procs = sample_procs, initproc = Some 1, nextpid = 3, ticks = 7,
      rng = \<lparr>z1 = 12345, z2 = 12345, z3 = 12345, z4 = 12345\<rparr>, policy = DEFAULT, trampoline = 0x80007000, first = False,
      uart_tx_buf = (\<lambda>i. 0), uart_tx_w = 0, uart_tx_r = 0, tx_space = 16, tx_out = [], rx = [], uart_regs = [],
      panicked = False, pr_locking = True, cons_buf = (\<lambda>i. 0), cons_r = 0, cons_w = 0, cons_e = 0,
      files = (\<lambda>f. sample_file), pipes = (\<lambda>a. sample_pipe n), devsw = (\<lambda>i. False)\<rparr>"

lemma sample_kernel_facts:
  "cpu_ok (sample_kernel n)" "noff (mycpu (sample_kernel n)) = 0" "cproc (mycpu (sample_kernel n)) = Some 1"
  "locks (sample_kernel n) l = free_lock" "pipes (sample_kernel n) pi = sample_pipe n"
  "procs (sample_kernel n) = sample_procs"
  by (simp_all add: sample_kernel_def cpu_ok_def machine_defs)

lemma curproc_sample: "curproc (sample_kernel n) = Ret (1, settle (sample_kernel n))"
  by (simp add: curproc_ok sample_kernel_facts)

lemma pipe_machine [simp]:
  "pipes (grab l s) = pipes s" "pipes (settle s) = pipes s" "km (grab l s) = km s" "km (settle s) = km s"
  for s :: "'a kernel_scheme"
  by (simp_all add: machine_defs Let_def)

lemma procs_update_machine:
  "grab l (s\<lparr>procs := f\<rparr>) = (grab l s)\<lparr>procs := f\<rparr>" "settle (s\<lparr>procs := f\<rparr>) = (settle s)\<lparr>procs := f\<rparr>"
  by (simp_all add: machine_defs Let_def cong: if_cong)

lemma release_procs:
  assumes "cpu_ok s" "locks s l = free_lock"
  shows "release l ((grab l s)\<lparr>procs := f\<rparr>) = Ret ((), (settle s)\<lparr>procs := f\<rparr>)"
proof -
  have "cpu_ok (s\<lparr>procs := f\<rparr>)" "locks (s\<lparr>procs := f\<rparr>) l = free_lock"
    using assms by (simp_all add: cpu_ok_def mycpu_def intr_get_def)
  from release_grab [OF this] show ?thesis by (simp add: procs_update_machine)
qed

lemma pipe_done_spec:
  assumes "cpu_ok s" "locks s (LPipe pi) = free_lock" "proc_locks_free s"
  shows "\<exists>s'. pipe_done pi c i (grab (LPipe pi) s) = Ret (Done (int i), s')"
proof -
  have "proc_locks_free (grab (LPipe pi) s)" using assms(3) by (simp add: proc_locks_free_def)
  then show ?thesis using assms(1,2)
    by (simp add: pipe_done_def kop_defs wakeup_spec release_procs)
qed

text \<open>A write to a full pipe sleeps.\<close>

lemma full_pipe_sleeps:
  "\<exists>s'. pipewrite 0x80400000 0x1000 3 (sample_kernel 512) = Ret (Asleep 0, s')"
proof -
  let ?s = "settle (sample_kernel 512)" and ?pi = "0x80400000 :: addr"
  let ?g = "grab (LPipe ?pi) ?s"
  have ok: "cpu_ok ?g" "noff (mycpu ?g) = 1" "cproc (mycpu ?g) = Some 1" "holding (LPipe ?pi) ?g"
    "locks ?g (LProc p) = free_lock" "proc_locks_free ?g" for p
    by (simp_all add: sample_kernel_facts proc_locks_free_def)
  have kill: "killed 1 ?g = Ret (False, ?g)"
    using ok by (simp add: killed_def kop_defs acquire_free settle_nested sample_kernel_facts sample_procs_def sample_proc_def)
  have full: "pipe_full (pipes ?g ?pi)"
    by (simp add: sample_kernel_facts pipe_full_def sample_pipe_def PIPESIZE_def)
  let ?w = "?g\<lparr>procs := (\<lambda>p. if p < NPROC \<and> Some p \<noteq> cproc (mycpu ?g) then wake (Some (ChanPipeRead ?pi)) (procs ?g p) else procs ?g p)\<rparr>"
  have wk: "wakeup (Some (ChanPipeRead ?pi)) ?g = Ret ((), ?w)"
    using wakeup_spec [OF ok(1,6)] ok(2) by (simp add: settle_nested)
  have "cpu_ok ?w" "noff (mycpu ?w) = 1" "cproc (mycpu ?w) = Some 1" "holding (LPipe ?pi) ?w" "locks ?w (LProc 1) = free_lock"
    using ok by (simp_all add: cpu_ok_def mycpu_def intr_get_def holding_def)
  then obtain s' where "sleep (Some (ChanPipeWrite ?pi)) (LPipe ?pi) ?w = Ret ((), s')"
    using sleep_spec [of ?w 1 "LPipe ?pi" "Some (ChanPipeWrite ?pi)"] by blast
  moreover have "readopen (pipes ?g ?pi)" by (simp add: sample_kernel_facts sample_pipe_def)
  ultimately have "pipewrite_from 1 ?pi 0x1000 3 0 ?g = Ret (Asleep 0, s')"
    using kill full wk by (subst pipewrite_from.simps) (simp only: kop_defs kbind.simps prod.case if_True if_False zero_less_numeral refl)
  then show ?thesis
    by (simp add: pipewrite_def kop_defs curproc_sample acquire_free sample_kernel_facts del: One_nat_def)
qed

lemma sample_pipe_ok: "n \<le> 512 \<Longrightarrow> pq.ok (sample_pipe n)"
  unfolding pq.ok_def pq.count_def by (simp add: sample_pipe_def PIPESIZE_def word_le_nat_alt)


text \<open>A read of one byte to an address beyond user space.\<close>

lemma bad_read:
  "\<exists>s'. piperead 0x80400000 MAXVA 1 (sample_kernel 2) = Ret (Done 0, s')"
proof -
  let ?s = "settle (sample_kernel 2)" and ?pi = "0x80400000 :: addr"
  let ?t = "set_pipe ?pi pipe_pop ?s"
  have g: "set_pipe ?pi pipe_pop (grab (LPipe ?pi) ?s) = grab (LPipe ?pi) ?t"
    by (simp add: set_pipe_def machine_defs Let_def)
  have t: "cpu_ok ?t" "locks ?t l = free_lock" "proc_locks_free ?t" for l
    using sample_kernel_facts(1) [of 2]
    by (simp_all add: set_pipe_def sample_kernel_facts proc_locks_free_def cpu_ok_def mycpu_def intr_get_def settle_def set_cpu_def)
  have "copyout pt MAXVA [c] m = Ret (- 1, m)" for pt c m
    by (subst copyout.simps) (simp add: MAXVA_def PGROUNDDOWN_def PGSIZE_def)
  then have c: "on_km (copyout pt MAXVA [c]) u = Ret (- 1, u)" for pt c and u :: kernel
    by (simp add: on_km_def)
  with pipe_done_spec [OF t(1,2,3), of ?pi "ChanPipeWrite ?pi" 0] show ?thesis
    by (simp add: piperead_def kop_defs curproc_sample acquire_free sample_kernel_facts piperead_wait_def sample_pipe_def
        piperead_copy.simps [of 1] g Let_def del: One_nat_def)
qed

lemma piperead_takes_witness:
  "\<exists>s' bs. piperead 0x80400000 MAXVA 1 (sample_kernel 2) = Ret (Done 0, s') \<and>
     pq.queue (pipes (sample_kernel 2) 0x80400000) = bs @ pq.queue (pipes s' 0x80400000)"
proof -
  obtain s' where r: "piperead 0x80400000 MAXVA 1 (sample_kernel 2) = Ret (Done 0, s')" using bad_read by blast
  have "pq.ok (pipes (sample_kernel 2) 0x80400000)" by (simp add: sample_kernel_facts sample_pipe_ok)
  from piperead_takes [OF r _ this sample_kernel_facts(3)] r show ?thesis by auto
qed

end
