(* ===== verification/Consoles.thy ===== *)
theory Consoles
  imports Console Procs
begin

text \<open>
  Properties of console output and input: bytes written by a process reach the serial line in order,
  and the input handler implements an abstract line editor.
\<close>

section \<open>Output\<close>

lemma copyin_length:
  "copyin pt a len m = Ret (r, bs) \<Longrightarrow> r \<noteq> - 1 \<Longrightarrow> length bs = len"
proof (induction pt a len m arbitrary: r bs rule: copyin.induct)
  case (1 pt a len m)
  show ?case
  proof (cases "0 < len")
    case True
    let ?n = "chunk_len a len"
    obtain pa r' bs' where w: "walkaddr pt (PGROUNDDOWN a) m = Ret pa" "pa \<noteq> 0"
      and c: "copyin pt (PGROUNDDOWN a + PGSIZE) (len - ?n) m = Ret (r', bs')"
      and r: "r = r'" "bs = read_bytes (phys m) (pa + (a - PGROUNDDOWN a)) ?n @ bs'"
      using 1(2,3) [unfolded copyin.simps [of pt a len m]] True
      by (auto simp: Let_def kbind_Ret_iff split: if_splits)
    have "length bs' = len - ?n" using 1(1) [OF True refl w(1,2) refl c] 1(3) r by simp
    then show ?thesis using r chunk_len_le [of a len] by (simp add: read_bytes_def)
  next
    case False
    then show ?thesis using 1(2) [unfolded copyin.simps [of pt a len m]] by simp
  qed
qed

text \<open>The state in which the file-system layers see the running process.\<close>

definition as_proc :: "nat \<Rightarrow> 'a ptable_scheme \<Rightarrow> 'a ptable_scheme" where
  "as_proc p s = s\<lparr>curpid := pid (procs s p), curpt := pagetable (procs s p), woken := []\<rparr>"

lemma fs_call_quiet:
  assumes "cproc (mycpu s) = Some p" "fs_call op s = Ret (r, s1)"
    "\<And>x s2. op (as_proc p s) = Ret (x, s2) \<Longrightarrow> woken s2 = []"
  shows "op (as_proc p s) = Ret (r, s1)"
  using assms by (auto simp: fs_call_def kop_defs kbind_Ret_iff as_proc_def split: prod.splits)

lemma fs_get_byte:
  assumes "cproc (mycpu s) = Some p" "fs_call (get_byte True a) s = Ret ((r, c), s1)"
  shows "s1 = as_proc p s" "r \<noteq> - 1 \<Longrightarrow> c = user_byte (pagetable (procs s p)) a (km s)"
proof -
  have "get_byte True a (as_proc p s) = Ret ((r, c), s1)"
    by (rule fs_call_quiet [OF assms])
      (auto simp: get_byte_def kop_defs either_copyin_def kbind_Ret_iff as_proc_def split: prod.splits)
  then obtain bs where c: "copyin (pagetable (procs s p)) a 1 (km s) = Ret (r, bs)"
    and b: "c = (if bs = [] then 0 else hd bs)" and s1: "s1 = as_proc p s"
    by (auto simp: get_byte_def kop_defs either_copyin_def kbind_Ret_iff as_proc_def split: prod.splits)
  show "s1 = as_proc p s" by (rule s1)
  show "r \<noteq> - 1 \<Longrightarrow> c = user_byte (pagetable (procs s p)) a (km s)"
    using c b copyin_length [OF c] by (auto simp: user_byte_def)
qed

text \<open>What the driver leaves alone.\<close>

definition user_frame :: "'a devices_scheme \<Rightarrow> 'a devices_scheme \<Rightarrow> bool" where
  "user_frame s s' \<longleftrightarrow> km s' = km s \<and> cproc (mycpu s') = cproc (mycpu s) \<and>
     (\<forall>p. pagetable (procs s' p) = pagetable (procs s p))"

lemma user_frame_trans: "user_frame s s1 \<Longrightarrow> user_frame s1 s2 \<Longrightarrow> user_frame s s2"
  by (simp add: user_frame_def)

lemma procs_only_user: "procs_only s s' \<Longrightarrow> user_frame s s'"
  by (simp add: user_frame_def uart_frame procs_only_current procs_only_pagetable)

lemma user_frame_upd [simp]:
  "user_frame s (uart_push c s)" "user_frame s (uart_pop s)" "user_frame s (write_THR c s)"
  by (simp_all add: user_frame_def uart_push_def uart_pop_def write_THR_def mycpu_def)

lemma uartstart_user: "uartstart s = Ret ((), s') \<Longrightarrow> user_frame s s'"
proof (induction s rule: uartstart.induct)
  case (1 s)
  consider (stop) "uart_tx_w s = uart_tx_r s \<or> tx_space s = 0" | (send) "uart_tx_w s \<noteq> uart_tx_r s" "tx_space s \<noteq> 0" by blast
  then show ?case
  proof cases
    case stop
    then show ?thesis using 1(2) [unfolded uartstart.simps [of s]] by (auto simp: user_frame_def split: if_splits)
  next
    case send
    let ?c = "uart_tx_buf s (unat (uart_tx_r s) mod UART_TX_BUF_SIZE)"
    obtain s1 where w: "wakeup (Some ChanUart) (uart_pop s) = Ret ((), s1)"
      and r: "uartstart (write_THR ?c s1) = Ret ((), s')"
      using 1(2) [unfolded uartstart.simps [of s]] send by (auto simp: Let_def kthen_Ret_iff)
    show ?thesis
      using 1(1) [OF send refl w r] procs_only_user [OF wakeup_procs_only [OF w]] user_frame_upd(2,3) user_frame_trans
      by metis
  qed
qed

lemma uart_put_step:
  assumes "uart_put c s = Ret (res, s')" "uq.ok s"
  shows "uq.ok s' \<and> user_frame s s' \<and>
    (res = Done () \<and> sent s' = sent s @ [c] \<or> (\<exists>k. res = Asleep k) \<and> sent s' = sent s)"
proof (cases "uart_tx_w s = uart_tx_r s + of_nat UART_TX_BUF_SIZE")
  case True
  then obtain u where "sleep (Some ChanUart) LUart s = Ret (u, s')" "res = Asleep 0"
    using assms(1) by (auto simp: uart_put_def kthen_Ret_iff kret_def)
  then show ?thesis using assms(2) sleep_procs_only uq_frame procs_only_user by blast
next
  case False
  then obtain s1 where st: "uartstart (uart_push c s) = Ret ((), s1)" and rel: "release LUart s1 = Ret ((), s')"
    and res: "res = Done ()"
    using assms(1) by (auto simp: uart_put_def kthen_Ret_iff kret_def)
  note po = release_locks_only [OF rel, THEN locks_only_procs_only]
  have push: "uq.queue (uart_push c s) = uq.queue s @ [c]" "uq.ok (uart_push c s)"
    using uq.put_queue [OF assms(2)] False by auto
  have "user_frame s s'"
    using user_frame_upd(1) uartstart_user [OF st] procs_only_user [OF po] user_frame_trans by metis
  moreover have "sent (uart_push c s) = sent s @ [c]" using push(1) by (simp add: sent_def) (simp add: uart_push_def)
  ultimately show ?thesis using uartstart_sends [OF st push(2)] uq_frame [OF po] res by simp
qed

lemma uartputc_step:
  assumes "uartputc c s = Ret (res, s')" "uq.ok s"
  shows "uq.ok s' \<and> user_frame s s' \<and>
    (res = Done () \<and> sent s' = sent s @ [c] \<or> (\<exists>k. res = Asleep k) \<and> sent s' = sent s)"
proof -
  obtain s1 where a: "acquire LUart s = Ret ((), s1)" and p: "uart_put c s1 = Ret (res, s')"
    using assms(1) by (auto simp: uartputc_def kthen_Ret_iff split: if_splits)
  note po = acquire_locks_only [OF a, THEN locks_only_procs_only]
  from uart_put_step [OF p] assms(2) uq_frame [OF po] procs_only_user [OF po] show ?thesis
    by (auto intro: user_frame_trans)
qed

lemma as_proc_uart [simp]:
  "uq.ok (as_proc p s) = uq.ok s" "sent (as_proc p s) = sent s" "user_frame s (as_proc p s)"
  for s :: "'a devices_scheme"
  by (simp_all add: as_proc_def uq.ok_def uq.count_def sent_def uq.queue_def user_frame_def mycpu_def)

lemma consolewrite_from_sends:
  "consolewrite_from True src n i s = Ret (res, s') \<Longrightarrow> uq.ok s \<Longrightarrow> cproc (mycpu s) = Some p \<Longrightarrow> i \<le> n \<Longrightarrow>
   \<exists>k. i \<le> k \<and> k \<le> n \<and> (res = Done (int k) \<or> res = Asleep k) \<and> uq.ok s' \<and>
     sent s' = sent s @ map (\<lambda>j. user_byte (pagetable (procs s p)) (src + of_nat j) (km s)) [i..<k]"
proof (induction True src n i s rule: consolewrite_from.induct)
  case (1 src n i s)
  show ?case
  proof (cases "i < n")
    case False
    then show ?thesis using 1(2) [unfolded consolewrite_from.simps [of True src n i s]] 1(3,5)
      by (intro exI [of _ i]) auto
  next
    case True
    obtain r c s1 where g: "fs_call (get_byte True (src + of_nat i)) s = Ret ((r, c), s1)"
      and rest: "(if r = - 1 then Ret (Done (int i), s1)
             else kthen (uartputc c) (\<lambda>res s2. case res of
                    Asleep _ \<Rightarrow> Ret (Asleep i, s2)
                  | Done _ \<Rightarrow> consolewrite_from True src n (Suc i) s2) s1) = Ret (res, s')"
      using 1(2) [unfolded consolewrite_from.simps [of True src n i s]] True by (auto simp: kthen_Ret_iff)
    note gb = fs_get_byte [OF 1(4) g]
    show ?thesis
    proof (cases "r = - 1")
      case True
      then show ?thesis using rest 1(3,5) gb(1) by (intro exI [of _ i]) auto
    next
      case False
      then obtain res1 s2 where u: "uartputc c s1 = Ret (res1, s2)"
        and rest2: "(case res1 of Asleep _ \<Rightarrow> Ret (Asleep i, s2)
                  | Done _ \<Rightarrow> consolewrite_from True src n (Suc i) s2) = Ret (res, s')"
        using rest by (auto simp: kthen_Ret_iff)
      have st: "uq.ok s2" "user_frame s1 s2"
        "res1 = Done () \<and> sent s2 = sent s1 @ [c] \<or> (\<exists>k. res1 = Asleep k) \<and> sent s2 = sent s1"
        using uartputc_step [OF u] gb(1) 1(3) by auto
      have fr: "user_frame s s2" using user_frame_trans [OF as_proc_uart(3) st(2) [unfolded gb(1)]] .
      show ?thesis
      proof (cases res1)
        case (Asleep k)
        then show ?thesis using rest2 st gb(1) True 1(5) by (intro exI [of _ i]) auto
      next
        case (Done x)
        have cur: "cproc (mycpu s2) = Some p" using fr 1(4) by (simp add: user_frame_def)
        from rest2 Done have "consolewrite_from True src n (Suc i) s2 = Ret (res, s')" by simp
        from 1(1) [OF True g refl False u Done this st(1) cur] True
        obtain k where k: "Suc i \<le> k" "k \<le> n" "res = Done (int k) \<or> res = Asleep k" "uq.ok s'"
          "sent s' = sent s2 @ map (\<lambda>j. user_byte (pagetable (procs s2 p)) (src + of_nat j) (km s2)) [Suc i..<k]" by auto
        then have "[i..<k] = i # [Suc i..<k]" by (simp add: upt_conv_Cons)
        then show ?thesis
          using k st(3) Done gb fr False by (intro exI [of _ k]) (auto simp: user_frame_def)
      qed
    qed
  qed
qed

end
