(* ===== verification/Blocks.thy ===== *)
theory Blocks
  imports Log
begin

text \<open>
  The buffer cache as a store of blocks. The abstract value of the cache is the contents
  of every block as its readers see it; the disk holds the same, except for pinned blocks. Each
  operation of \<open>bio.c\<close> is given its effect on that value, as the laws of the interface
  that the log relies on.
\<close>

section \<open>Which buffer caches a block\<close>

lemma find_Some_unique:
  assumes "i \<in> set xs" "P i" "\<forall>j \<in> set xs. j \<noteq> i \<longrightarrow> \<not> P j"
  shows "find P xs = Some i"
  using assms
proof (induction xs)
  case (Cons x xs)
  then show ?case by (cases "x = i") auto
qed simp

lemma find_SomeD: "find P xs = Some i \<Longrightarrow> i \<in> set xs \<and> P i"
  by (induction xs) (auto split: if_splits)

definition holds :: "u32 \<Rightarrow> u32 \<Rightarrow> buf \<Rightarrow> bool" where
  "holds dev b x \<longleftrightarrow> bdev x = dev \<and> blockno x = b"

lemma bcache_wfD:
  assumes "bcache_wf dev s"
  shows "set (lru s) = {..<NBUF}" "distinct (lru s)"
    "i < NBUF \<Longrightarrow> j < NBUF \<Longrightarrow> holds dev b (bufs s i) \<Longrightarrow> holds dev b (bufs s j) \<Longrightarrow> i = j"
  using assms unfolding bcache_wf_def holds_def by blast+

lemma bcache_wf_lru:
  assumes "bcache_wf dev s" "bufs s' = bufs s" "distinct (lru s')" "set (lru s') = {..<NBUF}"
  shows "bcache_wf dev s'"
  using assms(1,3,4) unfolding bcache_wf_def assms(2) by blast

lemma cached_Some:
  assumes "bcache_wf dev s"
  shows "cached s dev b = Some i \<longleftrightarrow> i < NBUF \<and> holds dev b (bufs s i)"
proof
  assume "cached s dev b = Some i"
  then have "i \<in> set (lru s)" "holds dev b (bufs s i)"
    unfolding cached_def holds_def using find_SomeD by fast+
  then show "i < NBUF \<and> holds dev b (bufs s i)" using bcache_wfD(1) [OF assms] by simp
next
  assume i: "i < NBUF \<and> holds dev b (bufs s i)"
  show "cached s dev b = Some i"
    unfolding cached_def holds_def [symmetric]
  proof (rule find_Some_unique)
    show "i \<in> set (lru s)" "holds dev b (bufs s i)" using bcache_wfD(1) [OF assms] i by simp_all
    show "\<forall>j \<in> set (lru s). j \<noteq> i \<longrightarrow> \<not> holds dev b (bufs s j)"
      using bcache_wfD(1,3) [OF assms] i by blast
  qed
qed

lemma cached_None:
  assumes "bcache_wf dev s"
  shows "cached s dev b = None \<longleftrightarrow> (\<forall>i < NBUF. \<not> holds dev b (bufs s i))"
  using cached_Some [OF assms, of b] by (metis not_Some_eq)

lemma content_cached:
  "bcache_wf dev s \<Longrightarrow> i < NBUF \<Longrightarrow> holds dev b (bufs s i) \<Longrightarrow>
   content s dev b = (if valid (bufs s i) then bdata (bufs s i) else disk s b)"
  using cached_Some [of dev s b i] by (simp add: content_def)

lemma content_uncached:
  "bcache_wf dev s \<Longrightarrow> (\<forall>i < NBUF. \<not> holds dev b (bufs s i)) \<Longrightarrow> content s dev b = disk s b"
  using cached_None [of dev s b] by (simp add: content_def)

text \<open>A block reads differently from the disk exactly if a valid buffer caches it with other bytes.\<close>

lemma content_dirty:
  assumes "bcache_wf dev s"
  shows "content s dev b \<noteq> disk s b \<longleftrightarrow>
    (\<exists>i < NBUF. holds dev b (bufs s i) \<and> valid (bufs s i) \<and> bdata (bufs s i) \<noteq> disk s b)"
proof (cases "\<exists>i < NBUF. holds dev b (bufs s i)")
  case True
  then obtain i where i: "i < NBUF" "holds dev b (bufs s i)" by blast
  have "(\<exists>j < NBUF. holds dev b (bufs s j) \<and> valid (bufs s j) \<and> bdata (bufs s j) \<noteq> disk s b) \<longleftrightarrow>
      valid (bufs s i) \<and> bdata (bufs s i) \<noteq> disk s b"
    using i bcache_wfD(3) [OF assms] by blast
  then show ?thesis using content_cached [OF assms i] by simp
next
  case False
  then show ?thesis using content_uncached [OF assms] by auto
qed

text \<open>Two caches with the same dirty blocks over the same disk.\<close>

lemma content_cong:
  assumes wf: "bcache_wf dev s" "bcache_wf dev s'" and disk: "disk s' b = disk s b"
    and sub: "\<And>i. i < NBUF \<Longrightarrow> holds dev b (bufs s i) \<Longrightarrow> valid (bufs s i) \<Longrightarrow> bdata (bufs s i) \<noteq> disk s b \<Longrightarrow>
       holds dev b (bufs s' i) \<and> valid (bufs s' i) \<and> bdata (bufs s' i) = bdata (bufs s i)"
    and sup: "\<And>i. i < NBUF \<Longrightarrow> holds dev b (bufs s' i) \<Longrightarrow> valid (bufs s' i) \<Longrightarrow> bdata (bufs s' i) \<noteq> disk s b \<Longrightarrow>
       holds dev b (bufs s i) \<and> valid (bufs s i) \<and> bdata (bufs s i) = bdata (bufs s' i)"
  shows "content s' dev b = content s dev b"
proof (cases "content s dev b = disk s b")
  case True
  have "content s' dev b = disk s' b"
  proof (rule ccontr)
    assume "content s' dev b \<noteq> disk s' b"
    then obtain i where i: "i < NBUF" "holds dev b (bufs s' i)" "valid (bufs s' i)" "bdata (bufs s' i) \<noteq> disk s b"
      using content_dirty [OF wf(2), of b] disk by auto
    from sup [OF this] i content_cached [OF wf(1) i(1)] True show False by simp
  qed
  with True disk show ?thesis by simp
next
  case False
  then obtain i where i: "i < NBUF" "holds dev b (bufs s i)" "valid (bufs s i)" "bdata (bufs s i) \<noteq> disk s b"
    using content_dirty [OF wf(1), of b] by auto
  from sub [OF this] i show ?thesis
    using content_cached [OF wf(1) i(1,2)] content_cached [OF wf(2) i(1)] by simp
qed

section \<open>The invariant of the cache\<close>

text \<open>
  The running process holds the buffers \<open>H\<close>; the blocks \<open>P\<close> of the device are pinned. Every
  other buffer is free, and what it caches agrees with the disk.
\<close>

definition buf_ok :: "u32 \<Rightarrow> nat set \<Rightarrow> u32 set \<Rightarrow> int \<Rightarrow> (u32 \<Rightarrow> u8 list) \<Rightarrow> nat \<Rightarrow> buf \<Rightarrow> bool" where
  "buf_ok dev H P me D i b \<longleftrightarrow>
     slocked (block_lock b) = (i \<in> H) \<and>
     (i \<in> H \<longrightarrow> spid (block_lock b) = me \<and> bdev b = dev \<and> valid b) \<and>
     refcnt b = (if i \<in> H then 1 else 0) + (if bdev b = dev \<and> blockno b \<in> P then 1 else 0) \<and>
     (bdev b = dev \<and> valid b \<and> i \<notin> H \<and> blockno b \<notin> P \<longrightarrow> bdata b = D (blockno b))"

definition bstate :: "u32 \<Rightarrow> nat set \<Rightarrow> u32 set \<Rightarrow> 'a bio_scheme \<Rightarrow> bool" where
  "bstate dev H P s \<longleftrightarrow>
     bcache_wf dev s \<and> H \<subseteq> {..<NBUF} \<and> finite P \<and>
     (\<forall>i < NBUF. buf_ok dev H P (curpid s) (disk s) i (bufs s i)) \<and>
     (\<forall>b \<in> P. \<exists>i < NBUF. holds dev b (bufs s i) \<and> valid (bufs s i))"

lemma bstateD:
  assumes "bstate dev H P s"
  shows "bcache_wf dev s" "H \<subseteq> {..<NBUF}" "finite P"
    "i < NBUF \<Longrightarrow> buf_ok dev H P (curpid s) (disk s) i (bufs s i)"
    "b \<in> P \<Longrightarrow> \<exists>i < NBUF. holds dev b (bufs s i) \<and> valid (bufs s i)"
  using assms by (simp_all add: bstate_def)

lemma one_buffer:
  assumes "bstate dev H P s" "i < NBUF" "j < NBUF" "holds dev b (bufs s i)" "holds dev b (bufs s j)"
  shows "i = j"
  using bcache_wfD(3) [OF bstateD(1) [OF assms(1)]] assms(2-) by blast

text \<open>A block that is not pinned reads as on the disk, unless its buffer is held.\<close>

lemma content_disk:
  assumes "bstate dev H P s" "b \<notin> P" "\<forall>i \<in> H. blockno (bufs s i) \<noteq> b"
  shows "content s dev b = disk s b"
proof (cases "\<exists>i < NBUF. holds dev b (bufs s i)")
  case True
  then obtain i where i: "i < NBUF" "holds dev b (bufs s i)" by blast
  then have "i \<notin> H" using assms(3) by (auto simp: holds_def)
  then show ?thesis
    using content_cached [OF bstateD(1) [OF assms(1)] i] bstateD(4) [OF assms(1) i(1)] assms(2) i(2)
    by (auto simp: buf_ok_def holds_def)
next
  case False
  then show ?thesis using content_uncached [OF bstateD(1) [OF assms(1)]] by blast
qed

lemma free_buffer:
  assumes st: "bstate dev H P s" and room: "card H + card P < NBUF"
  shows "\<exists>i < NBUF. refcnt (bufs s i) = 0"
proof (rule ccontr)
  assume busy: "\<not> ?thesis"
  let ?Q = "{i. i < NBUF \<and> bdev (bufs s i) = dev \<and> blockno (bufs s i) \<in> P}"
  have "{..<NBUF} \<subseteq> H \<union> ?Q"
  proof
    fix i assume "i \<in> {..<NBUF}"
    then have i: "i < NBUF" by simp
    show "i \<in> H \<union> ?Q"
    proof (rule ccontr)
      assume "i \<notin> H \<union> ?Q"
      then have "refcnt (bufs s i) = 0" using bstateD(4) [OF st i] i by (simp add: buf_ok_def)
      with busy i show False by blast
    qed
  qed
  moreover have fin: "finite H" "finite ?Q" "finite P"
    using bstateD(3) [OF st] finite_subset [OF bstateD(2) [OF st]] by simp_all
  ultimately have "NBUF \<le> card (H \<union> ?Q)" using card_mono [of "H \<union> ?Q" "{..<NBUF}"] by simp
  moreover have "inj_on (\<lambda>i. blockno (bufs s i)) ?Q"
    using bcache_wfD(3) [OF bstateD(1) [OF st]] unfolding inj_on_def holds_def by blast
  then have "card ?Q \<le> card P" using fin by (intro card_inj_on_le) auto
  ultimately show False using card_Un_le [of H ?Q] room by linarith
qed

section \<open>Reading a block\<close>

text \<open>The buffer \<open>bread\<close> returns.\<close>

definition loaded :: "u32 \<Rightarrow> u32 \<Rightarrow> 'a bio_scheme \<Rightarrow> nat \<Rightarrow> buf" where
  "loaded dev b s i =
     \<lparr>valid = True, bdev = dev, blockno = b, block_lock = \<lparr>slocked = True, spid = curpid s\<rparr>,
      refcnt = refcnt (bufs s i) + 1, bdata = content s dev b\<rparr>"

abbreviation load :: "u32 \<Rightarrow> u32 \<Rightarrow> nat \<Rightarrow> 'a bio_scheme \<Rightarrow> 'a bio_scheme" where
  "load dev b i s \<equiv> set_buf i (\<lambda>_. loaded dev b s i) s"

lemma lock_buf_free:
  "\<not> slocked (block_lock (bufs s i)) \<Longrightarrow>
   lock_buf i s = Ret (i, set_buf i (\<lambda>x. x\<lparr>block_lock := \<lparr>slocked = True, spid = curpid s\<rparr>\<rparr>) s)"
  by (cases "block_lock (bufs s i)") (simp add: lock_buf_def acquiresleep_def)

lemma set_buf_twice: "set_buf i f (set_buf i g s) = set_buf i (\<lambda>x. f (g x)) s"
  by (simp add: set_buf_def)

lemma set_buf_cong: "f (bufs s i) = g (bufs s i) \<Longrightarrow> set_buf i f s = set_buf i g s"
  by (simp add: set_buf_def)

lemma bread_cached:
  assumes st: "bstate dev H P s" and i: "i < NBUF" "holds dev b (bufs s i)" "i \<notin> H"
  shows "bread dev b s = Ret (i, load dev b i s)"
proof -
  have c: "cached s dev b = Some i" using cached_Some [OF bstateD(1) [OF st]] i by blast
  have "\<not> slocked (block_lock (bufs s i))" using bstateD(4) [OF st i(1)] i(3) by (simp add: buf_ok_def)
  then show ?thesis
    using c i(2) content_cached [OF bstateD(1) [OF st] i(1,2)]
    by (auto simp: bread_def kop_defs bget_def cached_def lock_buf_free virtio_disk_rw_def set_buf_twice
        holds_def loaded_def intro!: set_buf_cong)
qed

lemma bread_uncached:
  assumes st: "bstate dev H P s" and none: "\<forall>i < NBUF. \<not> holds dev b (bufs s i)" and room: "card H + card P < NBUF"
  shows "\<exists>i < NBUF. refcnt (bufs s i) = 0 \<and> bread dev b s = Ret (i, load dev b i s)"
proof -
  have c: "cached s dev b = None" using cached_None [OF bstateD(1) [OF st]] none by blast
  have lru: "set (rev (lru s)) = {..<NBUF}" using bcache_wfD(1) [OF bstateD(1) [OF st]] by simp
  obtain i where i: "find (\<lambda>i. refcnt (bufs s i) = 0) (rev (lru s)) = Some i"
    using free_buffer [OF st room] lru find_None_iff [of "\<lambda>i. refcnt (bufs s i) = 0" "rev (lru s)"]
    by (cases "find (\<lambda>i. refcnt (bufs s i) = 0) (rev (lru s))") auto
  then have "i \<in> set (rev (lru s))" and r: "refcnt (bufs s i) = 0"
    using find_SomeD by fast+
  with lru have n: "i < NBUF" by simp
  have "i \<notin> H" using bstateD(4) [OF st n] r by (auto simp: buf_ok_def split: if_splits)
  then have "\<not> slocked (block_lock (bufs s i))" using bstateD(4) [OF st n] by (simp add: buf_ok_def)
  then have "bread dev b s = Ret (i, load dev b i s)"
    using c i r content_uncached [OF bstateD(1) [OF st] none]
    by (auto simp: bread_def kop_defs bget_def cached_def lock_buf_free virtio_disk_rw_def set_buf_twice
        loaded_def intro!: set_buf_cong)
  with n r show ?thesis by blast
qed

section \<open>Preservation of the invariant\<close>

lemma bcache_wf_set_buf:
  assumes "bcache_wf dev s" "i < NBUF"
    "\<And>j b. j < NBUF \<Longrightarrow> j \<noteq> i \<Longrightarrow> holds dev b (f (bufs s i)) \<Longrightarrow> \<not> holds dev b (bufs s j)"
  shows "bcache_wf dev (set_buf i f s)"
  unfolding bcache_wf_def set_buf_sel
proof (intro conjI allI impI)
  show "distinct (lru s)" "set (lru s) = {..<NBUF}" using bcache_wfD(1,2) [OF assms(1)] by simp_all
  fix j k
  let ?g = "(bufs s)(i := f (bufs s i))"
  assume jk: "j < NBUF" "k < NBUF" and eq: "bdev (?g j) = dev \<and> bdev (?g k) = dev \<and> blockno (?g j) = blockno (?g k)"
  then have "holds dev (blockno (?g k)) (?g j)" "holds dev (blockno (?g k)) (?g k)" by (simp_all add: holds_def)
  then show "j = k"
    using jk assms(3) bcache_wfD(3) [OF assms(1) jk] by (cases "j = i"; cases "k = i") auto
qed

text \<open>A change of one buffer by the process that holds it before or after the change.\<close>

lemma bstate_set_buf:
  assumes st: "bstate dev H P s" and i: "i < NBUF"
    and uniq: "\<And>j b. j < NBUF \<Longrightarrow> j \<noteq> i \<Longrightarrow> holds dev b (f (bufs s i)) \<Longrightarrow> \<not> holds dev b (bufs s j)"
    and sub: "H' - {i} = H - {i}" "H' \<subseteq> {..<NBUF}"
    and ok: "buf_ok dev H' P (curpid s) (disk s) i (f (bufs s i))"
    and pin: "\<And>b. b \<in> P \<Longrightarrow> holds dev b (bufs s i) \<Longrightarrow> holds dev b (f (bufs s i)) \<and> valid (f (bufs s i))"
  shows "bstate dev H' P (set_buf i f s)"
proof -
  have "buf_ok dev H' P (curpid s) (disk s) j (((bufs s)(i := f (bufs s i))) j)" if "j < NBUF" for j
  proof (cases "j = i")
    case False
    then have "j \<in> H' \<longleftrightarrow> j \<in> H" using sub(1) by blast
    then show ?thesis using bstateD(4) [OF st that] False by (simp add: buf_ok_def)
  qed (use ok in simp)
  moreover have "\<exists>j < NBUF. holds dev b (((bufs s)(i := f (bufs s i))) j) \<and> valid (((bufs s)(i := f (bufs s i))) j)"
    if b: "b \<in> P" for b
  proof -
    obtain j where j: "j < NBUF" "holds dev b (bufs s j)" "valid (bufs s j)" using bstateD(5) [OF st b] by blast
    then show ?thesis using pin [OF b] by (intro exI [of _ j]) auto
  qed
  ultimately show ?thesis
    using bcache_wf_set_buf [where f = f, OF bstateD(1) [OF st] i uniq] sub(2) bstateD(3) [OF st] by (simp add: bstate_def)
qed

lemma loaded_sel [simp]:
  "valid (loaded dev b s i)" "bdata (loaded dev b s i) = content s dev b" "blockno (loaded dev b s i) = b"
  "bdev (loaded dev b s i) = dev" "holds dev c (loaded dev b s i) \<longleftrightarrow> c = b"
  "block_lock (loaded dev b s i) = \<lparr>slocked = True, spid = curpid s\<rparr>"
  "refcnt (loaded dev b s i) = refcnt (bufs s i) + 1"
  by (auto simp: loaded_def holds_def)

text \<open>The buffer found for a block, or a free one when the block is not cached.\<close>

definition slot_for :: "u32 \<Rightarrow> u32 \<Rightarrow> 'a bio_scheme \<Rightarrow> nat \<Rightarrow> bool" where
  "slot_for dev b s i \<longleftrightarrow> i < NBUF \<and>
     (holds dev b (bufs s i) \<or> refcnt (bufs s i) = 0 \<and> (\<forall>j < NBUF. \<not> holds dev b (bufs s j)))"

lemma slot_for_other:
  assumes "bstate dev H P s" "slot_for dev b s i" "j < NBUF" "j \<noteq> i"
  shows "\<not> holds dev b (bufs s j)"
  using one_buffer [OF assms(1)] assms(2-) by (auto simp: slot_for_def)

text \<open>What a free slot loses is not pinned and agrees with the disk.\<close>

lemma slot_for_victim:
  assumes "bstate dev H P s" "slot_for dev b s i" "i \<notin> H" "holds dev c (bufs s i)" "c \<noteq> b"
  shows "c \<notin> P" "valid (bufs s i) \<Longrightarrow> bdata (bufs s i) = disk s c"
proof -
  have i: "i < NBUF" "refcnt (bufs s i) = 0" using assms(2,4,5) by (auto simp: slot_for_def holds_def)
  note ok = bstateD(4) [OF assms(1) i(1)]
  show "c \<notin> P" using ok i(2) assms(3,4) by (auto simp: buf_ok_def holds_def)
  then show "valid (bufs s i) \<Longrightarrow> bdata (bufs s i) = disk s c" using ok assms(3,4) by (auto simp: buf_ok_def holds_def)
qed

lemma load_bstate:
  assumes st: "bstate dev H P s" and sl: "slot_for dev b s i" and H: "i \<notin> H"
  shows "bstate dev (insert i H) P (load dev b i s)"
proof (rule bstate_set_buf [OF st])
  show i: "i < NBUF" using sl by (simp add: slot_for_def)
  show "\<not> holds dev c (bufs s j)" if "j < NBUF" "j \<noteq> i" "holds dev c (loaded dev b s i)" for j c
    using slot_for_other [OF st sl] that by simp
  show "insert i H - {i} = H - {i}" "insert i H \<subseteq> {..<NBUF}" using bstateD(2) [OF st] i by auto
  show "holds dev c (loaded dev b s i) \<and> valid (loaded dev b s i)" if "c \<in> P" "holds dev c (bufs s i)" for c
    using slot_for_victim(1) [OF st sl H that(2)] that(1) by auto
  have "refcnt (bufs s i) = (if b \<in> P then 1 else 0)"
  proof (cases "holds dev b (bufs s i)")
    case True
    then show ?thesis using bstateD(4) [OF st i] H by (simp add: buf_ok_def holds_def)
  next
    case False
    then have "b \<notin> P" "refcnt (bufs s i) = 0" using sl bstateD(5) [OF st, of b] by (auto simp: slot_for_def)
    then show ?thesis by simp
  qed
  then show "buf_ok dev (insert i H) P (curpid s) (disk s) i (loaded dev b s i)" by (simp add: buf_ok_def)
qed

lemma load_content:
  assumes st: "bstate dev H P s" and sl: "slot_for dev b s i" and H: "i \<notin> H"
  shows "content (load dev b i s) dev = content s dev"
proof
  fix c
  note wf = bstateD(1) [OF st] and wf' = bstateD(1) [OF load_bstate [OF assms]]
  have i: "i < NBUF" using sl by (simp add: slot_for_def)
  show "content (load dev b i s) dev c = content s dev c"
  proof (cases "c = b")
    case True
    then show ?thesis using content_cached [OF wf' i, of b] by simp
  next
    case False
    show ?thesis
    proof (rule content_cong [OF wf wf'])
      show "disk (load dev b i s) c = disk s c" by simp
    next
      fix j assume j: "j < NBUF" "holds dev c (bufs s j)" "valid (bufs s j)" "bdata (bufs s j) \<noteq> disk s c"
      then have "j \<noteq> i" using slot_for_victim(2) [OF st sl H _ False] by blast
      then show "holds dev c (bufs (load dev b i s) j) \<and> valid (bufs (load dev b i s) j) \<and>
          bdata (bufs (load dev b i s) j) = bdata (bufs s j)" using j by simp
    next
      fix j assume j: "j < NBUF" "holds dev c (bufs (load dev b i s) j)" "valid (bufs (load dev b i s) j)"
      then have "j \<noteq> i" using False by auto
      then show "holds dev c (bufs s j) \<and> valid (bufs s j) \<and> bdata (bufs s j) = bdata (bufs (load dev b i s) j)"
        using j by simp
    qed
  qed
qed

lemma bread_spec:
  assumes st: "bstate dev H P s" and nh: "\<forall>i \<in> H. blockno (bufs s i) \<noteq> b"
    and room: "b \<in> P \<or> card H + card P < NBUF"
  shows "\<exists>i. bread dev b s = Ret (i, load dev b i s) \<and> slot_for dev b s i \<and> i \<notin> H"
proof (cases "\<exists>i < NBUF. holds dev b (bufs s i)")
  case True
  then obtain i where i: "i < NBUF" "holds dev b (bufs s i)" by blast
  then have "i \<notin> H" using nh by (auto simp: holds_def)
  then show ?thesis using bread_cached [OF st i] i by (auto simp: slot_for_def)
next
  case False
  then have "b \<notin> P" using bstateD(5) [OF st] by blast
  then obtain i where i: "i < NBUF" "refcnt (bufs s i) = 0" "bread dev b s = Ret (i, load dev b i s)"
    using bread_uncached [OF st _] room False by blast
  then have "i \<notin> H" using bstateD(4) [OF st i(1)] by (auto simp: buf_ok_def split: if_splits)
  then show ?thesis using i False by (auto simp: slot_for_def)
qed

section \<open>Changing, writing and releasing a held buffer\<close>

lemma held_buf:
  assumes "bstate dev H P s" "i \<in> H"
  shows "i < NBUF" "bdev (bufs s i) = dev" "valid (bufs s i)" "block_lock (bufs s i) = \<lparr>slocked = True, spid = curpid s\<rparr>"
    "content s dev (blockno (bufs s i)) = bdata (bufs s i)"
    "refcnt (bufs s i) = 1 + (if blockno (bufs s i) \<in> P then 1 else 0)"
proof -
  show i: "i < NBUF" using bstateD(2) [OF assms(1)] assms(2) by blast
  note ok = bstateD(4) [OF assms(1) i]
  show d: "bdev (bufs s i) = dev" "valid (bufs s i)" "refcnt (bufs s i) = 1 + (if blockno (bufs s i) \<in> P then 1 else 0)"
    using ok assms(2) by (auto simp: buf_ok_def)
  show "block_lock (bufs s i) = \<lparr>slocked = True, spid = curpid s\<rparr>"
    using ok assms(2) by (cases "block_lock (bufs s i)") (simp add: buf_ok_def)
  show "content s dev (blockno (bufs s i)) = bdata (bufs s i)"
    using content_cached [OF bstateD(1) [OF assms(1)] i] d by (simp add: holds_def)
qed

lemma held_other:
  assumes "bstate dev H P s" "i \<in> H" "j < NBUF" "j \<noteq> i"
  shows "\<not> holds dev (blockno (bufs s i)) (bufs s j)"
  using one_buffer [OF assms(1)] held_buf(1,2) [OF assms(1,2)] assms(3,4) by (auto simp: holds_def)

lemma set_data_spec:
  assumes st: "bstate dev H P s" and i: "i \<in> H"
  shows "bstate dev H P (set_data i d s)" "content (set_data i d s) dev = (content s dev)(blockno (bufs s i) := d)"
proof -
  note hb = held_buf [OF st i]
  show st': "bstate dev H P (set_data i d s)"
    unfolding set_data_def
  proof (rule bstate_set_buf [OF st hb(1)])
    show "\<not> holds dev b (bufs s j)" if "j < NBUF" "j \<noteq> i" "holds dev b ((bufs s i)\<lparr>bdata := d\<rparr>)" for j b
      using held_other [OF st i that(1,2)] that(3) by (auto simp: holds_def)
    show "buf_ok dev H P (curpid s) (disk s) i ((bufs s i)\<lparr>bdata := d\<rparr>)"
      using bstateD(4) [OF st hb(1)] i by (simp add: buf_ok_def)
  qed (use bstateD(2) [OF st] hb(3) in \<open>auto simp: holds_def\<close>)
  note wf = bstateD(1) [OF st] and wf' = bstateD(1) [OF st']
  show "content (set_data i d s) dev = (content s dev)(blockno (bufs s i) := d)"
  proof
    fix b
    show "content (set_data i d s) dev b = ((content s dev)(blockno (bufs s i) := d)) b"
    proof (cases "b = blockno (bufs s i)")
      case True
      then show ?thesis
        using content_cached [OF wf' hb(1), of b] hb(2,3) by (simp add: set_data_def holds_def)
    next
      case False
      then have "content (set_data i d s) dev b = content s dev b"
        by (intro content_cong [OF wf wf']) (auto simp: set_data_def holds_def split: if_splits)
      with False show ?thesis by simp
    qed
  qed
qed

abbreviation disk_write :: "u32 \<Rightarrow> u8 list \<Rightarrow> 'a bio_scheme \<Rightarrow> 'a bio_scheme" where
  "disk_write b d s \<equiv> s\<lparr>disk := (disk s)(b := d), disk_writes := disk_writes s @ [(b, d)]\<rparr>"

lemma bwrite_spec:
  assumes st: "bstate dev H P s" and i: "i \<in> H"
  defines "s1 \<equiv> disk_write (blockno (bufs s i)) (bdata (bufs s i)) s"
  shows "bwrite i s = Ret ((), s1)" "bstate dev H P s1" "content s1 dev = content s dev"
proof -
  note hb = held_buf [OF st i]
  show "bwrite i s = Ret ((), s1)"
    using hb(4) by (simp add: bwrite_def holdingsleep_def virtio_disk_rw_def Let_def s1_def)
  have ok: "buf_ok dev H P (curpid s) (disk s1) j (bufs s j)" if "j < NBUF" for j
    using bstateD(4) [OF st that] held_other [OF st i that] i
    by (cases "j = i") (auto simp: buf_ok_def s1_def holds_def)
  have wf: "bcache_wf dev s1" 
    by (rule bcache_wf_lru [OF bstateD(1) [OF st]]) (use bcache_wfD(1,2) [OF bstateD(1) [OF st]] in \<open>simp_all add: s1_def\<close>)
  show "bstate dev H P s1" using st ok wf by (simp add: bstate_def s1_def)
  show "content s1 dev = content s dev"
  proof
    fix b
    have c: "cached s1 dev b = cached s dev b" by (simp add: cached_def s1_def)
    show "content s1 dev b = content s dev b"
    proof (cases "b = blockno (bufs s i)")
      case True
      then show ?thesis using content_cached [OF wf hb(1), of b] hb by (simp add: s1_def holds_def)
    next
      case False
      then show ?thesis using c by (simp add: content_def s1_def split: option.split)
    qed
  qed
qed

text \<open>The effect of \<open>brelse\<close>.\<close>

definition let_go :: "nat \<Rightarrow> 'a bio_scheme \<Rightarrow> 'a bio_scheme" where
  "let_go i s =
     (let s1 = (set_buf i (\<lambda>x. x\<lparr>block_lock := releasesleep (block_lock x), refcnt := refcnt x - 1\<rparr>) s)
                 \<lparr>woken := woken s @ [ChanBuf i]\<rparr>
      in if refcnt (bufs s1 i) = 0 then s1\<lparr>lru := i # remove1 i (lru s1)\<rparr> else s1)"

lemma let_go_sel [simp]:
  "bufs (let_go i s) = (bufs s)(i := (bufs s i)\<lparr>block_lock := releasesleep (block_lock (bufs s i)), refcnt := refcnt (bufs s i) - 1\<rparr>)"
  "disk (let_go i s) = disk s" "disk_writes (let_go i s) = disk_writes s" "curpid (let_go i s) = curpid s"
  by (simp_all add: let_go_def Let_def)

lemma let_go_bstate:
  assumes st: "bstate dev H P s" and i: "i \<in> H"
    and clean: "blockno (bufs s i) \<in> P \<or> bdata (bufs s i) = disk s (blockno (bufs s i))"
  shows "bstate dev (H - {i}) P (let_go i s)"
proof -
  note hb = held_buf [OF st i]
  let ?f = "\<lambda>x. x\<lparr>block_lock := releasesleep (block_lock x), refcnt := refcnt x - 1\<rparr>"
  have b: "bstate dev (H - {i}) P (set_buf i ?f s)"
  proof (rule bstate_set_buf [OF st hb(1)])
    show "\<not> holds dev b (bufs s j)" if "j < NBUF" "j \<noteq> i" "holds dev b (?f (bufs s i))" for j b
      using held_other [OF st i that(1,2)] that(3) by (auto simp: holds_def)
    show "buf_ok dev (H - {i}) P (curpid s) (disk s) i (?f (bufs s i))"
      using hb clean by (auto simp: buf_ok_def releasesleep_def)
  qed (use bstateD(2) [OF st] hb(3) in \<open>auto simp: holds_def\<close>)
  have "set (lru (let_go i s)) = {..<NBUF}" "distinct (lru (let_go i s))"
    using bcache_wfD(1,2) [OF bstateD(1) [OF st]] hb(1) by (auto simp: let_go_def Let_def set_remove1_eq)
  then have "bcache_wf dev (let_go i s)" by (intro bcache_wf_lru [OF bstateD(1) [OF b]]) simp_all
  then show ?thesis using b by (simp add: bstate_def)
qed

lemma brelse_spec:
  assumes st: "bstate dev H P s" and i: "i \<in> H"
    and clean: "blockno (bufs s i) \<in> P \<or> bdata (bufs s i) = disk s (blockno (bufs s i))"
  shows "brelse i s = Ret ((), let_go i s)" "content (let_go i s) dev = content s dev"
proof -
  note hb = held_buf [OF st i]
  show "brelse i s = Ret ((), let_go i s)"
    using hb(4) by (simp add: brelse_def holdingsleep_def let_go_def Let_def set_buf_def)
  show "content (let_go i s) dev = content s dev"
    by (rule ext, rule content_cong [OF bstateD(1) [OF st] bstateD(1) [OF let_go_bstate [OF assms]]])
      (auto simp: holds_def split: if_splits)
qed

lemma bunpin_spec:
  assumes st: "bstate dev H P s" and i: "i \<in> H" and p: "blockno (bufs s i) \<in> P"
  shows "bstate dev H (P - {blockno (bufs s i)}) (bunpin i s)" "content (bunpin i s) dev = content s dev"
proof -
  note hb = held_buf [OF st i]
  let ?f = "\<lambda>x. x\<lparr>refcnt := refcnt x - 1\<rparr>"
  have wf: "bcache_wf dev (bunpin i s)"
    unfolding bunpin_def
    by (rule bcache_wf_set_buf [OF bstateD(1) [OF st] hb(1)]) (use held_other [OF st i] in \<open>auto simp: holds_def\<close>)
  have ok: "buf_ok dev H (P - {blockno (bufs s i)}) (curpid s) (disk s) j (bufs (bunpin i s) j)" if "j < NBUF" for j
  proof (cases "j = i")
    case True
    then show ?thesis using bstateD(4) [OF st that] i p by (auto simp: buf_ok_def bunpin_def)
  next
    case False
    then show ?thesis using bstateD(4) [OF st that] held_other [OF st i that False]
      by (auto simp: buf_ok_def bunpin_def holds_def)
  qed
  have "\<exists>j < NBUF. holds dev b (bufs (bunpin i s) j) \<and> valid (bufs (bunpin i s) j)" if "b \<in> P" for b
  proof -
    obtain j where "j < NBUF" "holds dev b (bufs s j)" "valid (bufs s j)" using bstateD(5) [OF st \<open>b \<in> P\<close>] by blast
    then show ?thesis by (intro exI [of _ j]) (auto simp: bunpin_def holds_def)
  qed
  then show "bstate dev H (P - {blockno (bufs s i)}) (bunpin i s)"
    using wf ok bstateD(2,3) [OF st] by (simp add: bstate_def) (simp add: bunpin_def)
  show "content (bunpin i s) dev = content s dev"
    by (rule ext, rule content_cong [OF bstateD(1) [OF st] wf]) (auto simp: bunpin_def holds_def split: if_splits)
qed

section \<open>The interface the log relies on\<close>

text \<open>
  A cache of \<open>cap\<close> buffers in front of a store. \<open>inv H P\<close>: the caller holds the buffers \<open>H\<close>, the
  keys \<open>P\<close> are pinned. \<open>val\<close> is what readers see, \<open>stable\<close> what the store has, \<open>hist\<close> the
  writes the store received, \<open>rest\<close> the client's own state.
\<close>

locale block_cache =
  fixes inv :: "nat set \<Rightarrow> 'k set \<Rightarrow> 's \<Rightarrow> bool"
    and val :: "'s \<Rightarrow> 'k \<Rightarrow> 'd" and stable :: "'s \<Rightarrow> 'k \<Rightarrow> 'd" and hist :: "'s \<Rightarrow> ('k \<times> 'd) list"
    and at :: "'s \<Rightarrow> nat \<Rightarrow> 'k" and dat :: "'s \<Rightarrow> nat \<Rightarrow> 'd" and rest :: "'s \<Rightarrow> 'r"
    and rd :: "'k \<Rightarrow> ('s, nat) kop" and chg :: "nat \<Rightarrow> 'd \<Rightarrow> 's \<Rightarrow> 's"
    and wr :: "nat \<Rightarrow> ('s, unit) kop" and rel :: "nat \<Rightarrow> ('s, unit) kop" and unpin :: "nat \<Rightarrow> 's \<Rightarrow> 's" and cap :: nat
  assumes dat_val: "inv H P s \<Longrightarrow> i \<in> H \<Longrightarrow> dat s i = val s (at s i)"
    and rd_law: "inv H P s \<Longrightarrow> \<forall>i \<in> H. at s i \<noteq> k \<Longrightarrow> k \<in> P \<or> card H + card P < cap \<Longrightarrow>
      \<exists>i s1. rd k s = Ret (i, s1) \<and> i \<notin> H \<and> inv (insert i H) P s1 \<and> at s1 = (at s)(i := k) \<and>
        (val s1, stable s1, hist s1, rest s1) = (val s, stable s, hist s, rest s)"
    and chg_law: "inv H P s \<Longrightarrow> i \<in> H \<Longrightarrow> inv H P (chg i d s) \<and> at (chg i d s) = at s \<and>
      (val (chg i d s), stable (chg i d s), hist (chg i d s), rest (chg i d s)) =
        ((val s)(at s i := d), stable s, hist s, rest s)"
    and wr_law: "inv H P s \<Longrightarrow> i \<in> H \<Longrightarrow> \<exists>s1. wr i s = Ret ((), s1) \<and> inv H P s1 \<and> at s1 = at s \<and>
      (val s1, stable s1, hist s1, rest s1) =
        (val s, (stable s)(at s i := val s (at s i)), hist s @ [(at s i, val s (at s i))], rest s)"
    and rel_law: "inv H P s \<Longrightarrow> i \<in> H \<Longrightarrow> at s i \<in> P \<or> val s (at s i) = stable s (at s i) \<Longrightarrow>
      \<exists>s1. rel i s = Ret ((), s1) \<and> inv (H - {i}) P s1 \<and> at s1 = at s \<and>
        (val s1, stable s1, hist s1, rest s1) = (val s, stable s, hist s, rest s)"
    and unpin_law: "inv H P s \<Longrightarrow> i \<in> H \<Longrightarrow> at s i \<in> P \<Longrightarrow> inv H (P - {at s i}) (unpin i s) \<and> at (unpin i s) = at s \<and>
      (val (unpin i s), stable (unpin i s), hist (unpin i s), rest (unpin i s)) = (val s, stable s, hist s, rest s)"
begin

text \<open>The result of storing \<open>d\<close> under \<open>k\<close> from a state in which nothing is held.\<close>

definition stored :: "'k set \<Rightarrow> 'k \<Rightarrow> 'd \<Rightarrow> 's \<Rightarrow> 's \<Rightarrow> bool" where
  "stored P k d s s' \<longleftrightarrow> inv {} P s' \<and> val s' = (val s)(k := d) \<and> stable s' = (stable s)(k := d) \<and>
     hist s' = hist s @ [(k, d)] \<and> rest s' = rest s"

lemma read_release:
  assumes "inv {} P s" "k \<in> P \<or> card P < cap" "k \<in> P \<or> val s k = stable s k"
  shows "\<exists>i s1 s2. rd k s = Ret (i, s1) \<and> dat s1 i = val s k \<and> rest s1 = rest s \<and> rel i s1 = Ret ((), s2) \<and> inv {} P s2 \<and>
    (val s2, stable s2, hist s2, rest s2) = (val s, stable s, hist s, rest s)"
proof -
  obtain i s1 where r: "rd k s = Ret (i, s1)" "inv {i} P s1" "at s1 = (at s)(i := k)"
    "(val s1, stable s1, hist s1, rest s1) = (val s, stable s, hist s, rest s)"
    using rd_law [OF assms(1), of k] assms(2) by auto
  then obtain s2 where "rel i s1 = Ret ((), s2)" "inv ({i} - {i}) P s2"
    "(val s2, stable s2, hist s2, rest s2) = (val s1, stable s1, hist s1, rest s1)"
    using rel_law [OF r(2), of i] assms(3) by auto
  then show ?thesis using r dat_val [OF r(2), of i] by auto
qed

lemma update_block:
  assumes "inv {} P s" "k \<in> P \<or> card P < cap"
  shows "\<exists>i s1 s'. rd k s = Ret (i, s1) \<and> dat s1 i = val s k \<and> rest s1 = rest s \<and>
    kthen (wr i) (\<lambda>_. rel i) (chg i d s1) = Ret ((), s') \<and> stored P k d s s'"
proof -
  obtain i s1 where r: "rd k s = Ret (i, s1)" "inv {i} P s1" "at s1 = (at s)(i := k)"
    "(val s1, stable s1, hist s1, rest s1) = (val s, stable s, hist s, rest s)"
    using rd_law [OF assms(1), of k] assms(2) by auto
  note c = chg_law [OF r(2), of i d]
  obtain s2 where w: "wr i (chg i d s1) = Ret ((), s2)" "inv {i} P s2" "at s2 = at s1"
    "(val s2, stable s2, hist s2, rest s2) = ((val s)(k := d), (stable s)(k := d), hist s @ [(k, d)], rest s)"
    using wr_law [of "{i}" P "chg i d s1" i] c r by auto
  obtain s3 where "rel i s2 = Ret ((), s3)" "inv ({i} - {i}) P s3"
    "(val s3, stable s3, hist s3, rest s3) = (val s2, stable s2, hist s2, rest s2)"
    using rel_law [OF w(2), of i] w(3,4) r(3) by auto
  then show ?thesis using r(1,3,4) w dat_val [OF r(2), of i] by (auto simp: kop_defs stored_def)
qed

lemma copy_back:
  assumes inv: "inv {} P s" and ne: "a \<noteq> b" and a: "a \<notin> P" and b: "b \<in> P" and room: "card P < cap"
  shows "\<exists>s'. kthen (rd a) (\<lambda>i. kthen (rd b) (\<lambda>j s1.
      kthen (wr i) (\<lambda>_. kthen (rel j) (\<lambda>_. rel i)) (chg i (dat s1 j) s1))) s = Ret ((), s') \<and> stored P a (val s b) s s'"
proof -
  obtain i s1 where r: "rd a s = Ret (i, s1)" "inv {i} P s1" "at s1 = (at s)(i := a)"
    "(val s1, stable s1, hist s1, rest s1) = (val s, stable s, hist s, rest s)"
    using rd_law [OF inv, of a] room by auto
  obtain j s2 where q: "rd b s1 = Ret (j, s2)" "j \<noteq> i" "inv {j, i} P s2" "at s2 = (at s1)(j := b)"
    "(val s2, stable s2, hist s2, rest s2) = (val s, stable s, hist s, rest s)"
    using rd_law [OF r(2), of b] r(3,4) ne b by auto
  have at: "at s2 i = a" "at s2 j = b" "dat s2 j = val s b"
    using r(3) q(2,4,5) dat_val [OF q(3), of j] by auto
  note c = chg_law [OF q(3), of i "val s b"]
  obtain s3 where w: "wr i (chg i (val s b) s2) = Ret ((), s3)" "inv {j, i} P s3" "at s3 = at s2"
    "(val s3, stable s3, hist s3, rest s3) = ((val s)(a := val s b), (stable s)(a := val s b), hist s @ [(a, val s b)], rest s)"
    using wr_law [of "{j, i}" P "chg i (val s b) s2" i] c q(5) at by auto
  obtain s4 where e: "rel j s3 = Ret ((), s4)" "inv ({j, i} - {j}) P s4" "at s4 = at s3"
    "(val s4, stable s4, hist s4, rest s4) = (val s3, stable s3, hist s3, rest s3)"
    using rel_law [OF w(2), of j] w(3) at b by auto
  obtain s5 where f: "rel i s4 = Ret ((), s5)" "inv ({j, i} - {j} - {i}) P s5"
    "(val s5, stable s5, hist s5, rest s5) = (val s4, stable s4, hist s4, rest s4)"
    using rel_law [OF e(2), of i] q(2) e(3,4) w(3,4) at by auto
  have "{j, i} - {j} - {i} = {}" by blast
  note g = f(2) [unfolded this]
  show ?thesis
    by (rule exI [of _ s5]) (use w(4) e(4) f(3) g in \<open>simp add: kop_defs stored_def r(1) q(1) at(3) w(1) e(1) f(1)\<close>)
qed

text \<open>The same from the first block to the second, which is unpinned when \<open>u\<close>.\<close>

lemma copy_home:
  assumes inv: "inv {} P s" and ne: "a \<noteq> b" and a: "a \<notin> P" "val s a = stable s a"
    and b: "u = (b \<in> P)" and room: "b \<in> P \<and> card P < cap \<or> Suc (card P) < cap"
  shows "\<exists>s'. kthen (rd a) (\<lambda>i. kthen (rd b) (\<lambda>j s1.
      kthen (wr j) (\<lambda>_ s2. kthen (rel i) (\<lambda>_. rel j) (if u then unpin j s2 else s2)) (chg j (dat s1 i) s1))) s = Ret ((), s') \<and>
    stored (P - {b}) b (val s a) s s'"
proof -
  obtain i s1 where r: "rd a s = Ret (i, s1)" "inv {i} P s1" "at s1 = (at s)(i := a)"
    "(val s1, stable s1, hist s1, rest s1) = (val s, stable s, hist s, rest s)"
    using rd_law [OF inv, of a] room by auto
  obtain j s2 where q: "rd b s1 = Ret (j, s2)" "j \<noteq> i" "inv {j, i} P s2" "at s2 = (at s1)(j := b)"
    "(val s2, stable s2, hist s2, rest s2) = (val s, stable s, hist s, rest s)"
    using rd_law [OF r(2), of b] r(3,4) ne room by auto
  have at: "at s2 i = a" "at s2 j = b" "dat s2 i = val s a"
    using r(3) q(2,4,5) dat_val [OF q(3), of i] by auto
  note c = chg_law [OF q(3), of j "val s a"]
  let ?v = "((val s)(b := val s a), (stable s)(b := val s a), hist s @ [(b, val s a)], rest s)"
  obtain s3 where w: "wr j (chg j (val s a) s2) = Ret ((), s3)" "inv {j, i} P s3" "at s3 = at s2"
    "(val s3, stable s3, hist s3, rest s3) = ?v"
    using wr_law [of "{j, i}" P "chg j (val s a) s2" j] c q(5) at by auto
  define s4 where "s4 = (if u then unpin j s3 else s3)"
  have s4: "inv {j, i} (P - {b}) s4" "at s4 = at s2" "(val s4, stable s4, hist s4, rest s4) = ?v"
    using unpin_law [OF w(2), of j] w at b by (auto simp: s4_def)
  obtain s5 where e: "rel i s4 = Ret ((), s5)" "inv ({j, i} - {i}) (P - {b}) s5" "at s5 = at s2"
    "(val s5, stable s5, hist s5, rest s5) = ?v"
    using rel_law [OF s4(1), of i] s4 at a(2) ne by auto
  obtain s6 where f: "rel j s5 = Ret ((), s6)" "inv ({j, i} - {i} - {j}) (P - {b}) s6" "(val s6, stable s6, hist s6, rest s6) = ?v"
    using rel_law [OF e(2), of j] q(2) e(3,4) at by auto
  have "{j, i} - {i} - {j} = {}" by blast
  note g = f(2) [unfolded this]
  show ?thesis
    by (rule exI [of _ s6])
      (use f(3) g in \<open>simp add: kop_defs stored_def r(1) q(1) at(3) w(1) s4_def [symmetric] e(1) f(1)\<close>)
qed

end

lemma log_frame [simp]:
  "log (set_buf i f s) = log s" "log (let_go i s) = log s" "log (set_data i d s) = log s" "log (bunpin i s) = log s"
  for s :: "'a logged_scheme"
  by (simp_all add: set_buf_def let_go_def set_data_def bunpin_def Let_def)

interpretation bc: block_cache "bstate dev" "\<lambda>s. content s dev" disk disk_writes
    "\<lambda>s i. blockno (bufs s i)" "\<lambda>s i. bdata (bufs s i)" "log :: 'a logged_scheme \<Rightarrow> logst"
    "bread dev" set_data bwrite brelse bunpin NBUF
  for dev
proof unfold_locales
  fix H P and s :: "'a logged_scheme" and i :: nat and d :: "u8 list"
  assume st: "bstate dev H P s" and i: "i \<in> H"
  show "bdata (bufs s i) = content s dev (blockno (bufs s i))" using held_buf(5) [OF st i] by simp
  show "bstate dev H P (set_data i d s) \<and> (\<lambda>j. blockno (bufs (set_data i d s) j)) = (\<lambda>j. blockno (bufs s j)) \<and>
      (content (set_data i d s) dev, disk (set_data i d s), disk_writes (set_data i d s), log (set_data i d s)) =
      ((content s dev)(blockno (bufs s i) := d), disk s, disk_writes s, log s)"
    using set_data_spec [OF st i] by (simp add: set_data_def fun_eq_iff)
  show "\<exists>s1. bwrite i s = Ret ((), s1) \<and> bstate dev H P s1 \<and> (\<lambda>j. blockno (bufs s1 j)) = (\<lambda>j. blockno (bufs s j)) \<and>
      (content s1 dev, disk s1, disk_writes s1, log s1) =
      (content s dev, (disk s)(blockno (bufs s i) := content s dev (blockno (bufs s i))),
       disk_writes s @ [(blockno (bufs s i), content s dev (blockno (bufs s i)))], log s)"
    using bwrite_spec [OF st i] held_buf(5) [OF st i] by simp
  show "\<exists>s1. brelse i s = Ret ((), s1) \<and> bstate dev (H - {i}) P s1 \<and> (\<lambda>j. blockno (bufs s1 j)) = (\<lambda>j. blockno (bufs s j)) \<and>
      (content s1 dev, disk s1, disk_writes s1, log s1) = (content s dev, disk s, disk_writes s, log s)"
    if "blockno (bufs s i) \<in> P \<or> content s dev (blockno (bufs s i)) = disk s (blockno (bufs s i))"
    using brelse_spec [OF st i] let_go_bstate [OF st i] held_buf(5) [OF st i] that by (auto simp: fun_eq_iff)
  show "bstate dev H (P - {blockno (bufs s i)}) (bunpin i s) \<and> (\<lambda>j. blockno (bufs (bunpin i s) j)) = (\<lambda>j. blockno (bufs s j)) \<and>
      (content (bunpin i s) dev, disk (bunpin i s), disk_writes (bunpin i s), log (bunpin i s)) =
      (content s dev, disk s, disk_writes s, log s)"
    if "blockno (bufs s i) \<in> P"
    using bunpin_spec [OF st i that] by (auto simp: bunpin_def fun_eq_iff)
next
  fix H P and s :: "'a logged_scheme" and b
  assume "bstate dev H P s" "\<forall>i \<in> H. blockno (bufs s i) \<noteq> b" "b \<in> P \<or> card H + card P < NBUF"
  from bread_spec [OF this] obtain i where
    i: "bread dev b s = Ret (i, load dev b i s)" "slot_for dev b s i" "i \<notin> H" by blast
  show "\<exists>i s1. bread dev b s = Ret (i, s1) \<and> i \<notin> H \<and> bstate dev (insert i H) P s1 \<and>
      (\<lambda>j. blockno (bufs s1 j)) = (\<lambda>j. blockno (bufs s j))(i := b) \<and>
      (content s1 dev, disk s1, disk_writes s1, log s1) = (content s dev, disk s, disk_writes s, log s)"
    using i load_bstate [OF \<open>bstate dev H P s\<close> i(2,3)] load_content [OF \<open>bstate dev H P s\<close> i(2,3)]
    by (intro exI [of _ i] exI [of _ "load dev b i s"]) (auto simp: fun_eq_iff)
qed

end
