(* ===== verification/Crash.thy ===== *)
theory Crash
  imports Blocks
begin

text \<open>
  The log makes transactions atomic. A crash loses everything but the disk, as some prefix of the
  block writes has left it; recovery from any such disk gives either the state before the
  transaction or the state after it, with the write of the header as the point of commitment.
\<close>

section \<open>Disks\<close>

type_synonym blocks = "u32 \<Rightarrow> u8 list"

definition apply_writes :: "(u32 \<times> u8 list) list \<Rightarrow> blocks \<Rightarrow> blocks" where
  "apply_writes ws D = fold (\<lambda>(b, d) D. D(b := d)) ws D"

lemma apply_writes_simps [simp]:
  "apply_writes [] D = D" "apply_writes ((b, d) # ws) D = apply_writes ws (D(b := d))"
  "apply_writes (ws @ vs) D = apply_writes vs (apply_writes ws D)"
  by (simp_all add: apply_writes_def)

lemma apply_writes_other: "b \<notin> fst ` set ws \<Longrightarrow> apply_writes ws D b = D b"
  by (induction ws arbitrary: D) (auto simp: apply_writes_def)

lemma apply_writes_cong: "(b \<notin> fst ` set ws \<Longrightarrow> D b = E b) \<Longrightarrow> apply_writes ws D b = apply_writes ws E b"
proof (induction ws arbitrary: D E)
  case (Cons w ws)
  show ?case
    using Cons.IH [of "D(fst w := snd w)" "E(fst w := snd w)"] Cons.prems
    by (cases w) (auto simp: fun_upd_def)
qed simp

text \<open>Repeating a prefix of the writes before them changes nothing.\<close>

lemma apply_writes_take: "apply_writes ws (apply_writes (take k ws) D) = apply_writes ws D"
proof
  fix b
  show "apply_writes ws (apply_writes (take k ws) D) b = apply_writes ws D b"
  proof (rule apply_writes_cong)
    assume "b \<notin> fst ` set ws"
    then have "b \<notin> fst ` set (take k ws)" using set_take_subset [of k ws] by blast
    then show "apply_writes (take k ws) D b = D b" by (rule apply_writes_other)
  qed
qed

lemma apply_writes_distinct:
  assumes "distinct (map fst ws)" "(b, d) \<in> set ws"
  shows "apply_writes ws D b = d"
  using assms
proof (induction ws arbitrary: D)
  case (Cons w ws)
  then show ?case by (cases w) (auto simp: apply_writes_other image_iff)
qed simp

section \<open>The header block\<close>

definition head_n :: "u8 list \<Rightarrow> nat" where
  "head_n d = nat (sint (get32 d 0))"

definition head_block :: "u8 list \<Rightarrow> nat \<Rightarrow> u32" where
  "head_block d i = get32 d (4 + 4 * i)"

definition head_bytes :: "nat \<Rightarrow> (nat \<Rightarrow> u32) \<Rightarrow> u8 list \<Rightarrow> u8 list" where
  "head_bytes n f d = put_blocks f [0..<n] (put32 d 0 (of_nat n))"

lemma put_blocks_length [simp]: "length (put_blocks f is d) = length d"
  by (induction "is" arbitrary: d) auto

lemma put_blocks_snoc: "put_blocks f (xs @ [x]) d = put32 (put_blocks f xs d) (4 + 4 * x) (f x)"
  by (induction xs arbitrary: d) auto

lemma put_blocks_get:
  "4 + 4 * n \<le> length d \<Longrightarrow>
   get32 (put_blocks f [0..<n] d) 0 = get32 d 0 \<and> (\<forall>i < n. get32 (put_blocks f [0..<n] d) (4 + 4 * i) = f i)"
proof (induction n)
  case (Suc n)
  have "get32 (put32 (put_blocks f [0..<n] d) (4 + 4 * n) (f n)) 0 = get32 (put_blocks f [0..<n] d) 0"
    by (rule get32_put32_other) arith
  with Suc show ?case by (auto simp: put_blocks_snoc less_Suc_eq mem_simps)
qed simp

lemma head_of_bytes:
  assumes "4 + 4 * n \<le> length d" "n < 2 ^ 31"
  shows "head_n (head_bytes n f d) = n" "\<And>i. i < n \<Longrightarrow> head_block (head_bytes n f d) i = f i"
proof -
  have "sint (of_nat n :: u32) = int n" using assms(2) by (simp add: signed_of_nat signed_take_bit_int_eq_self)
  then show "head_n (head_bytes n f d) = n"
    using put_blocks_get [of n "put32 d 0 (of_nat n)" f] assms(1)
    by (simp add: head_n_def head_bytes_def get32_put32)
  show "head_block (head_bytes n f d) i = f i" if "i < n" for i
    using put_blocks_get [of n "put32 d 0 (of_nat n)" f] assms(1) that by (simp add: head_block_def head_bytes_def)
qed

section \<open>Replaying the log\<close>

definition log_slot :: "u32 \<Rightarrow> nat \<Rightarrow> u32" where
  "log_slot start t = start + of_nat t + 1"

definition log_area :: "u32 \<Rightarrow> u32 set" where
  "log_area start = insert start (log_slot start ` {..<LOGSIZE})"

definition installs :: "u32 \<Rightarrow> blocks \<Rightarrow> (u32 \<times> u8 list) list" where
  "installs start D = map (\<lambda>t. (head_block (D start) t, D (log_slot start t))) [0..<head_n (D start)]"

definition replay :: "u32 \<Rightarrow> blocks \<Rightarrow> blocks" where
  "replay start D = apply_writes (installs start D) D"

text \<open>A header recovery can trust: it fits the log and names blocks outside of it.\<close>

definition head_ok :: "u32 \<Rightarrow> u8 list \<Rightarrow> bool" where
  "head_ok start d \<longleftrightarrow> 0 \<le> sint (get32 d 0) \<and> head_n d \<le> LOGSIZE \<and> (\<forall>i < head_n d. head_block d i \<notin> log_area start) \<and> length d = BSIZE"

lemma log_slot_area [simp]: "t < LOGSIZE \<Longrightarrow> log_slot start t \<in> log_area start" "start \<in> log_area start"
  by (auto simp: log_area_def)

lemma log_slot_inj:
  assumes "log_slot start t = log_slot start u" "t < LOGSIZE" "u < LOGSIZE"
  shows "t = u"
proof -
  have "(of_nat t :: u32) = of_nat u" using assms(1) by (simp add: log_slot_def)
  then show ?thesis using assms(2,3) by (simp add: LOGSIZE_def word_of_nat_eq_iff take_bit_eq_mod)
qed

lemma log_slot_start: "t < LOGSIZE \<Longrightarrow> log_slot start t \<noteq> start"
proof
  assume t: "t < LOGSIZE" and "log_slot start t = start"
  then have "of_nat (t + 1) = (0 :: u32)" by (simp add: log_slot_def add.commute)
  then have "2 ^ 32 dvd t + 1" by (simp only: word_of_nat_eq_0_iff) simp
  then show False using t by (auto simp: LOGSIZE_def dest: dvd_imp_le)
qed

text \<open>Writes outside the log leave what recovery will do unchanged.\<close>

lemma installs_frame:
  assumes "head_ok start (D start)" "fst ` set ws \<inter> log_area start = {}"
  shows "installs start (apply_writes ws D) = installs start D"
proof -
  have "apply_writes ws D b = D b" if "b \<in> log_area start" for b
    using assms(2) that by (intro apply_writes_other) blast
  then show ?thesis using assms(1) by (auto simp: installs_def head_ok_def)
qed

lemma installs_home:
  "head_ok start (D start) \<Longrightarrow> fst ` set (installs start D) \<inter> log_area start = {}"
  by (auto simp: installs_def head_ok_def)

text \<open>A crash during installation: replaying again completes it.\<close>

lemma replay_partial:
  assumes "head_ok start (D start)"
  shows "replay start (apply_writes (take k (installs start D)) D) = replay start D"
proof -
  have "fst ` set (take k (installs start D)) \<inter> log_area start = {}"
    using installs_home [of start D] assms set_take_subset [of k "installs start D"] by blast
  then show ?thesis using installs_frame [where D = D, OF assms] by (simp add: replay_def apply_writes_take)
qed

lemma replay_empty: "head_n (D start) = 0 \<Longrightarrow> replay start D = D"
  by (simp add: replay_def installs_def)

section \<open>The operations of the log on the disk\<close>

definition the_log :: "u32 \<Rightarrow> u32 \<Rightarrow> 'a logged_scheme \<Rightarrow> bool" where
  "the_log dev start s \<longleftrightarrow> log_dev (log s) = dev \<and> log_start (log s) = start"

lemma bstate_set_log [simp]:
  "bstate dev H P (set_log f s) = bstate dev H P s" "content (set_log f s) = content s"
  "bufs (set_log f s) = bufs s" "lru (set_log f s) = lru s" "curpid (set_log f s) = curpid s"
  "disk (set_log f s) = disk s" "disk_writes (set_log f s) = disk_writes s" "log (set_log f s) = f (log s)"
  by (simp_all add: bstate_def bcache_wf_def set_log_def content_def cached_def fun_eq_iff split: option.split)

lemma write_head_spec:
  assumes st: "bstate dev {} P s" and l: "the_log dev start s" and n: "lh_n (lh (log s)) = int n"
    and room: "card P < NBUF"
  shows "\<exists>s'. write_head s = Ret ((), s') \<and>
    bc.stored dev P start (head_bytes n (lh_block (lh (log s))) (content s dev start)) s s'"
proof -
  let ?d = "head_bytes n (lh_block (lh (log s))) (content s dev start)"
  obtain i s1 s' where u: "bread dev start s = Ret (i, s1)" "bdata (bufs s1 i) = content s dev start" "log s1 = log s"
    "kthen (bwrite i) (\<lambda>_. brelse i) (set_data i ?d s1) = Ret ((), s')" "bc.stored dev P start ?d s s'"
    using bc.update_block [OF st, of start ?d] room by blast
  have "log_entries s1 = [0..<n]" "int n = lh_n (lh (log s1))" using u(3) n by (simp_all add: log_entries_def)
  then have "write_head s = kthen (bwrite i) (\<lambda>_. brelse i) (set_data i ?d s1)"
    using l u(1-3) n by (simp add: write_head_def kthen_def [of "bread dev start"] the_log_def head_bytes_def Let_def)
  with u show ?thesis by auto
qed

text \<open>A loop that stores a block in each iteration.\<close>

definition wrote_all :: "u32 \<Rightarrow> u32 set \<Rightarrow> (u32 \<times> u8 list) list \<Rightarrow> 'a logged_scheme \<Rightarrow> 'a logged_scheme \<Rightarrow> bool" where
  "wrote_all dev P ws s s' \<longleftrightarrow> bstate dev {} P s' \<and> content s' dev = apply_writes ws (content s dev) \<and>
     disk s' = apply_writes ws (disk s) \<and> disk_writes s' = disk_writes s @ ws \<and> log s' = log s"

lemma wrote_all_snoc:
  "wrote_all dev P ws s s1 \<Longrightarrow> bc.stored dev P' b d s1 s' \<Longrightarrow> wrote_all dev P' (ws @ [(b, d)]) s s'"
  by (simp add: wrote_all_def bc.stored_def)

lemma write_loop:
  assumes "bstate dev {} (P 0) s"
    and step: "\<And>t s1. t < n \<Longrightarrow> wrote_all dev (P t) (map w [0..<t]) s s1 \<Longrightarrow>
      \<exists>s2. body t s1 = Ret ((), s2) \<and> bc.stored dev (P (Suc t)) (fst (w t)) (snd (w t)) s1 s2"
  shows "\<exists>s'. kfor [0..<n] body s = Ret ((), s') \<and> wrote_all dev (P n) (map w [0..<n]) s s'"
  using step
proof (induction n)
  case 0
  then show ?case using assms(1) by (auto simp: wrote_all_def kret_def)
next
  case (Suc n)
  then obtain s1 where s1: "kfor [0..<n] body s = Ret ((), s1)" "wrote_all dev (P n) (map w [0..<n]) s s1" by auto
  obtain s2 where "body n s1 = Ret ((), s2)" "bc.stored dev (P (Suc n)) (fst (w n)) (snd (w n)) s1 s2"
    using Suc.prems [OF _ s1(2)] by auto
  then show ?case
    using s1 wrote_all_snoc [OF s1(2), of "P (Suc n)" "fst (w n)" "snd (w n)" s2] by (simp add: kfor_snoc kthen_def)
qed

text \<open>
  The header in memory names \<open>n\<close> blocks outside the log.
\<close>

definition txn :: "u32 \<Rightarrow> u32 \<Rightarrow> nat \<Rightarrow> (nat \<Rightarrow> u32) \<Rightarrow> 'a logged_scheme \<Rightarrow> bool" where
  "txn dev start n blk s \<longleftrightarrow> the_log dev start s \<and> lh (log s) = \<lparr>lh_n = int n, lh_block = blk\<rparr> \<and>
     n \<le> LOGSIZE \<and> blk ` {..<n} \<inter> log_area start = {}"

lemma txn_log: "txn dev start n blk s \<Longrightarrow> log s' = log s \<Longrightarrow> txn dev start n blk s'"
  by (simp add: txn_def the_log_def)

lemma txnD:
  assumes "txn dev start n blk s"
  shows "log_dev (log s) = dev" "log_start (log s) = start" "lh_n (lh (log s)) = int n" "lh_block (lh (log s)) = blk"
    "n \<le> LOGSIZE" "log_entries s = [0..<n]" "t < n \<Longrightarrow> blk t \<notin> log_area start" "the_log dev start s"
  using assms by (auto simp: txn_def the_log_def log_entries_def)

lemma txn_slot: "txn dev start n blk s \<Longrightarrow> t < n \<Longrightarrow> u < n \<Longrightarrow> blk t \<noteq> log_slot start u"
  using txnD(5,7) [of dev start n blk s] log_slot_area(1) [of u start] by fastforce

lemma txn_home: "txn dev start n blk s \<Longrightarrow> b \<in> log_area start \<Longrightarrow> b \<notin> blk ` {..<n}"
  by (auto simp: txn_def)

definition log_copies :: "u32 \<Rightarrow> u32 \<Rightarrow> (nat \<Rightarrow> u32) \<Rightarrow> 'a logged_scheme \<Rightarrow> nat \<Rightarrow> u32 \<times> u8 list" where
  "log_copies dev start blk s t = (log_slot start t, content s dev (blk t))"

lemma write_log_spec:
  assumes st: "bstate dev {} P s" and tx: "txn dev start n blk s" and P: "P = blk ` {..<n}" and n: "n < NBUF"
  shows "\<exists>s'. write_log s = Ret ((), s') \<and> wrote_all dev P (map (log_copies dev start blk s) [0..<n]) s s'"
  unfolding write_log_def txnD(6) [OF tx]
proof (rule write_loop [where P = "\<lambda>_. P", OF st])
  fix t s1
  assume t: "t < n" and w: "wrote_all dev P (map (log_copies dev start blk s) [0..<t]) s s1"
  have tx1: "txn dev start n blk s1" by (rule txn_log [OF tx]) (use w in \<open>simp add: wrote_all_def\<close>)
  have st1: "bstate dev {} P s1" using w by (simp add: wrote_all_def)
  have "blk t \<noteq> fst (log_copies dev start blk s u)" if "u < t" for u
    using txn_slot [OF tx t, of u] that t by (simp add: log_copies_def)
  then have "blk t \<notin> fst ` set (map (log_copies dev start blk s) [0..<t])" by (auto simp: image_iff)
  then have c: "content s1 dev (blk t) = content s dev (blk t)"
    using w by (simp add: wrote_all_def apply_writes_other)
  have sl: "log_slot start t \<in> log_area start" using t txnD(5) [OF tx] by simp
  have ne: "log_slot start t \<noteq> blk t" "log_slot start t \<notin> P" "blk t \<in> P"
    using sl txnD(7) [OF tx] t P by auto
  have "card P < NBUF" using card_image_le [of "{..<n}" blk] n P by simp
  from bc.copy_back [OF st1 ne this]
  show "\<exists>s2. log_one t s1 = Ret ((), s2) \<and>
      bc.stored dev P (fst (log_copies dev start blk s t)) (snd (log_copies dev start blk s t)) s1 s2"
    using txnD(1-4) [OF tx1] c by (simp add: log_one_def log_copies_def log_slot_def Let_def)
qed

definition log_installs :: "u32 \<Rightarrow> u32 \<Rightarrow> (nat \<Rightarrow> u32) \<Rightarrow> 'a logged_scheme \<Rightarrow> nat \<Rightarrow> u32 \<times> u8 list" where
  "log_installs dev start blk s t = (blk t, content s dev (log_slot start t))"

text \<open>The blocks still pinned after \<open>t\<close> steps of \<open>install_trans\<close>.\<close>

definition pinned_at :: "bool \<Rightarrow> (nat \<Rightarrow> u32) \<Rightarrow> nat \<Rightarrow> nat \<Rightarrow> u32 set" where
  "pinned_at recovering blk n t = (if recovering then {} else blk ` {t..<n})"

lemma pinned_at_step:
  assumes "recovering \<or> inj_on blk {..<n}" "t < n"
  shows "pinned_at recovering blk n t - {blk t} = pinned_at recovering blk n (Suc t)"
    "blk t \<in> pinned_at recovering blk n t \<longleftrightarrow> \<not> recovering"
proof -
  have "{t..<n} = insert t {Suc t..<n}" using assms(2) by auto
  moreover have "recovering \<or> blk t \<notin> blk ` {Suc t..<n}" using assms by (auto dest: inj_onD)
  ultimately show "pinned_at recovering blk n t - {blk t} = pinned_at recovering blk n (Suc t)"
    by (cases recovering) (simp_all add: pinned_at_def)
  show "blk t \<in> pinned_at recovering blk n t \<longleftrightarrow> \<not> recovering" using assms(2) by (auto simp: pinned_at_def)
qed

lemma install_trans_spec:
  assumes st: "bstate dev {} (pinned_at r blk n 0) s" and tx: "txn dev start n blk s" and n: "r \<or> inj_on blk {..<n} \<and> n < NBUF"
  shows "\<exists>s'. install_trans r s = Ret ((), s') \<and>
    wrote_all dev (pinned_at r blk n n) (map (log_installs dev start blk s) [0..<n]) s s'"
  unfolding install_trans_def txnD(6) [OF tx]
proof (rule write_loop [where P = "pinned_at r blk n", OF st])
  fix t s1
  let ?P = "pinned_at r blk n t"
  assume t: "t < n" and w: "wrote_all dev ?P (map (log_installs dev start blk s) [0..<t]) s s1"
  have tx1: "txn dev start n blk s1" by (rule txn_log [OF tx]) (use w in \<open>simp add: wrote_all_def\<close>)
  have st1: "bstate dev {} ?P s1" using w by (simp add: wrote_all_def)
  have sl: "log_slot start t \<in> log_area start" using t txnD(5) [OF tx] by simp
  then have "log_slot start t \<notin> fst ` set (map (log_installs dev start blk s) [0..<t])"
    using txnD(7) [OF tx] t by (auto simp: log_installs_def)
  then have c: "content s1 dev (log_slot start t) = content s dev (log_slot start t)"
    using w by (simp add: wrote_all_def apply_writes_other)
  have ne: "log_slot start t \<noteq> blk t" "log_slot start t \<notin> ?P"
    using sl txnD(7) [OF tx] t by (auto simp: pinned_at_def split: if_splits)
  have clean: "content s1 dev (log_slot start t) = disk s1 (log_slot start t)"
    using content_disk [OF st1 ne(2)] by simp
  have "card ?P \<le> n" using card_image_le [of "{t..<n}" blk] by (auto simp: pinned_at_def)
  then have room: "blk t \<in> ?P \<and> card ?P < NBUF \<or> Suc (card ?P) < NBUF"
    using n t by (cases r) (auto simp: pinned_at_def NBUF_def)
  have pin: "\<not> r \<longleftrightarrow> blk t \<in> ?P" "?P - {blk t} = pinned_at r blk n (Suc t)"
    using pinned_at_step [of r blk n t] n t by auto
  from bc.copy_home [OF st1 ne clean pin(1) room]
  show "\<exists>s2. install_one r t s1 = Ret ((), s2) \<and>
      bc.stored dev (pinned_at r blk n (Suc t)) (fst (log_installs dev start blk s t)) (snd (log_installs dev start blk s t)) s1 s2"
    using txnD(1-4) [OF tx1] c pin(2) by (simp add: install_one_def log_installs_def log_slot_def Let_def split del: if_split)
      (cases r, simp_all)
qed

lemma content_outside:
  "bstate dev {} P s \<Longrightarrow> b \<notin> P \<Longrightarrow> content s dev b = disk s b"
  by (rule content_disk) auto

definition head_for :: "nat \<Rightarrow> (nat \<Rightarrow> u32) \<Rightarrow> u8 list \<Rightarrow> bool" where
  "head_for n blk h \<longleftrightarrow> sint (get32 h 0) = int n \<and> (\<forall>i < n. head_block h i = blk i) \<and> length h = BSIZE"

lemma head_bytes_for:
  assumes "length d = BSIZE" "n \<le> LOGSIZE"
  shows "head_for n blk (head_bytes n blk d)"
proof -
  have n: "4 + 4 * n \<le> length d" "n < 2 ^ 31" using assms by (simp_all add: BSIZE_def LOGSIZE_def)
  have "sint (of_nat n :: u32) = int n" using n(2) by (simp add: signed_of_nat signed_take_bit_int_eq_self)
  then have "sint (get32 (head_bytes n blk d) 0) = int n"
    using put_blocks_get [of n "put32 d 0 (of_nat n)" blk] n(1) by (simp add: head_bytes_def get32_put32)
  then show ?thesis using head_of_bytes(2) [OF n] assms(1) by (simp add: head_for_def) (simp add: head_bytes_def)
qed

lemma head_for_n: "head_for n blk h \<Longrightarrow> head_n h = n"
  by (simp add: head_for_def head_n_def)

text \<open>Erasing the transaction, the end of both \<open>commit\<close> and \<open>recover_from_log\<close>.\<close>

lemma clear_head_spec:
  assumes st: "bstate dev {} {} s" and l: "the_log dev start s" and len: "length (disk s start) = BSIZE"
  shows "\<exists>s' h. kthen (kmod (set_lh (\<lambda>h. h\<lparr>lh_n := 0\<rparr>))) (\<lambda>_. write_head) s = Ret ((), s') \<and>
    bstate dev {} {} s' \<and> head_for 0 blk h \<and> disk s' = (disk s)(start := h) \<and> disk_writes s' = disk_writes s @ [(start, h)]"
proof -
  let ?s = "set_lh (\<lambda>h. h\<lparr>lh_n := 0\<rparr>) s" and ?h = "head_bytes 0 (lh_block (lh (log s))) (disk s start)"
  have c: "content s dev start = disk s start" using content_outside [OF st] by simp
  have "bstate dev {} {} ?s" "the_log dev start ?s" "lh_n (lh (log ?s)) = int 0"
    using st l by (simp_all add: set_lh_def the_log_def)
  from write_head_spec [OF this] obtain s' where "write_head ?s = Ret ((), s')" "bc.stored dev {} start ?h ?s s'"
    using c by (auto simp: set_lh_def NBUF_def)
  moreover have "head_for 0 blk ?h" using head_bytes_for [OF len, of 0] by (simp add: head_for_def)
  ultimately show ?thesis
    by (intro exI [of _ s'] exI [of _ ?h]) (simp add: kthen_def kmod_def bc.stored_def, simp add: set_lh_def)
qed

lemma commit_spec:
  assumes st: "bstate dev {} (blk ` {..<n}) s" and tx: "txn dev start n blk s"
    and n: "0 < n" "n < NBUF" "inj_on blk {..<n}" and len: "length (disk s start) = BSIZE"
  shows "\<exists>s' h1 h0. commit s = Ret ((), s') \<and> bstate dev {} {} s' \<and> head_for n blk h1 \<and> head_for 0 blk h0 \<and>
    disk_writes s' = disk_writes s @ map (log_copies dev start blk s) [0..<n] @ [(start, h1)] @
      map (\<lambda>t. (blk t, content s dev (blk t))) [0..<n] @ [(start, h0)]"
proof -
  let ?P = "blk ` {..<n}" and ?W = "map (log_copies dev start blk s) [0..<n]"
  obtain s1 where s1: "write_log s = Ret ((), s1)" "wrote_all dev ?P ?W s s1"
    using write_log_spec [OF st tx refl n(2)] by blast
  have tx1: "txn dev start n blk s1" by (rule txn_log [OF tx]) (use s1 in \<open>simp add: wrote_all_def\<close>)
  have sl: "start \<noteq> log_slot start t" if "t < n" for t using log_slot_start [of t start] that txnD(5) [OF tx] by simp
  have "start \<notin> fst ` set ?W" using sl by (auto simp: log_copies_def image_iff)
  moreover have "content s dev start = disk s start" using content_outside [OF st txn_home [OF tx]] by simp
  ultimately have c1: "content s1 dev start = disk s start" using s1(2) by (simp add: wrote_all_def apply_writes_other)
  let ?h1 = "head_bytes n blk (disk s start)"
  have card: "card ?P < NBUF" using card_image_le [of "{..<n}" blk] n(2) by simp
  obtain s2 where s2: "write_head s1 = Ret ((), s2)" "bc.stored dev ?P start ?h1 s1 s2"
    using write_head_spec [OF _ txnD(8) [OF tx1] txnD(3) [OF tx1] card] s1(2) c1 txnD(4) [OF tx1]
    by (auto simp: wrote_all_def)
  have tx2: "txn dev start n blk s2" by (rule txn_log [OF tx1]) (use s2 in \<open>simp add: bc.stored_def\<close>)
  have "distinct (map fst ?W)"
    using log_slot_inj txnD(5) [OF tx] by (auto simp: log_copies_def comp_def distinct_map inj_on_def)
  then have c2: "content s2 dev (log_slot start t) = content s dev (blk t)" if "t < n" for t
    using s1(2) s2(2) sl [OF that] apply_writes_distinct [of ?W "log_slot start t" "content s dev (blk t)"] that
    by (auto simp: wrote_all_def bc.stored_def log_copies_def)
  have "pinned_at False blk n 0 = ?P" by (simp add: pinned_at_def atLeast0LessThan)
  then obtain s3 where s3: "install_trans False s2 = Ret ((), s3)"
    "wrote_all dev {} (map (log_installs dev start blk s2) [0..<n]) s2 s3"
    using install_trans_spec [of dev False blk n s2, OF _ tx2] s2(2) n by (auto simp: bc.stored_def pinned_at_def)
  have W2: "map (log_installs dev start blk s2) [0..<n] = map (\<lambda>t. (blk t, content s dev (blk t))) [0..<n]"
    using c2 by (simp add: log_installs_def)
  have "start \<notin> fst ` set (map (log_installs dev start blk s2) [0..<n])"
    using txn_home [OF tx log_slot_area(2)] by (auto simp: log_installs_def)
  then have "length (disk s3 start) = BSIZE"
    using s3(2) s2(2) len by (simp add: wrote_all_def bc.stored_def apply_writes_other head_bytes_def)
  moreover have "the_log dev start s3" using txnD(8) [OF tx2] s3(2) by (simp add: wrote_all_def the_log_def)
  ultimately obtain s' h0 where s': "kthen (kmod (set_lh (\<lambda>h. h\<lparr>lh_n := 0\<rparr>))) (\<lambda>_. write_head) s3 = Ret ((), s')"
    "bstate dev {} {} s'" "head_for 0 blk h0" "disk_writes s' = disk_writes s3 @ [(start, h0)]"
    using clear_head_spec [where s = s3 and start = start and blk = blk] s3(2) unfolding wrote_all_def by blast
  have "commit s = Ret ((), s')"
    using txnD(3) [OF tx] n(1) s1(1) s2(1) s3(1) s'(1) by (simp add: commit_def kthen_def)
  moreover have "head_for n blk ?h1" using head_bytes_for [OF len] txnD(5) [OF tx] by blast
  ultimately show ?thesis using s' s1(2) s2(2) s3(2) W2 by (auto simp: wrote_all_def bc.stored_def)
qed

section \<open>Recovery\<close>

lemma brelse_set_log: "brelse i s = Ret ((), s2) \<Longrightarrow> brelse i (set_log f s) = Ret ((), set_log f s2)"
  by (cases s) (auto simp: brelse_def set_log_def set_buf_def Let_def split: if_splits)

lemma read_head_spec:
  assumes st: "bstate dev {} {} r" and l: "the_log dev start r"
  defines "d \<equiv> disk r start"
  shows "\<exists>r1. read_head r = Ret ((), r1) \<and> bstate dev {} {} r1 \<and> disk r1 = disk r \<and> disk_writes r1 = disk_writes r \<and>
    the_log dev start r1 \<and> lh_n (lh (log r1)) = sint (get32 d 0) \<and> (\<forall>i < head_n d. lh_block (lh (log r1)) i = head_block d i)"
proof -
  have c: "content r dev start = d" using content_outside [OF st] by (simp add: d_def)
  obtain i s1 s2 where s: "bread dev start r = Ret (i, s1)" "bdata (bufs s1 i) = d" "log s1 = log r"
    "brelse i s1 = Ret ((), s2)" "bstate dev {} {} s2"
    "(content s2 dev, disk s2, disk_writes s2, log s2) = (content r dev, disk r, disk_writes r, log r)"
    using bc.read_release [OF st, of start] c by (auto simp: NBUF_def d_def)
  let ?f = "\<lambda>h. h\<lparr>lh_n := sint (get32 d 0), lh_block := (\<lambda>i. if int i < sint (get32 d 0) then get32 d (4 + 4 * i) else lh_block h i)\<rparr>"
  have "brelse i (set_lh ?f s1) = Ret ((), set_lh ?f s2)"
    using brelse_set_log [OF s(4)] by (simp add: set_lh_def)
  then have "read_head r = Ret ((), set_lh ?f s2)"
    using s(1,2) l by (simp add: read_head_def kthen_def the_log_def Let_def cong: if_cong)
  then show ?thesis
    using s(5,6) l by (intro exI [of _ "set_lh ?f s2"]) (auto simp: set_lh_def the_log_def head_n_def head_block_def)
qed

lemma recover_spec:
  assumes st: "bstate dev {} {} r" and l: "the_log dev start r" and ok: "head_ok start (disk r start)"
  shows "\<exists>r' h. recover_from_log r = Ret ((), r') \<and> bstate dev {} {} r' \<and> head_for 0 blk h \<and>
    disk r' = (replay start (disk r))(start := h) \<and> disk_writes r' = disk_writes r @ installs start (disk r) @ [(start, h)]"
proof -
  let ?d = "disk r start" and ?n = "head_n (disk r start)"
  obtain r1 where r1: "read_head r = Ret ((), r1)" "bstate dev {} {} r1" "disk r1 = disk r" "disk_writes r1 = disk_writes r"
    "the_log dev start r1" "lh_n (lh (log r1)) = int ?n" "\<forall>i < ?n. lh_block (lh (log r1)) i = head_block ?d i"
    using read_head_spec [OF st l] ok by (auto simp: head_ok_def head_n_def)
  let ?blk = "lh_block (lh (log r1))"
  have tx: "txn dev start ?n ?blk r1"
    using r1(5-7) ok by (auto simp: txn_def head_ok_def intro: loghdr.equality)
  obtain r2 where r2: "install_trans True r1 = Ret ((), r2)" "wrote_all dev {} (map (log_installs dev start ?blk r1) [0..<?n]) r1 r2"
    using install_trans_spec [of dev True ?blk ?n r1, OF _ tx] r1(2) by (auto simp: pinned_at_def)
  have W: "map (log_installs dev start ?blk r1) [0..<?n] = installs start (disk r)"
    using r1(3,7) content_outside [OF r1(2)] by (simp add: log_installs_def installs_def)
  have "start \<notin> fst ` set (installs start (disk r))"
    using installs_home [of start "disk r"] ok log_slot_area(2) by blast
  then have "length (disk r2 start) = BSIZE"
    using r2(2) W r1(3) ok by (simp add: wrote_all_def apply_writes_other head_ok_def)
  moreover have "the_log dev start r2" "bstate dev {} {} r2" using r1(5) r2(2) by (simp_all add: wrote_all_def the_log_def)
  ultimately obtain r' h where r': "kthen (kmod (set_lh (\<lambda>h. h\<lparr>lh_n := 0\<rparr>))) (\<lambda>_. write_head) r2 = Ret ((), r')"
    "bstate dev {} {} r'" "head_for 0 blk h" "disk r' = (disk r2)(start := h)" "disk_writes r' = disk_writes r2 @ [(start, h)]"
    using clear_head_spec [where s = r2 and start = start and blk = blk] by blast
  have "recover_from_log r = Ret ((), r')"
    using r1(1) r2(1) r'(1) by (simp add: recover_from_log_def kthen_def)
  then show ?thesis using r' r2(2) W r1(3,4) by (auto simp: wrote_all_def replay_def)
qed

section \<open>Atomicity\<close>

text \<open>The kernel after a reboot from the disk \<open>D\<close>: an empty cache, and the log as the super block places it.\<close>

definition rebooted :: "u32 \<Rightarrow> u32 \<Rightarrow> blocks \<Rightarrow> 'a logged_scheme \<Rightarrow> bool" where
  "rebooted dev start D r \<longleftrightarrow> bstate dev {} {} r \<and> the_log dev start r \<and> disk r = D"

lemma recover_rebooted:
  assumes "rebooted dev start D r" "head_ok start (D start)"
  shows "\<exists>r'. recover_from_log r = Ret ((), r') \<and> (\<forall>b. b \<notin> log_area start \<longrightarrow> disk r' b = replay start D b)"
proof -
  have r: "bstate dev {} {} r" "the_log dev start r" "disk r = D" "head_ok start (disk r start)"
    using assms by (simp_all add: rebooted_def)
  obtain r' h where r': "recover_from_log r = Ret ((), r')" "disk r' = (replay start D)(start := h)"
    using recover_spec [OF r(1,2,4)] r(3) by blast
  moreover have "disk r' b = replay start D b" if "b \<notin> log_area start" for b
    using r'(2) that log_slot_area(2) [of start] by auto
  ultimately show ?thesis by blast
qed

lemma apply_home:
  "fst ` set ws \<subseteq> log_area start \<Longrightarrow> b \<notin> log_area start \<Longrightarrow> apply_writes ws D b = D b"
  by (rule apply_writes_other) blast

lemma take_writes_area:
  "fst ` set ws \<subseteq> A \<Longrightarrow> fst ` set (take k ws) \<subseteq> A"
  using set_take_subset by fastforce

text \<open>The two groups of block writes of a commit, and the disk at its point of commitment.\<close>

definition to_log :: "u32 \<Rightarrow> (nat \<Rightarrow> u32) \<Rightarrow> blocks \<Rightarrow> nat \<Rightarrow> (u32 \<times> u8 list) list" where
  "to_log start blk v n = map (\<lambda>t. (log_slot start t, v (blk t))) [0..<n]"

definition to_home :: "(nat \<Rightarrow> u32) \<Rightarrow> blocks \<Rightarrow> nat \<Rightarrow> (u32 \<times> u8 list) list" where
  "to_home blk v n = map (\<lambda>t. (blk t, v (blk t))) [0..<n]"

definition at_commit :: "u32 \<Rightarrow> (nat \<Rightarrow> u32) \<Rightarrow> blocks \<Rightarrow> nat \<Rightarrow> u8 list \<Rightarrow> blocks \<Rightarrow> blocks" where
  "at_commit start blk v n h D = (apply_writes (to_log start blk v n) D)(start := h)"

definition home_blocks :: "u32 \<Rightarrow> nat \<Rightarrow> (nat \<Rightarrow> u32) \<Rightarrow> bool" where
  "home_blocks start n blk \<longleftrightarrow> n \<le> LOGSIZE \<and> inj_on blk {..<n} \<and> blk ` {..<n} \<inter> log_area start = {}"

lemma to_log_area:
  assumes "n \<le> LOGSIZE"
  shows "fst ` set (to_log start blk v n) \<subseteq> log_area start - {start}" "distinct (map fst (to_log start blk v n))"
  using assms log_slot_start log_slot_inj
  by (auto simp: to_log_def comp_def distinct_map inj_on_def)

lemma to_home_area:
  assumes "home_blocks start n blk"
  shows "fst ` set (to_home blk v n) \<inter> log_area start = {}" "distinct (map fst (to_home blk v n))"
  using assms by (simp_all add: to_home_def home_blocks_def comp_def distinct_map image_image atLeast0LessThan)

lemma head_for_ok: "head_for n blk h \<Longrightarrow> home_blocks start n blk \<Longrightarrow> head_ok start h"
  by (auto simp: head_ok_def head_for_def head_n_def home_blocks_def)

lemma installs_at_commit:
  assumes "home_blocks start n blk" "head_for n blk h"
  shows "installs start (at_commit start blk v n h D) = to_home blk v n"
proof -
  have n: "n \<le> LOGSIZE" using assms(1) by (simp add: home_blocks_def)
  have "at_commit start blk v n h D (log_slot start t) = v (blk t)" if "t < n" for t
    using apply_writes_distinct [OF to_log_area(2) [OF n], of "log_slot start t" "v (blk t)"] log_slot_start [of t start] that n
    by (auto simp: at_commit_def to_log_def)
  then show ?thesis
    using assms(2) by (auto simp: installs_def to_home_def head_for_def head_n_def) (auto simp: at_commit_def)
qed

lemma replay_at_commit:
  assumes "home_blocks start n blk" "head_for n blk h" "b \<notin> log_area start"
  shows "replay start (at_commit start blk v n h D) b = (if b \<in> blk ` {..<n} then v b else D b)"
proof (cases "b \<in> blk ` {..<n}")
  case True
  then show ?thesis
    using apply_writes_distinct [OF to_home_area(2) [OF assms(1)], of b "v b"] installs_at_commit [OF assms(1,2)]
    by (auto simp: replay_def to_home_def)
next
  case False
  then have "b \<notin> fst ` set (to_home blk v n)" by (auto simp: to_home_def)
  moreover have "fst ` set (to_log start blk v n) \<subseteq> log_area start"
    using to_log_area(1) [of n start blk v] assms(1) by (auto simp: home_blocks_def)
  ultimately show ?thesis
    using False assms(3) apply_home [OF _ assms(3)] installs_at_commit [OF assms(1,2)]
    by (auto simp: replay_def apply_writes_other at_commit_def)
qed

text \<open>What recovery finds after \<open>k\<close> of the writes of a commit to a log that was empty.\<close>

lemma commit_prefix:
  fixes k :: nat and v :: blocks
  assumes hb: "home_blocks start n blk" and empty: "head_for 0 blk (D start)"
    and h1: "head_for n blk h1" and h0: "head_for 0 blk h0"
  defines "E \<equiv> apply_writes (take k (to_log start blk v n @ [(start, h1)] @ to_home blk v n @ [(start, h0)])) D"
  shows "head_ok start (E start) \<and>
    (\<forall>b. b \<notin> log_area start \<longrightarrow> replay start E b = (if k \<le> n \<or> b \<notin> blk ` {..<n} then D b else v b))"
proof -
  let ?A = "to_log start blk v n" and ?B = "to_home blk v n"
  let ?D = "at_commit start blk v n h1 D"
  have len: "length ?A = n" "length ?B = n" by (simp_all add: to_log_def to_home_def)
  note A = to_log_area(1) [of n start blk v]
  have n: "n \<le> LOGSIZE" using hb by (simp add: home_blocks_def)
  have hb0: "home_blocks start 0 blk" by (simp add: home_blocks_def)
  note inst = installs_at_commit [OF hb h1, of v D] and new = replay_at_commit [OF hb h1]
  have ok1: "head_ok start (?D start)" using head_for_ok [OF h1 hb] by (simp add: at_commit_def)
  consider (before) "k \<le> n" | (install) j where "k = Suc (n + j)" "j \<le> n" | (cleared) "k > Suc (n + n)"
    by atomize_elim presburger
  then show ?thesis
  proof cases
    case before
    then have E: "E = apply_writes (take k ?A) D" by (simp add: E_def len)
    have sub: "fst ` set (take k ?A) \<subseteq> log_area start - {start}" using take_writes_area [OF A [OF n]] .
    then have "E start = D start" unfolding E by (intro apply_writes_other) blast
    moreover from this have "replay start E = E" using replay_empty [of E start] head_for_n [OF empty] by simp
    moreover have "E b = D b" if "b \<notin> log_area start" for b
      unfolding E by (rule apply_home [OF _ that]) (use sub in blast)
    ultimately show ?thesis using head_for_ok [OF empty hb0] before by simp
  next
    case install
    then have E: "E = apply_writes (take j (installs start ?D)) ?D"
      unfolding inst by (simp add: E_def len at_commit_def)
    have "fst ` set (take j (installs start ?D)) \<subseteq> fst ` set ?B" by (rule take_writes_area) (simp add: inst)
    moreover have "start \<notin> fst ` set ?B" using to_home_area(1) [OF hb, of v] log_slot_area(2) [of start] by blast
    ultimately have "start \<notin> fst ` set (take j (installs start ?D))" by blast
    then have "E start = ?D start" unfolding E by (rule apply_writes_other)
    moreover have "replay start E = replay start ?D" unfolding E by (rule replay_partial [where D = ?D, OF ok1])
    ultimately show ?thesis using ok1 new install(1) by simp
  next
    case cleared
    then have E: "E = (replay start ?D)(start := h0)"
      unfolding replay_def inst by (simp add: E_def len at_commit_def)
    then have "replay start E = E" using replay_empty [of E start] head_for_n [OF h0] by simp
    moreover have "E start = h0" "\<And>b. b \<notin> log_area start \<Longrightarrow> E b = replay start ?D b"
      using E log_slot_area(2) by auto
    ultimately show ?thesis using head_for_ok [OF h0 hb0] new cleared by simp
  qed
qed

text \<open>
  C25. Commits are atomic. Let a transaction commit from a state in which nothing but its logged blocks is
  dirty, with an empty log on the disk. The commit returns, and after a crash at any of its block
  writes recovery returns and restores every block outside the log to its old contents, if the header had
  not been written, and to its new contents, if it had.
\<close>
theorem commit_atomic:
  fixes s :: "'a logged_scheme"
  assumes st: "bstate dev {} (blk ` {..<n}) s" and tx: "txn dev start n blk s" and inj: "inj_on blk {..<n}"
    and n: "0 < n" "n < NBUF" and empty: "head_for 0 blk (disk s start)"
  shows "\<exists>s' ws. commit s = Ret ((), s') \<and> bstate dev {} {} s' \<and> disk_writes s' = disk_writes s @ ws \<and> length ws = 2 * n + 2 \<and>
    (\<forall>k r. rebooted dev start (apply_writes (take k ws) (disk s)) (r :: 'a logged_scheme) \<longrightarrow>
      (\<exists>r'. recover_from_log r = Ret ((), r') \<and>
        (\<forall>b. b \<notin> log_area start \<longrightarrow> disk r' b = (if k \<le> n then disk s b else content s dev b))))"
proof -
  let ?v = "content s dev"
  obtain s' h1 h0 where s': "commit s = Ret ((), s')" "bstate dev {} {} s'" "head_for n blk h1" "head_for 0 blk h0"
    "disk_writes s' = disk_writes s @ to_log start blk ?v n @ [(start, h1)] @ to_home blk ?v n @ [(start, h0)]"
    using commit_spec [OF st tx n inj] empty by (auto simp: head_for_def to_log_def to_home_def log_copies_def [abs_def])
  let ?ws = "to_log start blk ?v n @ [(start, h1)] @ to_home blk ?v n @ [(start, h0)]"
  have hb: "home_blocks start n blk" using tx inj by (simp add: home_blocks_def txn_def)
  have rec: "\<exists>r'. recover_from_log r = Ret ((), r') \<and>
      (\<forall>b. b \<notin> log_area start \<longrightarrow> disk r' b = (if k \<le> n then disk s b else ?v b))"
    if r: "rebooted dev start (apply_writes (take k ?ws) (disk s)) r" for k and r :: "'a logged_scheme"
  proof -
    note pre = commit_prefix [where D = "disk s", OF hb empty s'(3,4), of k ?v]
    have "(if k \<le> n \<or> b \<notin> blk ` {..<n} then disk s b else ?v b) = (if k \<le> n then disk s b else ?v b)" for b
      using content_outside [OF st, of b] by auto
    then show ?thesis using recover_rebooted [OF r] pre by auto
  qed
  have "length ?ws = 2 * n + 2" by (simp add: to_log_def to_home_def)
  with s'(1,2,5) rec show ?thesis by blast
qed

text \<open>
  C26. Recovery can be interrupted. After a crash at any of its own block writes, recovering again
  returns and gives every block outside the log the contents that an uninterrupted recovery gives it.
\<close>
theorem recovery_restartable:
  fixes r :: "'a logged_scheme"
  assumes st: "rebooted dev start D r" and ok: "head_ok start (D start)"
  shows "\<exists>r' ws. recover_from_log r = Ret ((), r') \<and> disk_writes r' = disk_writes r @ ws \<and>
    disk r' = apply_writes ws D \<and> head_n (disk r' start) = 0 \<and>
    (\<forall>k q. rebooted dev start (apply_writes (take k ws) D) (q :: 'a logged_scheme) \<longrightarrow>
      (\<exists>q'. recover_from_log q = Ret ((), q') \<and> (\<forall>b. b \<notin> log_area start \<longrightarrow> disk q' b = disk r' b)))"
proof -
  have r: "bstate dev {} {} r" "the_log dev start r" "disk r = D" "head_ok start (disk r start)"
    using st ok by (simp_all add: rebooted_def)
  obtain r' h where r': "recover_from_log r = Ret ((), r')" "head_for 0 (\<lambda>_. 0) h" "disk r' = (replay start D)(start := h)"
    "disk_writes r' = disk_writes r @ installs start D @ [(start, h)]"
    using recover_spec [OF r(1,2,4)] r(3) by blast
  let ?W = "installs start D @ [(start, h)]"
  have again: "\<exists>q'. recover_from_log q = Ret ((), q') \<and> (\<forall>b. b \<notin> log_area start \<longrightarrow> disk q' b = disk r' b)"
    if q: "rebooted dev start (apply_writes (take k ?W) D) q" for k and q :: "'a logged_scheme"
  proof -
    let ?E = "apply_writes (take k ?W) D"
    have E: "head_ok start (?E start) \<and> (\<forall>b. b \<notin> log_area start \<longrightarrow> replay start ?E b = replay start D b)"
    proof (cases "k \<le> length (installs start D)")
      case True
      then have E: "?E = apply_writes (take k (installs start D)) D" by simp
      have "fst ` set (take k (installs start D)) \<subseteq> fst ` set (installs start D)" by (rule take_writes_area) simp
      moreover have "start \<notin> fst ` set (installs start D)"
        using installs_home [of start D, OF ok] log_slot_area(2) [of start] by blast
      ultimately have "?E start = D start" unfolding E by (intro apply_writes_other) blast
      then show ?thesis using ok replay_partial [where D = D, OF ok, of k] E by simp
    next
      case False
      then have E: "?E = (replay start D)(start := h)" by (simp add: replay_def)
      then have "replay start ?E = ?E" using replay_empty [of ?E start] head_for_n [OF r'(2)] by simp
      then show ?thesis
        using E head_for_ok [OF r'(2), of start] log_slot_area(2) [of start] by (auto simp: home_blocks_def)
    qed
    have "replay start D b = disk r' b" if "b \<notin> log_area start" for b
      using r'(3) that log_slot_area(2) [of start] by auto
    with recover_rebooted [OF q] E show ?thesis by auto
  qed
  have "disk r' = apply_writes ?W D" "head_n (disk r' start) = 0"
    using r'(3) head_for_n [OF r'(2)] by (simp_all add: replay_def)
  with r'(1,4) again show ?thesis by blast
qed

section \<open>An example\<close>

text \<open>One logged block, number 50, filled with sevens over a disk of zeros; the log starts at block 2.\<close>

definition blank_buf :: buf where
  "blank_buf = \<lparr>valid = False, bdev = 0, blockno = 0, block_lock = initsleeplock, refcnt = 0, bdata = replicate BSIZE 0\<rparr>"

definition booted :: "blocks \<Rightarrow> logged" where
  "booted D =
     \<lparr>hart = 0, cpus = (\<lambda>h. \<lparr>cproc = Some 1, noff = 0, intena = False\<rparr>), sie = (\<lambda>h. True), locks = (\<lambda>l. \<lparr>locked = False, lk_cpu = None\<rparr>),
      bufs = (\<lambda>i. blank_buf), lru = rev [0..<NBUF], disk = D, disk_writes = [], curpid = 1, woken = [],
      log = \<lparr>log_start = 2, log_size = 30, outstanding = 0, committing = True, log_dev = 1, lh = \<lparr>lh_n = 0, lh_block = (\<lambda>_. 50)\<rparr>\<rparr>\<rparr>"

definition dirty :: logged where
  "dirty = (let s = booted (\<lambda>_. replicate BSIZE 0)
     in set_lh (\<lambda>h. h\<lparr>lh_n := 1\<rparr>) (set_buf 0 (\<lambda>_. blank_buf\<lparr>valid := True, bdev := 1, blockno := 50, refcnt := 1, bdata := replicate BSIZE 7\<rparr>) s))"

lemma booted_bstate: "bstate 1 {} {} (booted D)"
  by (auto simp: bstate_def bcache_wf_def buf_ok_def booted_def blank_buf_def initsleeplock_def)

lemma booted_rebooted: "rebooted 1 2 D (booted D)"
  by (simp add: rebooted_def booted_bstate) (simp add: the_log_def booted_def)

lemma log_area_50: "50 \<notin> log_area 2"
proof -
  have "(of_nat x :: u32) \<noteq> 47" if "x < 30" for x
  proof
    assume "(of_nat x :: u32) = 47"
    then have "unat (of_nat x :: u32) = unat (47 :: u32)" by simp
    then show False using that by (simp add: unsigned_of_nat take_bit_eq_mod)
  qed
  then show ?thesis by (auto simp: log_area_def log_slot_def LOGSIZE_def)
qed

lemma dirty_txn: "bstate 1 {} ((\<lambda>_. 50) ` {..<1 :: nat}) dirty" "txn 1 2 1 (\<lambda>_. 50) dirty"
    "disk dirty = (\<lambda>_. replicate BSIZE 0)" "content dirty 1 50 = replicate BSIZE 7"
proof -
  have "bcache_wf 1 dirty" by (auto simp: bcache_wf_def dirty_def booted_def blank_buf_def set_lh_def Let_def)
  moreover have P: "(\<lambda>_. 50 :: u32) ` {..<1 :: nat} = {50}" by (simp add: image_constant_conv lessThan_empty_iff)
  ultimately show "bstate 1 {} ((\<lambda>_. 50) ` {..<1 :: nat}) dirty"
    unfolding P by (auto simp: bstate_def buf_ok_def dirty_def booted_def blank_buf_def initsleeplock_def set_lh_def Let_def holds_def image_iff NBUF_def)
  show "txn 1 2 1 (\<lambda>_. 50) dirty"
    using log_area_50 by (auto simp: txn_def the_log_def dirty_def booted_def set_lh_def Let_def LOGSIZE_def lessThan_Suc)
  show "disk dirty = (\<lambda>_. replicate BSIZE 0)" by (simp add: dirty_def booted_def set_lh_def Let_def)
  show "content dirty 1 50 = replicate BSIZE 7"
    using content_cached [OF \<open>bcache_wf 1 dirty\<close>, of 0 50]
    by (simp add: dirty_def booted_def set_lh_def Let_def holds_def NBUF_def)
qed

lemma zero_head: "head_for 0 blk (replicate BSIZE 0)"
  by (simp add: head_for_def get32_def BSIZE_def)

lemma commit_atomic_witness:
  "\<exists>s' ws. commit dirty = Ret ((), s') \<and> disk_writes s' = ws \<and> length ws = 4 \<and>
    (\<exists>r. recover_from_log (booted (apply_writes (take 1 ws) (disk dirty))) = Ret ((), r) \<and> disk r 50 = replicate BSIZE 0) \<and>
    (\<exists>r. recover_from_log (booted (apply_writes (take 2 ws) (disk dirty))) = Ret ((), r) \<and> disk r 50 = replicate BSIZE 7)"
proof -
  have inj: "inj_on (\<lambda>_. 50 :: u32) {..<1 :: nat}" and n: "1 < NBUF" and head: "head_for 0 (\<lambda>_. 50) (disk dirty 2)"
    using zero_head dirty_txn(3) by (simp_all add: inj_on_def NBUF_def)
  have "disk_writes dirty = []" by (simp add: dirty_def booted_def set_lh_def Let_def)
  moreover obtain s' ws where c: "commit dirty = Ret ((), s')" "disk_writes s' = disk_writes dirty @ ws" "length ws = 2 * 1 + 2"
    "\<And>k (r :: logged). rebooted 1 2 (apply_writes (take k ws) (disk dirty)) r \<Longrightarrow> \<exists>r'. recover_from_log r = Ret ((), r') \<and>
        (\<forall>b. b \<notin> log_area 2 \<longrightarrow> disk r' b = (if k \<le> 1 then disk dirty b else content dirty 1 b))"
    using commit_atomic [OF dirty_txn(1,2) inj zero_less_one n head] by blast
  ultimately show ?thesis
    using c(4) [OF booted_rebooted, of 1] c(4) [OF booted_rebooted, of 2] log_area_50 dirty_txn(3,4) by auto
qed

lemma recovery_restartable_witness:
  "\<exists>r' ws. recover_from_log (booted (\<lambda>_. replicate BSIZE 0)) = Ret ((), r') \<and> disk_writes r' = ws \<and>
    (\<exists>q. recover_from_log (booted (apply_writes (take 1 ws) (\<lambda>_. replicate BSIZE 0))) = Ret ((), q) \<and> disk q 50 = disk r' 50)"
proof -
  have "disk_writes (booted (\<lambda>_. replicate BSIZE 0)) = []" by (simp add: booted_def)
  moreover have "head_ok 2 (replicate BSIZE 0)"
    by (rule head_for_ok [OF zero_head]) (simp add: home_blocks_def)
  ultimately show ?thesis
    using recovery_restartable [OF booted_rebooted, of "\<lambda>_. replicate BSIZE 0"] booted_rebooted log_area_50 by fastforce
qed

end
