(* ===== verification/Reserve.thy ===== *)
theory Reserve
  imports Log
begin

text \<open>
  Log space. Concurrent file-system calls are a step relation on the state of the log: a call begins,
  logs blocks and ends, in any interleaving with others. \<open>begin_op\<close> reserves \<open>MAXOPBLOCKS\<close> blocks for each call;
  the theory shows for which sizes of the log this keeps \<open>log_write\<close> from panicking.
\<close>

section \<open>What commit does to the log's state\<close>

lemma lock_buf_log: "lock_buf i s = Ret (j, s1) \<Longrightarrow> log s1 = log s"
  for s :: "'a logged_scheme"
  by (auto simp: lock_buf_def kbind_Ret_iff set_buf_def)

lemma bread_log: "bread dev b s = Ret (i, s1) \<Longrightarrow> log s1 = log s"
  for s :: "'a logged_scheme"
  by (auto simp: bread_def bget_def kthen_Ret_iff set_buf_def virtio_disk_rw_def dest!: lock_buf_log split: option.splits)

lemma bwrite_log: "bwrite i s = Ret ((), s1) \<Longrightarrow> log s1 = log s"
  for s :: "'a logged_scheme"
  by (auto simp: bwrite_def virtio_disk_rw_def Let_def split: if_splits)

lemma brelse_log: "brelse i s = Ret ((), s1) \<Longrightarrow> log s1 = log s"
  for s :: "'a logged_scheme"
  by (auto simp: brelse_def set_buf_def Let_def split: if_splits)

lemma buf_log [simp]: "log (set_data i d s) = log s" "log (bunpin i s) = log s" "log (bpin i s) = log s"
  for s :: "'a logged_scheme"
  by (simp_all add: set_data_def bunpin_def bpin_def set_buf_def)

lemmas buf_log_dests = bread_log bwrite_log brelse_log

lemma write_head_log: "write_head s = Ret ((), s1) \<Longrightarrow> log s1 = log s"
  by (auto simp: write_head_def kthen_Ret_iff Let_def dest!: buf_log_dests)

lemma log_one_log: "log_one t s = Ret ((), s1) \<Longrightarrow> log s1 = log s"
  by (auto simp: log_one_def kthen_Ret_iff Let_def dest!: buf_log_dests)

lemma install_one_log: "install_one r t s = Ret ((), s1) \<Longrightarrow> log s1 = log s"
  by (auto simp: install_one_def kthen_Ret_iff Let_def dest!: buf_log_dests split: if_splits)

lemma commit_log:
  assumes "commit s = Ret ((), s1)"
  shows "log s1 = (if lh_n (lh (log s)) > 0 then (log s)\<lparr>lh := (lh (log s))\<lparr>lh_n := 0\<rparr>\<rparr> else log s)"
  using assms kfor_frame [where g = log, OF log_one_log] kfor_frame [where g = log, OF install_one_log]
  by (fastforce simp: commit_def kthen_Ret_iff kmod_def set_lh_def set_log_def write_log_def install_trans_def
      dest!: write_head_log split: if_splits)

section \<open>Interleaved calls\<close>

text \<open>The list has the number of blocks each call in progress has logged.\<close>

inductive call_step :: "nat list \<times> 'a logged_scheme \<Rightarrow> nat list \<times> 'a logged_scheme \<Rightarrow> bool" where
  begins: "begin_op s = Ret ((), s') \<Longrightarrow> call_step (us, s) (0 # us, s')"
| logs: "log_write b s = Ret ((), s') \<Longrightarrow> i < length us \<Longrightarrow> us ! i < MAXOPBLOCKS \<Longrightarrow>
    call_step (us, s) (us[i := Suc (us ! i)], s')"
| ends: "end_op s = Ret ((), s') \<Longrightarrow> i < length us \<Longrightarrow> call_step (us, s) (take i us @ drop (Suc i) us, s')"

inductive_cases call_stepE: "call_step c c'"

inductive call_run :: "nat list \<times> 'a logged_scheme \<Rightarrow> nat list \<times> 'a logged_scheme \<Rightarrow> bool" where
  start: "call_run c c"
| step: "call_run c c1 \<Longrightarrow> call_step c1 c2 \<Longrightarrow> call_run c c2"

definition log_idle :: "'a logged_scheme \<Rightarrow> bool" where
  "log_idle s \<longleftrightarrow> lh_n (lh (log s)) = 0 \<and> outstanding (log s) = 0 \<and> \<not> committing (log s)"

definition unused :: "nat list \<Rightarrow> nat" where
  "unused us = sum_list (map (\<lambda>u. MAXOPBLOCKS - u) us)"

text \<open>The logged blocks and what the calls in progress may still log fit the log.\<close>

definition reserved :: "nat list \<times> 'a logged_scheme \<Rightarrow> bool" where
  "reserved c \<longleftrightarrow> (case c of (us, s) \<Rightarrow>
     outstanding (log s) = int (length us) \<and> \<not> committing (log s) \<and> 0 \<le> lh_n (lh (log s)) \<and>
     lh_n (lh (log s)) + int (unused us) \<le> int LOGSIZE)"

lemma unused_split:
  assumes "i < length us"
  shows "unused us = unused (take i us) + (MAXOPBLOCKS - us ! i) + unused (drop (Suc i) us)"
  by (subst id_take_nth_drop [OF assms]) (simp add: unused_def)

lemma unused_le: "unused us \<le> length us * MAXOPBLOCKS"
  by (induction us) (auto simp: unused_def)

lemma begin_op_log:
  assumes "begin_op s = Ret ((), s')"
  shows "\<not> committing (log s)" "lh_n (lh (log s)) + (outstanding (log s) + 1) * int MAXOPBLOCKS \<le> int LOGSIZE"
    "log s' = (log s)\<lparr>outstanding := outstanding (log s) + 1\<rparr>"
  using assms by (auto simp: begin_op_def Let_def set_log_def split: if_splits)

lemma log_write_log:
  assumes "log_write b s = Ret ((), s')"
  shows "committing (log s') = committing (log s)" "outstanding (log s') = outstanding (log s)" "log_size (log s') = log_size (log s)"
    "lh_n (lh (log s')) = lh_n (lh (log s)) \<or> lh_n (lh (log s')) = lh_n (lh (log s)) + 1"
  using assms by (auto simp: log_write_def Let_def set_lh_def set_log_def bpin_def set_buf_def split: if_splits)

lemma end_op_log:
  assumes "end_op s = Ret ((), s')" "0 \<le> lh_n (lh (log s))"
  shows "\<not> committing (log s)" "\<not> committing (log s')" "outstanding (log s') = outstanding (log s) - 1" "log_size (log s') = log_size (log s)"
    "lh_n (lh (log s')) = (if outstanding (log s) = 1 then 0 else lh_n (lh (log s)))"
  using assms
  by (auto simp: end_op_def Let_def set_log_def kthen_Ret_iff dest!: commit_log split: if_splits)

lemma reserved_step: "call_step c c' \<Longrightarrow> reserved c \<Longrightarrow> reserved c'"
proof (induction rule: call_step.induct)
  case (begins s s' us)
  then show ?case
    using begin_op_log [OF begins(1)] unused_le [of us]
    by (simp add: reserved_def unused_def MAXOPBLOCKS_def LOGSIZE_def)
next
  case (logs b s s' i us)
  have "unused us = Suc (unused (us[i := Suc (us ! i)]))"
    using unused_split [OF logs(2)] unused_split [of i "us[i := Suc (us ! i)]"] logs(2,3) by simp
  then show ?case using log_write_log [OF logs(1)] logs(4) by (auto simp: reserved_def)
next
  case (ends s s' i us)
  have "unused (take i us @ drop (Suc i) us) \<le> unused us"
    using unused_split [OF ends(2)] by (simp add: unused_def)
  moreover have "unused (take i us @ drop (Suc i) us) = 0" if "length us = 1"
    using that ends(2) by (simp add: unused_def)
  ultimately show ?case using end_op_log [OF ends(1)] ends(2,3) by (auto simp: reserved_def split: if_splits)
qed

lemma reserved_run: "call_run c c' \<Longrightarrow> reserved c \<Longrightarrow> reserved c'"
  by (induction rule: call_run.induct) (auto intro: reserved_step)

lemma log_size_step: "call_step c c' \<Longrightarrow> reserved c \<Longrightarrow> log_size (log (snd c')) = log_size (log (snd c))"
  by (induction rule: call_step.induct) (auto simp: reserved_def begin_op_log(3) log_write_log(3) end_op_log(4))

lemma log_size_run: "call_run c c' \<Longrightarrow> reserved c \<Longrightarrow> log_size (log (snd c')) = log_size (log (snd c))"
  by (induction rule: call_run.induct) (auto simp: log_size_step reserved_run)

text \<open>
  C27. A log with a block for the header besides its \<open>LOGSIZE\<close> data blocks never overflows. However
  file-system calls interleave, a call that has logged fewer than \<open>MAXOPBLOCKS\<close> blocks can log another
  one: \<open>log_write\<close> returns.
\<close>
theorem log_space_suffices:
  assumes "log_idle s0" "log_size (log s0) > int LOGSIZE" "call_run ([], s0) (us, s)" "i < length us" "us ! i < MAXOPBLOCKS"
  shows "\<exists>s'. log_write b s = Ret ((), s')"
proof -
  have init: "reserved ([], s0)" using assms(1) by (simp add: reserved_def log_idle_def unused_def)
  have r: "reserved (us, s)" by (rule reserved_run [OF assms(3) init])
  have "log_size (log s) > int LOGSIZE" using log_size_run [OF assms(3) init] assms(2) by simp
  moreover have "unused us > 0" using unused_split [OF assms(4)] assms(5) by simp
  moreover have "outstanding (log s) \<ge> 1" using r assms(4) by (auto simp: reserved_def)
  ultimately show ?thesis using r by (auto simp: reserved_def log_write_def Let_def)
qed

section \<open>The log that \<open>mkfs\<close> makes\<close>

text \<open>\<open>k\<close> blocks logged by three calls, from buffers of different blocks.\<close>

definition logged_upto :: "nat \<Rightarrow> 'a logged_scheme \<Rightarrow> nat list \<Rightarrow> 'a logged_scheme \<Rightarrow> bool" where
  "logged_upto k s0 us s \<longleftrightarrow> length us = 3 \<and> sum_list us = k \<and> (\<forall>u \<in> set us. u \<le> MAXOPBLOCKS) \<and>
     log_size (log s) = log_size (log s0) \<and> outstanding (log s) = 3 \<and> lh_n (lh (log s)) = int k \<and>
     (\<forall>j < k. lh_block (lh (log s)) j = blockno (bufs s0 j)) \<and> (\<forall>b. blockno (bufs s b) = blockno (bufs s0 b))"

lemma log_write_new:
  assumes "logged_upto k s0 us s" "inj_on (\<lambda>b. blockno (bufs s0 b)) {..<NBUF}" "k < LOGSIZE - 1"
    "log_size (log s0) = int LOGSIZE"
  shows "\<exists>s'. log_write k s = Ret ((), s') \<and> lh_n (lh (log s')) = int (Suc k) \<and> outstanding (log s') = 3 \<and>
    log_size (log s') = log_size (log s0) \<and>
    (\<forall>j < Suc k. lh_block (lh (log s')) j = blockno (bufs s0 j)) \<and> (\<forall>b. blockno (bufs s' b) = blockno (bufs s0 b))"
proof -
  have "blockno (bufs s0 j) \<noteq> blockno (bufs s0 k)" if "j < k" for j
    using inj_onD [OF assms(2), of j k] assms(3) that by (auto simp: LOGSIZE_def NBUF_def)
  then have "find (\<lambda>j. lh_block (lh (log s)) j = blockno (bufs s k)) [0..<k] = None"
    using assms(1) by (auto simp: find_None_iff logged_upto_def)
  then have "log_index (lh (log s)) (blockno (bufs s k)) = k"
    using assms(1) by (simp add: log_index_def logged_upto_def)
  then show ?thesis
    using assms(1,3,4)
    by (auto simp: log_write_def Let_def logged_upto_def set_lh_def set_log_def bpin_def set_buf_def LOGSIZE_def less_Suc_eq)
qed

lemma spare_call:
  assumes "length us = 3" "sum_list us < 3 * m" "\<forall>u \<in> set us. u \<le> m"
  shows "\<exists>i < length us. us ! i < (m :: nat)"
proof (rule ccontr)
  assume "\<not> ?thesis"
  moreover obtain a b c where us: "us = [a, b, c]" using assms(1) by (auto simp: numeral_3_eq_3 length_Suc_conv)
  ultimately have "m \<le> a" "m \<le> b" "m \<le> c" by (auto simp: less_Suc_eq)
  then show False using assms(2) us by simp
qed

lemma begin_three:
  assumes "log_idle s0"
  shows "\<exists>s. call_run ([], s0) ([0, 0, 0], s) \<and> logged_upto 0 s0 [0, 0, 0] s"
proof -
  define b where "b s = set_log (\<lambda>l. l\<lparr>outstanding := outstanding l + 1\<rparr>) s" for s :: "'a logged_scheme"
  have ok: "begin_op s = Ret ((), b s)"
    if "lh_n (lh (log s)) = 0" "outstanding (log s) \<le> 2" "\<not> committing (log s)" for s
    using that by (simp add: begin_op_def Let_def b_def MAXOPBLOCKS_def LOGSIZE_def)
  have st: "lh_n (lh (log (b s))) = lh_n (lh (log s))" "outstanding (log (b s)) = outstanding (log s) + 1"
    "committing (log (b s)) = committing (log s)" "log_size (log (b s)) = log_size (log s)" "bufs (b s) = bufs s" for s
    by (simp_all add: b_def set_log_def)
  have "call_step ([], s0) ([0], b s0)" "call_step ([0], b s0) ([0, 0], b (b s0))"
    "call_step ([0, 0], b (b s0)) ([0, 0, 0], b (b (b s0)))"
    using assms by (auto intro!: call_step.begins ok simp: st log_idle_def)
  then have "call_run ([], s0) ([0, 0, 0], b (b (b s0)))" using call_run.start call_run.step by blast
  moreover have "logged_upto 0 s0 [0, 0, 0] (b (b (b s0)))"
    using assms by (simp add: logged_upto_def st log_idle_def MAXOPBLOCKS_def)
  ultimately show ?thesis by blast
qed

lemma logged_upto_run:
  assumes "log_idle s0" "inj_on (\<lambda>b. blockno (bufs s0 b)) {..<NBUF}" "log_size (log s0) = int LOGSIZE" "k < LOGSIZE"
  shows "\<exists>us s. call_run ([], s0) (us, s) \<and> logged_upto k s0 us s"
  using assms(4)
proof (induction k)
  case 0
  then show ?case using begin_three [OF assms(1)] by blast
next
  case (Suc k)
  then obtain us s where run: "call_run ([], s0) (us, s)" and up: "logged_upto k s0 us s" by auto
  obtain i where i: "i < length us" "us ! i < MAXOPBLOCKS"
    using spare_call [of us MAXOPBLOCKS] up Suc.prems by (auto simp: logged_upto_def MAXOPBLOCKS_def LOGSIZE_def)
  have k: "k < LOGSIZE - 1" using Suc.prems by simp
  obtain s' where s': "log_write k s = Ret ((), s')" "lh_n (lh (log s')) = int (Suc k)" "outstanding (log s') = 3"
    "log_size (log s') = log_size (log s0)" "\<forall>j < Suc k. lh_block (lh (log s')) j = blockno (bufs s0 j)"
    "\<forall>b. blockno (bufs s' b) = blockno (bufs s0 b)"
    using log_write_new [OF up assms(2) k assms(3)] by blast
  have "logged_upto (Suc k) s0 (us[i := Suc (us ! i)]) s'"
    using s' up i set_update_subset_insert [of us i "Suc (us ! i)"] by (auto simp: logged_upto_def sum_list_update)
  then show ?case using call_run.step [OF run call_step.logs [OF s'(1) i]] by blast
qed

text \<open>
  C28. The log that \<open>mkfs\<close> makes, with \<open>LOGSIZE\<close> blocks for the header and the data together, is one
  block short: three calls that each keep to \<open>MAXOPBLOCKS\<close> blocks reach a state in which one of them
  may log another block and \<open>log_write\<close> panics.
\<close>
theorem mkfs_log_too_small:
  assumes "log_idle s0" "log_size (log s0) = int LOGSIZE" "inj_on (\<lambda>b. blockno (bufs s0 b)) {..<NBUF}"
  shows "\<exists>us s. call_run ([], s0) (us, s) \<and> (\<exists>i < length us. us ! i < MAXOPBLOCKS) \<and>
    (\<forall>b. log_write b s = Panic ''too big a transaction'')"
proof -
  obtain us s where run: "call_run ([], s0) (us, s)" and up: "logged_upto (LOGSIZE - 1) s0 us s"
    using logged_upto_run [OF assms(1,3,2), of "LOGSIZE - 1"] by (auto simp: LOGSIZE_def)
  have "\<exists>i < length us. us ! i < MAXOPBLOCKS"
    using spare_call [of us MAXOPBLOCKS] up by (simp add: logged_upto_def MAXOPBLOCKS_def LOGSIZE_def)
  moreover have "log_write b s = Panic ''too big a transaction''" for b
    using up assms(2) by (simp add: logged_upto_def log_write_def Let_def LOGSIZE_def)
  ultimately show ?thesis using run by blast
qed

section \<open>An example\<close>

definition idle_state :: "int \<Rightarrow> logged" where
  "idle_state n =
     \<lparr>hart = 0, cpus = (\<lambda>h. \<lparr>cproc = Some 1, noff = 0, intena = False\<rparr>), sie = (\<lambda>h. True), locks = (\<lambda>l. \<lparr>locked = False, lk_cpu = None\<rparr>),
      bufs = (\<lambda>i. \<lparr>valid = True, bdev = 1, blockno = of_nat i, block_lock = initsleeplock, refcnt = 1, bdata = []\<rparr>),
      lru = rev [0..<NBUF], disk = (\<lambda>_. []), disk_writes = [], curpid = 1, woken = [],
      log = \<lparr>log_start = 2, log_size = n, outstanding = 0, committing = False, log_dev = 1, lh = \<lparr>lh_n = 0, lh_block = (\<lambda>_. 0)\<rparr>\<rparr>\<rparr>"

lemma idle_state_idle: "log_idle (idle_state n)" "log_size (log (idle_state n)) = n"
    "inj_on (\<lambda>b. blockno (bufs (idle_state n) b)) {..<NBUF}"
  by (auto simp: log_idle_def idle_state_def inj_on_def NBUF_def word_of_nat_eq_iff take_bit_eq_mod)

lemma log_space_suffices_witness:
  "\<exists>s s'. call_run ([], idle_state 31) ([0, 0, 0], s) \<and> log_write 5 s = Ret ((), s')"
proof -
  obtain s where run: "call_run ([], idle_state 31) ([0, 0, 0], s)" using begin_three [OF idle_state_idle(1)] by blast
  then show ?thesis
    using log_space_suffices [OF idle_state_idle(1) _ run, of 0 5] by (auto simp: idle_state_idle(2) LOGSIZE_def MAXOPBLOCKS_def)
qed

lemma mkfs_log_too_small_witness:
  "\<exists>us s. call_run ([], idle_state 30) (us, s) \<and> log_write 0 s = Panic ''too big a transaction''"
  using mkfs_log_too_small [OF idle_state_idle(1) _ idle_state_idle(3), of 30]
  by (auto simp: idle_state_idle(2) LOGSIZE_def)

end
