(* ===== verification/Cow.thy ===== *)
theory Cow
  imports Pagefault
begin

text \<open>
  \<open>uvmcopy\<close>: how \<open>fork\<close> shares the memory of a process. Two page tables live in the same
  memory, so the lemmas here are about what an operation on one of them leaves of the other.
\<close>

section \<open>Shared entries\<close>

definition cow_flags :: "u64 \<Rightarrow> u64" where
  "cow_flags e = (PTE_FLAGS e AND NOT PTE_W) OR PTE_COW"

definition cow_share :: "u64 \<Rightarrow> u64" where
  "cow_share e = PA2PTE (PTE2PA e) OR cow_flags e OR PTE_V"

lemma bit_cow_flags: "bit (cow_flags e) n \<longleftrightarrow> n < 10 \<and> (bit e n \<and> n \<noteq> 2 \<or> n = 8)"
  by (auto simp: cow_flags_def PTE_FLAGS_bits bit_take_bit_iff bit_or_iff bit_and_iff bit_not_iff)

lemma PGROUNDDOWN_PTE2PA: "PGROUNDDOWN (PTE2PA e) = PTE2PA e"
  by (rule PGROUNDDOWN_id) simp

lemma cow_share_bits:
  shows "PTE2PA (cow_share e) = PTE2PA e" "bit (cow_share e) 0" "cow_share e AND PTE_W = 0" "cow_share e AND PTE_COW \<noteq> 0"
    "cow_share e AND PTE_U = e AND PTE_U"
proof -
  have c: "cow_share e = PA2PTE (PTE2PA e) OR (cow_flags e OR PTE_V)" by (simp add: cow_share_def or.assoc)
  have "take_bit 10 (cow_flags e OR PTE_V) = cow_flags e OR PTE_V"
    by (rule bit_word_eqI) (auto simp: bit_take_bit_iff bit_or_iff bit_cow_flags)
  then show "PTE2PA (cow_share e) = PTE2PA e"
    using PTE2PA_PA2PTE [of "cow_flags e OR PTE_V" "PTE2PA e"] by (simp add: c PGROUNDDOWN_PTE2PA)
  show "bit (cow_share e) 0" "cow_share e AND PTE_W = 0" "cow_share e AND PTE_COW \<noteq> 0"
    by (simp_all add: and_PTE_eq_0 c bit_or_iff bit_cow_flags bit_PA2PTE_low)
  show "cow_share e AND PTE_U = e AND PTE_U"
    by (rule bit_word_eqI) (auto simp: c bit_or_iff bit_and_iff bit_cow_flags bit_PA2PTE_low)
qed

section \<open>Keeping a page table\<close>

lemma pt_keep:
  assumes wf: "pt_wf s r" and mem: "\<And>t x. t \<in> tables (phys s) r \<Longrightarrow> x \<in> page_of t \<Longrightarrow> phys s' x = phys s x"
    and live: "\<And>t. t \<in> tables (phys s) r \<Longrightarrow> live s t \<Longrightarrow> live s' t"
  shows "pt_wf s' r" "tables (phys s') r = tables (phys s) r"
    "\<And>va. va < MAXVA \<Longrightarrow> pte_of (phys s') r va = pte_of (phys s) r va"
    "\<And>va. va < MAXVA \<Longrightarrow> tbl (phys s') r 2 va = tbl (phys s) r 2 va"
proof -
  show "pt_wf s' r" by (rule pt_wf_cong [OF wf pt_frame(1) [OF wf mem] live])
  show "tables (phys s') r = tables (phys s) r" by (rule pt_frame(3) [OF wf mem])
  show "pte_of (phys s') r va = pte_of (phys s) r va" if "va < MAXVA" for va
    by (rule pt_frame(2) [OF wf mem that])
  show "tbl (phys s') r 2 va = tbl (phys s) r 2 va" if "va < MAXVA" for va
    by (rule pt_frame(1) [OF wf mem order_refl that])
qed

text \<open>A change of the page table \<open>r\<close> keeps a page table \<open>q\<close> that shares no table with it.\<close>

lemma pt_mod_live: "pt_mod r s s' \<Longrightarrow> live s p \<Longrightarrow> live s' p"
  using pt_modD(3,4,5,8) [of r s s'] in_use_usable [of s p]
  by (auto simp: live_def in_use_def) (metis disjoint_iff in_use_def page_of_self)

lemma pt_mod_other:
  assumes M: "pt_mod r s s'" and r: "pt_wf s r" and q: "pt_wf s q" and dis: "tables (phys s) r \<inter> tables (phys s) q = {}"
  shows "pt_wf s' q" "tables (phys s') q = tables (phys s) q" "\<And>va. va < MAXVA \<Longrightarrow> pte_of (phys s') q va = pte_of (phys s) q va"
    "tables (phys s') r \<inter> tables (phys s') q = {}"
proof -
  note D = pt_modD [OF M]
  have mem: "phys s' x = phys s x" if "t \<in> tables (phys s) q" "x \<in> page_of t" for t x
  proof (rule D(7))
    have lt: "live s t" using q that(1) by (simp add: pt_wf_def)
    then show "x \<notin> free_mem s" using that(2) by (auto simp: live_def in_use_def)
    show "x \<notin> page_of u" if u: "u \<in> tables (phys s) r" for u
    proof -
      have "u \<noteq> t" using u dis \<open>t \<in> tables (phys s) q\<close> by blast
      then have "page_of u \<inter> page_of t = {}"
        by (rule page_of_disjoint [OF pt_wf_aligned [OF r u] pt_wf_aligned [OF q \<open>t \<in> tables (phys s) q\<close>]])
      then show ?thesis using \<open>x \<in> page_of t\<close> by blast
    qed
  qed
  show "pt_wf s' q" by (rule pt_keep(1) [OF q mem pt_mod_live [OF M]])
  show T: "tables (phys s') q = tables (phys s) q" by (rule pt_keep(2) [OF q mem pt_mod_live [OF M]])
  show "pte_of (phys s') q va = pte_of (phys s) q va" if "va < MAXVA" for va
    by (rule pt_keep(3) [OF q mem pt_mod_live [OF M] that])
  show "tables (phys s') r \<inter> tables (phys s') q = {}"
  proof (rule ccontr)
    assume "tables (phys s') r \<inter> tables (phys s') q \<noteq> {}"
    then obtain t where t: "t \<in> tables (phys s') r" "t \<in> tables (phys s) q" using T by blast
    then have "page_of t \<subseteq> free_mem s" using D(6) [OF t(1)] dis by blast
    then show False using q t(2) page_of_self [of t] unfolding pt_wf_def live_def in_use_def by blast
  qed
qed

section \<open>Sharing one page\<close>

lemma bad_pa_in_use: "kmem_inv s \<Longrightarrow> in_use s pa \<Longrightarrow> \<not> bad_pa s pa"
  using not_bad_pa [of s pa] by (simp add: kmem_inv_def)

lemma u8_succ: "c < 255 \<Longrightarrow> c + 1 \<noteq> (0 :: u8)"
proof
  assume c: "c < 255" and "c + 1 = 0"
  then have "c = - 1" by (simp add: eq_neg_iff_add_eq_0)
  then show False using c by simp
qed

text \<open>Marking the parent's entry and counting the reference.\<close>

definition marked :: "addr \<Rightarrow> addr \<Rightarrow> u64 \<Rightarrow> addr \<Rightarrow> u64 \<Rightarrow> kmem \<Rightarrow> kmem \<Rightarrow> bool" where
  "marked old new a pa v s s2 \<longleftrightarrow>
     kmem_inv s2 \<and> pt_wf s2 old \<and> pt_wf s2 new \<and>
     tables (phys s2) old = tables (phys s) old \<and> tables (phys s2) new = tables (phys s) new \<and>
     (\<forall>va < MAXVA. pte_of (phys s2) old va = (if vpn va = vpn a then v else pte_of (phys s) old va)) \<and>
     (\<forall>va < MAXVA. pte_of (phys s2) new va = pte_of (phys s) new va) \<and>
     refcount s2 = (refcount s)(pa2index pa := refcount s (pa2index pa) + 1) \<and> free_mem s2 = free_mem s \<and> kend s2 = kend s \<and>
     (\<forall>x. (\<forall>t \<in> tables (phys s) old. x \<notin> page_of t) \<longrightarrow> phys s2 x = phys s x)"

lemma markedD:
  assumes "marked old new a pa v s s2"
  shows "kmem_inv s2" "pt_wf s2 old" "pt_wf s2 new" "tables (phys s2) old = tables (phys s) old" "tables (phys s2) new = tables (phys s) new"
    "va < MAXVA \<Longrightarrow> pte_of (phys s2) old va = (if vpn va = vpn a then v else pte_of (phys s) old va)"
    "va < MAXVA \<Longrightarrow> pte_of (phys s2) new va = pte_of (phys s) new va"
    "refcount s2 = (refcount s)(pa2index pa := refcount s (pa2index pa) + 1)" "free_mem s2 = free_mem s" "kend s2 = kend s"
    "\<forall>t \<in> tables (phys s) old. x \<notin> page_of t \<Longrightarrow> phys s2 x = phys s x" "usable s2 = usable s"
  using assms by (simp_all add: marked_def usable_def)

lemma mark_page:
  assumes inv: "kmem_inv s" and wf: "pt_wf s old" "pt_wf s new" and dis: "tables (phys s) old \<inter> tables (phys s) new = {}"
    and a: "a < MAXVA" and tb: "tbl (phys s) old 2 a = Some tb" and pa: "live s pa" "refcount s (pa2index pa) < 255"
  shows "\<exists>s2. incref pa (set_pte (pte_slot tb 0 a) v s) = Ret s2 \<and> marked old new a pa v s s2"
proof -
  define s1 where "s1 = set_pte (pte_slot tb 0 a) v s"
  have S: "pt_mod old s s1" "free_mem s1 = free_mem s" "refcount s1 = refcount s" "tables (phys s1) old = tables (phys s) old"
    "\<forall>va < MAXVA. pte_of (phys s1) old va = (if vpn va = vpn a then v else pte_of (phys s) old va)"
    using set_leaf_spec [OF inv wf(1) a tb s1_def] by blast+
  note M = pt_modD [OF S(1)] and O = pt_mod_other [OF S(1) wf dis]
  define s2 where "s2 = s1\<lparr>refcount := (refcount s1)(pa2index pa := refcount s1 (pa2index pa) + 1)\<rparr>"
  have u: "in_use s1 pa" using pt_mod_live [OF S(1) pa(1)] by (simp add: live_def)
  have inc: "incref pa s1 = Ret s2"
    using bad_pa_in_use [OF M(1) u] pa(2) S(3) by (simp add: incref_def Let_def s2_def)
  have fl: "freelist s2 = freelist s1" "kend s2 = kend s1" "phys s2 = phys s1" by (simp_all add: s2_def)
  have fm: "free_mem s2 = free_mem s1" by (rule free_mem_cong [OF fl(1)])
  have "refcount s (pa2index pa) + 1 \<noteq> 0"
    using pa(2) by (rule u8_succ)
  then have lv: "live s2 t" if "live s1 t" for t
    using that fm fl(2) S(3) by (auto simp: live_def in_use_def usable_def s2_def word_gt_0)
  have mem: "phys s2 x = phys s1 x" for x by (simp add: fl)
  have "kmem_inv s2" unfolding s2_def by (rule kmem_inv_refcount [OF M(1) u])
  moreover have "pt_wf s2 old" by (rule pt_keep(1) [OF M(2) mem lv])
  moreover have "pt_wf s2 new" by (rule pt_keep(1) [OF O(1) mem lv])
  moreover have "phys s2 x = phys s x" if "\<forall>t \<in> tables (phys s) old. x \<notin> page_of t" for x
  proof -
    have "tb \<in> tables (phys s) old" using tb a by (intro tablesI) auto
    then have "\<not> in_range x (pte_slot tb 0 a) 8"
      using that slot_in_page [OF pt_wf_aligned [OF wf(1)], of tb x] by blast
    then show ?thesis by (simp add: fl s1_def set_pte_def store64_apply)
  qed
  ultimately show ?thesis
    using inc S(2-5) O(2,3) M(3) fm fl unfolding marked_def
    by (intro exI [of _ s2]) (simp add: s1_def [symmetric], simp add: s2_def)
qed

text \<open>
  What the loop leaves behind when it has marked \<open>ko\<close> pages of the parent and given \<open>kn\<close> of them to
  the child.
\<close>

definition copy_post :: "addr \<Rightarrow> addr \<Rightarrow> u64 \<Rightarrow> nat \<Rightarrow> nat \<Rightarrow> kmem \<Rightarrow> kmem \<Rightarrow> bool" where
  "copy_post old new a ko kn s s' \<longleftrightarrow>
     kmem_inv s' \<and> pt_wf s' old \<and> pt_wf s' new \<and> kend s' = kend s \<and> free_mem s' \<subseteq> free_mem s \<and>
     tables (phys s') old = tables (phys s) old \<and> tables (phys s) old \<inter> tables (phys s') new = {} \<and>
     (\<forall>t \<in> tables (phys s') new. t \<in> tables (phys s) new \<or> page_of t \<subseteq> free_mem s) \<and>
     (\<forall>v < MAXVA. pte_of (phys s') old v =
        (if in_pages v a ko \<and> bit (pte_of (phys s) old v) 0 then cow_share (pte_of (phys s) old v) else pte_of (phys s) old v)) \<and>
     (\<forall>v < MAXVA. pte_of (phys s') new v =
        (if in_pages v a kn \<and> bit (pte_of (phys s) old v) 0 then cow_share (pte_of (phys s) old v) else pte_of (phys s) new v)) \<and>
     (\<forall>x \<in> usable s - free_mem s. refcount s' (pa2index x) =
        refcount s (pa2index x) + (if \<exists>q \<in> frames (phys s) old a kn. x \<in> page_of q then 1 else 0)) \<and>
     (\<forall>x. x \<notin> free_mem s \<longrightarrow> (\<forall>t \<in> tables (phys s) old \<union> tables (phys s) new. x \<notin> page_of t) \<longrightarrow> phys s' x = phys s x)"

lemma copy_postD:
  assumes "copy_post old new a ko kn s s'"
  shows "kmem_inv s'" "pt_wf s' old" "pt_wf s' new" "kend s' = kend s" "free_mem s' \<subseteq> free_mem s"
    "tables (phys s') old = tables (phys s) old" "tables (phys s) old \<inter> tables (phys s') new = {}"
    "t \<in> tables (phys s') new \<Longrightarrow> t \<in> tables (phys s) new \<or> page_of t \<subseteq> free_mem s"
    "v < MAXVA \<Longrightarrow> pte_of (phys s') old v =
        (if in_pages v a ko \<and> bit (pte_of (phys s) old v) 0 then cow_share (pte_of (phys s) old v) else pte_of (phys s) old v)"
    "v < MAXVA \<Longrightarrow> pte_of (phys s') new v =
        (if in_pages v a kn \<and> bit (pte_of (phys s) old v) 0 then cow_share (pte_of (phys s) old v) else pte_of (phys s) new v)"
    "x \<in> usable s \<Longrightarrow> x \<notin> free_mem s \<Longrightarrow> refcount s' (pa2index x) =
        refcount s (pa2index x) + (if \<exists>q \<in> frames (phys s) old a kn. x \<in> page_of q then 1 else 0)"
    "x \<notin> free_mem s \<Longrightarrow> \<forall>t \<in> tables (phys s) old \<union> tables (phys s) new. x \<notin> page_of t \<Longrightarrow> phys s' x = phys s x"
  using assms by (simp_all add: copy_post_def)

text \<open>What the loop needs of the pages it still has to copy.\<close>

definition copy_pre :: "addr \<Rightarrow> addr \<Rightarrow> u64 \<Rightarrow> nat \<Rightarrow> kmem \<Rightarrow> bool" where
  "copy_pre old new a k s \<longleftrightarrow>
     kmem_inv s \<and> pt_wf s old \<and> pt_wf s new \<and> tables (phys s) old \<inter> tables (phys s) new = {} \<and>
     leaves_ok s old a k \<and> unmapped (phys s) new a k \<and>
     (\<forall>q \<in> frames (phys s) old a k. q \<notin> tables (phys s) new \<and> refcount s (pa2index q) < 255)"

lemma copy_preD:
  assumes "copy_pre old new a k s"
  shows "kmem_inv s" "pt_wf s old" "pt_wf s new" "tables (phys s) old \<inter> tables (phys s) new = {}" "leaves_ok s old a k"
    "unmapped (phys s) new a k" "q \<in> frames (phys s) old a k \<Longrightarrow> q \<notin> tables (phys s) new"
    "q \<in> frames (phys s) old a k \<Longrightarrow> refcount s (pa2index q) < 255"
  using assms by (simp_all add: copy_pre_def)

lemma copy_post_refl:
  assumes "copy_pre old new a k s" "\<not> bit (pte_of (phys s) old a) 0" "aligned a 0"
  shows "copy_post old new a 1 1 s s"
proof -
  have z: "\<not> bit (pte_of (phys s) old v) 0" if "in_pages v a 1" for v
    using pte_of_vpn [of v a "phys s" old] in_pages_1 [OF assms(3), of v] assms(2) that by simp
  then have "frames (phys s) old a 1 = {}" by (auto simp: frames_def)
  then show ?thesis using z assms(1) by (simp add: copy_pre_def copy_post_def) blast
qed

lemma frames_one:
  assumes "a < MAXVA" "aligned a 0" "bit (pte_of (phys s) old a) 0"
  shows "frames (phys s) old a 1 = {PTE2PA (pte_of (phys s) old a)}" (is "?F = {?p}")
proof (intro equalityI subsetI)
  fix q assume "q \<in> ?F"
  then obtain v where v: "in_pages v a 1" "q = PTE2PA (pte_of (phys s) old v)" unfolding frames_def by blast
  then show "q \<in> {?p}" using pte_of_vpn [of v a "phys s" old] in_pages_1 [OF assms(2), of v] by simp
next
  fix q assume "q \<in> {?p}"
  moreover have "in_pages a a 1" by (simp add: in_pages_def)
  ultimately show "q \<in> ?F" using assms(1,3) unfolding frames_def by blast
qed

lemma map_view_0 [simp]: "map_view a 0 pa perm f v = f v"
  by (auto simp: map_view_def)

lemma map_view_1:
  assumes "aligned a 0"
  shows "map_view a 1 pa perm f v = (if in_pages v a 1 then PA2PTE pa OR perm OR PTE_V else f v)"
  using PGROUNDDOWN_vpn [OF _ assms, of v] vpn_eq_iff [OF assms, of v] by (auto simp: map_view_def in_pages_def)

lemma map_page:
  assumes "kmem_inv s" "pt_wf s root" "aligned a 0" "unat a + 4096 \<le> 2 ^ 38" "unmapped (phys s) root a 1"
  shows "\<exists>r s'. mappages root a PGSIZE pa perm s = Ret (r, s') \<and> pt_mod root s s' \<and>
    (r = 0 \<and> (\<forall>v < MAXVA. pte_of (phys s') root v = (if in_pages v a 1 then PA2PTE pa OR perm OR PTE_V else pte_of (phys s) root v)) \<or>
     r = - 1 \<and> free_mem s' = {} \<and> (\<forall>v < MAXVA. pte_of (phys s') root v = pte_of (phys s) root v))"
proof -
  have "unat a + 1 * 4096 \<le> 2 ^ 38" using assms(4) by simp
  from mappages_spec [OF assms(1-3) zero_less_one this assms(5), of pa perm] obtain r s' where
    m: "mappages root a (of_nat 1 * PGSIZE) pa perm s = Ret (r, s')" "pt_mod root s s'"
    "(r = 0 \<and> (\<forall>v < MAXVA. pte_of (phys s') root v = map_view a 1 pa perm (pte_of (phys s) root) v)) \<or>
     (r = - 1 \<and> free_mem s' = {} \<and> (\<exists>k < 1. \<forall>v < MAXVA.
        pte_of (phys s') root v = map_view a k pa perm (pte_of (phys s) root) v))" by (elim exE conjE)
  have "mappages root a PGSIZE pa perm s = Ret (r, s')" using m(1) by (simp only: of_nat_1 mult_1)
  moreover have "(r = 0 \<and> (\<forall>v < MAXVA. pte_of (phys s') root v = (if in_pages v a 1 then PA2PTE pa OR perm OR PTE_V else pte_of (phys s) root v)) \<or>
     r = - 1 \<and> free_mem s' = {} \<and> (\<forall>v < MAXVA. pte_of (phys s') root v = pte_of (phys s) root v))"
    using m(3) unfolding map_view_1 [OF assms(3)] less_one by (simp only: ex_simps simp_thms map_view_0 cong: conj_cong)
  ultimately show ?thesis using m(2) by blast
qed

text \<open>Both outcomes of sharing a page, \<open>n\<close> being the number of pages the child has received.\<close>

lemma share_post:
  assumes pre: "copy_pre old new a (Suc k) s" and a: "a < MAXVA" "aligned a 0" and e: "e = pte_of (phys s) old a" "bit e 0"
    and mk: "marked old new a (PTE2PA e) (cow_share e) s s2" and M: "pt_mod new s2 s3" and lpa: "live s (PTE2PA e)"
    and s4: "s4 = s3\<lparr>refcount := (refcount s3)(pa2index (PTE2PA e) := refcount s (pa2index (PTE2PA e)) + of_nat n)\<rparr>"
      "n = 0 \<or> n = 1"
    and new: "\<forall>v < MAXVA. pte_of (phys s3) new v = (if in_pages v a n then cow_share e else pte_of (phys s2) new v)"
  shows "copy_post old new a 1 n s s4"
proof -
  note P = copy_preD [OF pre] and K = markedD [OF mk] and M = pt_modD [OF M]
  have dis: "tables (phys s2) new \<inter> tables (phys s2) old = {}" using P(4) K(4,5) by blast
  note Q = pt_mod_other [OF assms(7) K(3,2) dis]
  have same: "pte_of (phys s) old v = e" if "in_pages v a 1" for v
    using pte_of_vpn [of v a "phys s" old] in_pages_1 [OF a(2), of v] e(1) that by simp
  let ?pa = "PTE2PA e" and ?c = "refcount s (pa2index (PTE2PA e))"
  have fl: "freelist s4 = freelist s3" "kend s4 = kend s3" "phys s4 = phys s3" by (simp_all add: s4)
  have fm: "free_mem s4 = free_mem s3" by (rule free_mem_cong [OF fl(1)])
  have us: "usable s3 = usable s" using M(5) K(12) by simp
  have iu: "in_use s ?pa" "0 < ?c" using lpa by (simp_all add: live_def)
  have u3: "in_use s3 ?pa" using iu(1) us M(4) K(9) by (auto simp: in_use_def)
  have "a \<in> {v. in_pages v a (Suc k)}" by (simp add: in_pages_def)
  then have "?pa \<in> frames (phys s) old a (Suc k)" unfolding frames_def using a(1) e by blast
  then have c: "?c + of_nat n \<noteq> 0" using u8_succ [OF P(8)] iu(2) s4(2) by auto
  have lv: "live s4 t" if "live s3 t" for t
    using that fm fl(2) c by (auto simp: live_def in_use_def usable_def s4(1) word_gt_0)
  have mem: "phys s4 x = phys s3 x" for x by (simp add: fl)
  have idx: "pa2index x = pa2index ?pa \<longleftrightarrow> x \<in> page_of ?pa" if "x \<in> usable s" for x
    using pa2index_usable [of s ?pa x] P(1) in_use_usable [OF iu(1)] that by (auto simp: kmem_inv_def)
  have fr: "frames (phys s) old a n = (if n = 1 then {?pa} else {})"
    using frames_one [OF a, of s old] e s4(2) by (auto simp: frames_def)
  have rc: "refcount s4 (pa2index x) = refcount s (pa2index x) + (if \<exists>q \<in> frames (phys s) old a n. x \<in> page_of q then 1 else 0)"
    if x: "x \<in> usable s" "x \<notin> free_mem s" for x
  proof (cases "x \<in> page_of ?pa")
    case True
    then show ?thesis using idx [OF x(1)] s4 fr by auto
  next
    case False
    then have "refcount s4 (pa2index x) = refcount s2 (pa2index x)"
      using idx [OF x(1)] M(8) [of x] x K(9,12) by (simp add: s4(1))
    then show ?thesis using False idx [OF x(1)] fr by (simp add: K(8))
  qed
  have po: "pte_of (phys s4) old v = (if in_pages v a 1 \<and> bit (pte_of (phys s) old v) 0 then cow_share (pte_of (phys s) old v) else pte_of (phys s) old v)"
    if "v < MAXVA" for v
    using Q(3) [OF that] K(6) [OF that] same [of v] e(2) in_pages_1 [OF a(2), of v] fl(3) by auto
  have pn: "pte_of (phys s4) new v = (if in_pages v a n \<and> bit (pte_of (phys s) old v) 0 then cow_share (pte_of (phys s) old v) else pte_of (phys s) new v)"
    if "v < MAXVA" for v
    using new that K(7) [OF that] same [of v] e(2) s4(2) fl(3) by auto
  have "phys s4 x = phys s x" if "x \<notin> free_mem s" "\<forall>t \<in> tables (phys s) old \<union> tables (phys s) new. x \<notin> page_of t" for x
    using M(7) [of x] K(5,9,11) that fl(3) by auto
  moreover have "kmem_inv s4" unfolding s4(1) by (rule kmem_inv_refcount [OF M(1) u3])
  moreover have "pt_wf s4 old" by (rule pt_keep(1) [OF Q(1) mem lv])
  moreover have "pt_wf s4 new" by (rule pt_keep(1) [OF M(2) mem lv])
  moreover have "t \<in> tables (phys s) new \<or> page_of t \<subseteq> free_mem s" if "t \<in> tables (phys s4) new" for t
    using M(6) [of t] that K(5,9) fl(3) by simp
  moreover have "tables (phys s) old \<inter> tables (phys s4) new = {}" using Q(2,4) K(4) fl(3) by auto
  ultimately show ?thesis unfolding copy_post_def
    using rc po pn Q(2) K(4,9,10) M(3,4) fl fm by (intro conjI allI impI ballI) simp_all
qed

lemma share_page:
  assumes pre: "copy_pre old new a (Suc k) s" and a: "a < MAXVA" "aligned a 0" "unat a + 4096 \<le> 2 ^ 38"
    and e: "e = pte_of (phys s) old a" "bit e 0"
  shows "\<exists>pte s2 r s3. walk old a False s = Ret (pte, s) \<and> pte \<noteq> 0 \<and> get_pte s pte = e \<and>
    incref (PTE2PA e) (set_pte pte (cow_share e) s) = Ret s2 \<and>
    mappages new a PGSIZE (PTE2PA e) (cow_flags e) s2 = Ret (r, s3) \<and>
    (r = 0 \<and> copy_post old new a 1 1 s s3 \<or>
     r = - 1 \<and> (\<exists>z s4. decref (PTE2PA e) s3 = Ret (z, s4) \<and> free_mem s4 = {} \<and> copy_post old new a 1 0 s s4))"
proof -
  note P = copy_preD [OF pre]
  let ?pa = "PTE2PA e" and ?i = "pa2index (PTE2PA e)"
  obtain tb where tb: "tbl (phys s) old 2 a = Some tb" "load64 (phys s) (pte_slot tb 0 a) = e"
    using e by (auto simp: pte_of_def split: option.splits)
  have "in_use s tb" using pt_wf_in_use [OF P(2) tb(1)] a(1) by simp
  then have slot: "pte_slot tb 0 a \<noteq> 0" using slot_nonzero [of s tb 0 a] P(1) by (simp add: kmem_inv_def)
  have w: "walk old a False s = Ret (pte_slot tb 0 a, s)"
    using a(1) tb(1) by (simp add: walk_def walk_loop_noalloc)
  have in0: "in_pages a a (Suc k)" by (simp add: in_pages_def)
  have lf: "live s ?pa" using leaves_okD(2) [OF P(5) a(1) in0] e by auto
  have fr: "?pa \<in> frames (phys s) old a (Suc k)" unfolding frames_def using a(1) in0 e by blast
  from mark_page [OF P(1-4) a(1) tb(1) lf P(8) [OF fr], of "cow_share e"] obtain s2 where
    s2: "incref ?pa (set_pte (pte_slot tb 0 a) (cow_share e) s) = Ret s2" "marked old new a ?pa (cow_share e) s s2" by blast
  note K = markedD [OF s2(2)]
  have um: "unmapped (phys s2) new a 1" using P(6) K(7) by (auto simp: unmapped_def)
  obtain r s3 where s3: "mappages new a PGSIZE ?pa (cow_flags e) s2 = Ret (r, s3)" "pt_mod new s2 s3"
    "r = 0 \<and> (\<forall>v < MAXVA. pte_of (phys s3) new v = (if in_pages v a 1 then PA2PTE ?pa OR cow_flags e OR PTE_V else pte_of (phys s2) new v)) \<or>
     r = - 1 \<and> free_mem s3 = {} \<and> (\<forall>v < MAXVA. pte_of (phys s3) new v = pte_of (phys s2) new v)"
    using map_page [OF K(1,3) a(2,3) um] by blast
  have u: "?pa \<in> usable s" "?pa \<notin> free_mem s" using lf page_of_self [of ?pa] unfolding live_def in_use_def by blast+
  have rc: "refcount s3 ?i = refcount s ?i + 1" using pt_modD(8) [OF s3(2), of ?pa] u K(8,9,12) by simp
  note post = share_post [OF pre a(1,2) e s2(2) s3(2) lf]
  from s3(3) show ?thesis
  proof
    assume r: "r = 0 \<and> (\<forall>v < MAXVA. pte_of (phys s3) new v = (if in_pages v a 1 then PA2PTE ?pa OR cow_flags e OR PTE_V else pte_of (phys s2) new v))"
    have "copy_post old new a 1 1 s s3"
      by (rule post [where n = 1]) (use r rc in \<open>simp_all add: cow_share_def fun_upd_idem\<close>)
    then show ?thesis using w slot tb(2) s2(1) s3(1) r by auto
  next
    assume r: "r = - 1 \<and> free_mem s3 = {} \<and> (\<forall>v < MAXVA. pte_of (phys s3) new v = pte_of (phys s2) new v)"
    define s4 where "s4 = s3\<lparr>refcount := (refcount s3)(?i := refcount s ?i)\<rparr>"
    have "in_use s3 ?pa" using lf pt_modD(4,5) [OF s3(2)] K(9,12) by (auto simp: live_def in_use_def)
    then have "decref ?pa s3 = Ret (refcount s ?i = 0, s4)"
      using bad_pa_in_use [OF pt_modD(1) [OF s3(2)]] rc u8_succ [OF P(8) [OF fr]] by (simp add: decref_def Let_def s4_def)
    moreover have "copy_post old new a 1 0 s s4"
      by (rule post [where n = 0]) (use r in \<open>simp_all add: s4_def\<close>)
    moreover have "free_mem s4 = {}" using r free_mem_cong [of s4 s3] by (simp add: s4_def)
    ultimately show ?thesis using w slot tb(2) s2(1) s3(1) r by auto
  qed
qed

section \<open>The loop\<close>

text \<open>The rest of the range is untouched after one page, so the loop can go on.\<close>

lemma copy_rest_live:
  assumes pre: "copy_pre old new a (Suc k) s" and A: "copy_post old new a 1 n s s1"
    and a: "aligned a 0" "unat (a + PGSIZE) = unat a + 4096" and n: "n \<le> 1" and q: "q \<in> frames (phys s) old (a + PGSIZE) k"
  shows "live s1 q" "refcount s1 (pa2index q) = refcount s (pa2index q)"
proof -
  note P = copy_preD [OF pre] and A = copy_postD [OF A]
  have lq: "live s q" using q leaves_okD(2) [OF P(5)] in_pages_Suc [OF a(2)] unfolding frames_def by blast
  have u: "q \<in> usable s" "q \<notin> free_mem s" using lq page_of_self [of q] unfolding live_def in_use_def by blast+
  have sub: "frames (phys s) old a n \<subseteq> frames (phys s) old a 1" using n unfolding frames_def in_pages_def by fastforce
  have "\<not> (\<exists>p \<in> frames (phys s) old a n. q \<in> page_of p)"
    using frames_apart(1) [OF P(5) a(2,1) _ q] page_of_self [of q] sub by blast
  then show rc: "refcount s1 (pa2index q) = refcount s (pa2index q)" using A(11) [OF u] by simp
  then show "live s1 q" using lq A(4,5) by (auto simp: live_def in_use_def usable_def)
qed

lemma copy_pre_rest:
  assumes pre: "copy_pre old new a (Suc k) s" and post: "copy_post old new a 1 1 s s1"
    and a: "aligned a 0" "unat (a + PGSIZE) = unat a + 4096"
  shows "copy_pre old new (a + PGSIZE) k s1" "frames (phys s1) old (a + PGSIZE) k = frames (phys s) old (a + PGSIZE) k"
proof -
  note P = copy_preD [OF pre] and A = copy_postD [OF post]
  note R = copy_rest_live [OF pre post a order_refl]
  have sub: "in_pages v a (Suc k)" if "in_pages v (a + PGSIZE) k" for v using in_pages_Suc [OF a(2)] that by blast
  have same: "pte_of (phys s1) old v = pte_of (phys s) old v" if "v < MAXVA" "in_pages v (a + PGSIZE) k" for v
    using A(9) [OF that(1)] in_pages_apart [OF a(2) that(2)] by simp
  show fr: "frames (phys s1) old (a + PGSIZE) k = frames (phys s) old (a + PGSIZE) k" by (rule frames_cong [OF same])
  have "leaves_ok s1 old (a + PGSIZE) k" by (rule leaves_ok_mono [OF P(5) sub same A(6) R(1)])
  moreover have "unmapped (phys s1) new (a + PGSIZE) k"
    using P(6) A(10) in_pages_apart [OF a(2)] a(2) unfolding unmapped_def in_pages_def by auto
  moreover have "q \<notin> tables (phys s1) new \<and> refcount s1 (pa2index q) < 255" if q: "q \<in> frames (phys s) old (a + PGSIZE) k" for q
  proof -
    have w: "q \<in> frames (phys s) old a (Suc k)" using q frames_Suc [OF a(2)] by blast
    then have "live s q" using leaves_okD(2) [OF P(5)] unfolding frames_def by blast
    then have "\<not> page_of q \<subseteq> free_mem s" using page_of_self [of q] unfolding live_def in_use_def by blast
    then show ?thesis using A(8) [of q] P(7,8) [OF w] R(2) [OF q] by auto
  qed
  ultimately show "copy_pre old new (a + PGSIZE) k s1" unfolding copy_pre_def using A(1-3,6,7) fr by simp
qed

lemma copy_post_trans:
  assumes pre: "copy_pre old new a (Suc k) s" and post: "copy_post old new a 1 1 s s1"
    and rest: "copy_post old new (a + PGSIZE) ko kn s1 s2" and k: "ko \<le> k" "kn \<le> k"
    and a: "aligned a 0" "unat (a + PGSIZE) = unat a + 4096"
  shows "copy_post old new a (Suc ko) (Suc kn) s s2"
proof -
  note P = copy_preD [OF pre] and A = copy_postD [OF post] and B = copy_postD [OF rest]
  have same: "pte_of (phys s1) old v = pte_of (phys s) old v" if "v < MAXVA" "\<not> in_pages v a 1" for v
    using A(9) [OF that(1)] that(2) by simp
  have ap: "\<not> in_pages v a 1" if "in_pages v (a + PGSIZE) j" for v j using in_pages_apart [OF a(2) that] .
  have fr: "frames (phys s1) old (a + PGSIZE) kn = frames (phys s) old (a + PGSIZE) kn" 
    by (rule frames_cong [OF same]) (use ap in blast)+
  have fs: "frames (phys s) old a (Suc kn) = frames (phys s) old a 1 \<union> frames (phys s) old (a + PGSIZE) kn"
    by (rule frames_Suc [OF a(2)])
  have sub: "frames (phys s) old (a + PGSIZE) kn \<subseteq> frames (phys s) old (a + PGSIZE) k"
    using k(2) unfolding frames_def in_pages_def by fastforce
  have one: "\<not> ((\<exists>p \<in> frames (phys s) old a 1. x \<in> page_of p) \<and> (\<exists>q \<in> frames (phys s) old (a + PGSIZE) kn. x \<in> page_of q))" for x
    using frames_apart(1) [OF P(5) a(2,1)] sub by blast
  have rc: "refcount s2 (pa2index x) = refcount s (pa2index x) +
      (if \<exists>q \<in> frames (phys s) old a (Suc kn). x \<in> page_of q then 1 else 0)" if "x \<in> usable s" "x \<notin> free_mem s" for x
  proof -
    have "x \<in> usable s1" "x \<notin> free_mem s1" using that A(4,5) by (auto simp: usable_def)
    then show ?thesis using A(11) [OF that] B(11) [of x] one [of x] unfolding fr fs bex_Un by auto
  qed
  have po: "pte_of (phys s2) old v = (if in_pages v a (Suc ko) \<and> bit (pte_of (phys s) old v) 0 then cow_share (pte_of (phys s) old v) else pte_of (phys s) old v)"
    if "v < MAXVA" for v
    using A(9) [OF that] B(9) [OF that] in_pages_Suc [OF a(2), of v ko] ap [of v ko] by (cases "in_pages v a 1") auto
  have pn: "pte_of (phys s2) new v = (if in_pages v a (Suc kn) \<and> bit (pte_of (phys s) old v) 0 then cow_share (pte_of (phys s) old v) else pte_of (phys s) new v)"
    if "v < MAXVA" for v
    using A(9,10) [OF that] B(10) [OF that] in_pages_Suc [OF a(2), of v kn] ap [of v kn] by (cases "in_pages v a 1") auto
  have "phys s2 x = phys s x" if x: "x \<notin> free_mem s" "\<forall>t \<in> tables (phys s) old \<union> tables (phys s) new. x \<notin> page_of t" for x
  proof -
    have "\<forall>t \<in> tables (phys s1) old \<union> tables (phys s1) new. x \<notin> page_of t" using x A(6,8) by blast
    then show ?thesis using A(12) [OF x] A(5) B(12) [of x] x(1) by auto
  qed
  moreover have "t \<in> tables (phys s) new \<or> page_of t \<subseteq> free_mem s" if "t \<in> tables (phys s2) new" for t
    using B(8) [OF that] A(5,8) by blast
  ultimately show ?thesis unfolding copy_post_def
    using rc po pn A(4-6) B(1-7) by (intro conjI allI impI ballI) (simp_all, blast?)
qed

lemma copy_step:
  assumes pre: "copy_pre old new a (Suc k) s" and a: "aligned a 0" "unat a + 4096 \<le> 2 ^ 38" "a < sz"
  shows "(\<exists>s1. copy_loop old new a sz s = copy_loop old new (a + PGSIZE) sz s1 \<and> copy_post old new a 1 1 s s1) \<or>
    (\<exists>s1. copy_loop old new a sz s = Ret (- 1, a, s1) \<and> free_mem s1 = {} \<and> copy_post old new a 1 0 s s1)"
proof -
  let ?e = "pte_of (phys s) old a"
  have va: "a < MAXVA" using a(2) unat_MAXVA by (simp add: word_less_nat_alt)
  then have nv: "\<not> MAXVA \<le> a" by simp
  show ?thesis
  proof (cases "bit ?e 0")
    case True
    from share_page [OF pre va a(1,2) refl True] obtain pte s2 r s3 where
      S: "walk old a False s = Ret (pte, s)" "pte \<noteq> 0" "get_pte s pte = ?e" "incref (PTE2PA ?e) (set_pte pte (cow_share ?e) s) = Ret s2"
        "mappages new a PGSIZE (PTE2PA ?e) (cow_flags ?e) s2 = Ret (r, s3)"
        "r = 0 \<and> copy_post old new a 1 1 s s3 \<or>
         r = - 1 \<and> (\<exists>z s4. decref (PTE2PA ?e) s3 = Ret (z, s4) \<and> free_mem s4 = {} \<and> copy_post old new a 1 0 s s4)" by blast
    have "?e AND PTE_V \<noteq> 0" using True by (simp add: and_PTE_eq_0)
    then have "copy_loop old new a sz s =
        (if r \<noteq> 0 then kbind (decref (PTE2PA ?e) s3) (\<lambda>r. case r of (_, s4) \<Rightarrow> Ret (- 1, a, s4))
         else copy_loop old new (a + PGSIZE) sz s3)"
      using S(1-5) a(3) by (subst copy_loop.simps) (simp add: Let_def cow_share_def cow_flags_def)
    then show ?thesis using S(6) by auto
  next
    case False
    have "copy_loop old new a sz s = copy_loop old new (a + PGSIZE) sz s"
    proof (cases "tbl (phys s) old 2 a")
      case None
      then show ?thesis using nv a(3) by (subst copy_loop.simps) (simp add: walk_def walk_loop_noalloc)
    next
      case (Some tb)
      then have "get_pte s (pte_slot tb 0 a) AND PTE_V = 0" using False by (simp add: pte_of_def and_PTE_eq_0)
      then show ?thesis using Some nv a(3) by (subst copy_loop.simps) (simp add: walk_def walk_loop_noalloc)
    qed
    then show ?thesis using copy_post_refl [OF pre False a(1)] by blast
  qed
qed

lemma copy_loop_spec:
  assumes "copy_pre old new a n s" "aligned a 0" "unat a + n * 4096 \<le> 2 ^ 38"
    and "unat sz \<le> unat a + n * 4096" "unat a + n * 4096 < unat sz + 4096"
  shows "\<exists>r i s'. copy_loop old new a sz s = Ret (r, i, s') \<and>
    (r = 0 \<and> copy_post old new a n n s s' \<or>
     r = - 1 \<and> (\<exists>k < n. i = a + of_nat k * PGSIZE \<and> free_mem s' = {} \<and> copy_post old new a (Suc k) k s s'))"
  using assms
proof (induction n arbitrary: a s)
  case 0
  then have "\<not> a < sz" by (simp add: word_less_nat_alt)
  moreover have "copy_post old new a 0 0 s s" using 0(1) by (auto simp: copy_pre_def copy_post_def frames_def)
  ultimately show ?case by (subst copy_loop.simps) simp
next
  case (Suc n)
  have lt: "a < sz" using Suc.prems(4,5) by (simp add: word_less_nat_alt)
  have np: "unat (a + PGSIZE) = unat a + 4096" "aligned (a + PGSIZE) 0"
    using next_page [OF Suc.prems(2)] Suc.prems(3) by auto
  have "unat a + 4096 \<le> 2 ^ 38" using Suc.prems(3) by simp
  from copy_step [OF Suc.prems(1,2) this lt] show ?case
  proof (elim disjE exE conjE)
    fix s1 assume l: "copy_loop old new a sz s = copy_loop old new (a + PGSIZE) sz s1" and p: "copy_post old new a 1 1 s s1"
    from Suc.IH [OF copy_pre_rest(1) [OF Suc.prems(1) p Suc.prems(2) np(1)] np(2)] obtain r i s' where
      R: "copy_loop old new (a + PGSIZE) sz s1 = Ret (r, i, s')"
       "r = 0 \<and> copy_post old new (a + PGSIZE) n n s1 s' \<or>
        r = - 1 \<and> (\<exists>k < n. i = a + PGSIZE + of_nat k * PGSIZE \<and> free_mem s' = {} \<and> copy_post old new (a + PGSIZE) (Suc k) k s1 s')"
      using Suc.prems(3-5) np(1) by auto
    note T = copy_post_trans [OF Suc.prems(1) p _ _ _ Suc.prems(2) np(1)]
    from R(2) show ?case
    proof (elim disjE exE conjE)
      assume "r = 0" "copy_post old new (a + PGSIZE) n n s1 s'"
      then show ?case using T R(1) l by auto
    next
      fix k assume k: "r = - 1" "k < n" "i = a + PGSIZE + of_nat k * PGSIZE" "free_mem s' = {}" "copy_post old new (a + PGSIZE) (Suc k) k s1 s'"
      have "copy_post old new a (Suc (Suc k)) (Suc k) s s'" using T [OF k(5)] k(2) by simp
      moreover have "i = a + of_nat (Suc k) * PGSIZE" using k(3) by (simp add: algebra_simps)
      ultimately show ?case using R(1) l k(1,2,4) by (auto intro!: exI [of _ "Suc k"])
    qed
  next
    fix s1 assume "copy_loop old new a sz s = Ret (- 1, a, s1)" "free_mem s1 = {}" "copy_post old new a 1 0 s s1"
    then show ?case by (auto intro!: exI [of _ 0])
  qed
qed

section \<open>Giving up\<close>

text \<open>Unmapping what the child got, when the tables of the child could not be built.\<close>

lemma child_leaves_ok:
  assumes pre: "copy_pre old new a n s" and post: "copy_post old new a (Suc k) k s s1" and k: "k < n"
  shows "leaves_ok s1 new a k" "frames (phys s1) new a k = frames (phys s) old a k"
    "\<And>q. q \<in> frames (phys s) old a k \<Longrightarrow> live s q \<and> q \<notin> tables (phys s) old \<and> q \<notin> tables (phys s1) new \<and>
       refcount s1 (pa2index q) = refcount s (pa2index q) + 1 \<and> refcount s (pa2index q) < 255"
proof -
  note P = copy_preD [OF pre] and A = copy_postD [OF post]
  have sub: "in_pages v a n" if "in_pages v a k" for v using that k unfolding in_pages_def by fastforce
  have fsub: "frames (phys s) old a k \<subseteq> frames (phys s) old a n" using sub unfolding frames_def by blast
  have um: "\<not> bit (pte_of (phys s) new v) 0" if "v < MAXVA" "in_pages v a k" for v
    using P(6) sub [OF that(2)] that(1) unfolding unmapped_def in_pages_def by blast
  have val: "bit (pte_of (phys s1) new v) 0 = bit (pte_of (phys s) old v) 0" if "v < MAXVA" "in_pages v a k" for v
    using A(10) [OF that(1)] that(2) um [OF that] by (auto simp: cow_share_bits)
  have cp: "pte_of (phys s1) new v = cow_share (pte_of (phys s) old v)" if "v < MAXVA" "in_pages v a k" "bit (pte_of (phys s) old v) 0" for v
    using A(10) [OF that(1)] that(2,3) by simp
  show fr: "frames (phys s1) new a k = frames (phys s) old a k"
  proof (intro equalityI subsetI)
    fix q assume "q \<in> frames (phys s1) new a k"
    then obtain v where v: "v < MAXVA" "bit (pte_of (phys s1) new v) 0" "in_pages v a k" "q = PTE2PA (pte_of (phys s1) new v)"
      unfolding frames_def by blast
    then have "q = PTE2PA (pte_of (phys s) old v)" "bit (pte_of (phys s) old v) 0" using val [OF v(1,3)] cp [OF v(1,3)] by (simp_all add: cow_share_bits)
    then show "q \<in> frames (phys s) old a k" using v(1,3) unfolding frames_def by blast
  next
    fix q assume "q \<in> frames (phys s) old a k"
    then obtain v where v: "v < MAXVA" "bit (pte_of (phys s) old v) 0" "in_pages v a k" "q = PTE2PA (pte_of (phys s) old v)"
      unfolding frames_def by blast
    then have "q = PTE2PA (pte_of (phys s1) new v)" "bit (pte_of (phys s1) new v) 0" using cp [OF v(1,3,2)] by (simp_all add: cow_share_bits)
    then show "q \<in> frames (phys s1) new a k" using v(1,3) unfolding frames_def by blast
  qed
  show F: "live s q \<and> q \<notin> tables (phys s) old \<and> q \<notin> tables (phys s1) new \<and>
       refcount s1 (pa2index q) = refcount s (pa2index q) + 1 \<and> refcount s (pa2index q) < 255"
    if q: "q \<in> frames (phys s) old a k" for q
  proof -
    have w: "q \<in> frames (phys s) old a n" using q fsub by blast
    then have L: "live s q" "q \<notin> tables (phys s) old" using leaves_okD(2,3) [OF P(5)] unfolding frames_def by blast+
    then have u: "q \<in> usable s" "q \<notin> free_mem s" using page_of_self [of q] unfolding live_def in_use_def by blast+
    have "\<not> page_of q \<subseteq> free_mem s" using u page_of_self [of q] by blast
    then have "q \<notin> tables (phys s1) new" using A(8) [of q] P(7) [OF w] by blast
    moreover have "\<exists>p \<in> frames (phys s) old a k. q \<in> page_of p" using q page_of_self [of q] by blast
    then have "refcount s1 (pa2index q) = refcount s (pa2index q) + 1" using A(11) [OF u] by simp
    ultimately show ?thesis using L P(8) [OF w] by blast
  qed
  have lv: "live s1 q" if q: "q \<in> frames (phys s) old a k" for q
  proof -
    have "0 < refcount s1 (pa2index q)" using F [OF q] u8_succ by (simp add: word_gt_0)
    then show ?thesis using F [OF q] A(4,5) by (auto simp: live_def in_use_def usable_def)
  qed
  show "leaves_ok s1 new a k"
    unfolding leaves_ok_def
  proof (intro allI impI)
    fix v assume v: "v < MAXVA" "in_pages v a k \<and> bit (pte_of (phys s1) new v) 0"
    then have b: "bit (pte_of (phys s) old v) 0" using val by blast
    have e: "pte_of (phys s1) new v = cow_share (pte_of (phys s) old v)" using cp v b by blast
    have q: "PTE2PA (pte_of (phys s) old v) \<in> frames (phys s) old a k" using v b unfolding frames_def by blast
    have "PTE_FLAGS (cow_share (pte_of (phys s) old v)) \<noteq> PTE_V"
    proof
      assume "PTE_FLAGS (cow_share (pte_of (phys s) old v)) = PTE_V"
      then have "bit (PTE_FLAGS (cow_share (pte_of (phys s) old v))) 8 = bit (1 :: u64) 8" by simp
      then show False using cow_share_bits(4) [of "pte_of (phys s) old v"] by (simp add: PTE_FLAGS_bits bit_take_bit_iff and_PTE_eq_0)
    qed
    moreover have "vpn v = vpn v'" if v': "v' < MAXVA" "in_pages v' a k" "bit (pte_of (phys s1) new v') 0"
      "PTE2PA (pte_of (phys s1) new v') = PTE2PA (pte_of (phys s1) new v)" for v'
    proof -
      have b': "bit (pte_of (phys s) old v') 0" using val v' by blast
      then have "PTE2PA (pte_of (phys s) old v') = PTE2PA (pte_of (phys s) old v)"
        using v'(4) e cp [OF v'(1,2) b'] by (simp add: cow_share_bits)
      then show ?thesis using leaves_okD(4) [OF P(5) v(1) _ b v'(1) _ b'] sub v(2) v'(2) by blast
    qed
    ultimately show "PTE_FLAGS (pte_of (phys s1) new v) \<noteq> PTE_V \<and> live s1 (PTE2PA (pte_of (phys s1) new v)) \<and>
        PTE2PA (pte_of (phys s1) new v) \<notin> tables (phys s1) new \<and>
        (\<forall>va' < MAXVA. in_pages va' a k \<and> bit (pte_of (phys s1) new va') 0 \<and>
           PTE2PA (pte_of (phys s1) new va') = PTE2PA (pte_of (phys s1) new v) \<longrightarrow> vpn v = vpn va')"
      using F [OF q] lv [OF q] unfolding e cow_share_bits(1) by blast
  qed
qed

lemma unmap_keeps_other:
  assumes U: "unmap_post new a k F s1 s2" and wf: "pt_wf s1 old" and dis: "tables (phys s1) old \<inter> tables (phys s1) new = {}"
    and F: "\<And>q. q \<in> F \<Longrightarrow> aligned q 0 \<and> q \<notin> tables (phys s1) old" and wn: "pt_wf s1 new" and inv: "kmem_inv s1"
  shows "pt_wf s2 old" "tables (phys s2) old = tables (phys s1) old" "\<And>v. v < MAXVA \<Longrightarrow> pte_of (phys s2) old v = pte_of (phys s1) old v"
proof -
  note U' = unmap_postD [OF U]
  have ap: "page_of t \<inter> page_of q = {}" if "t \<in> tables (phys s1) old" "q \<in> F \<union> tables (phys s1) new" for t q
  proof (rule page_of_disjoint)
    show "aligned t 0" by (rule pt_wf_aligned [OF wf that(1)])
    show "aligned q 0" using that(2) F pt_wf_aligned [OF wn] by blast
    show "t \<noteq> q" using that F dis by blast
  qed
  have mem: "phys s2 x = phys s1 x" if "t \<in> tables (phys s1) old" "x \<in> page_of t" for t x
    using U'(8) [of x] ap [OF that(1)] that(2) by blast
  have lv: "live s2 t" if "t \<in> tables (phys s1) old" "live s1 t" for t
    using unmap_post_live [OF U inv that(2)] ap [OF that(1)] by blast
  show "pt_wf s2 old" by (rule pt_keep(1) [OF wf mem lv])
  show "tables (phys s2) old = tables (phys s1) old" by (rule pt_keep(2) [OF wf mem lv])
  show "\<And>v. v < MAXVA \<Longrightarrow> pte_of (phys s2) old v = pte_of (phys s1) old v" by (rule pt_keep(3) [OF wf mem lv])
qed

lemma page_count: "k * 4096 < 2 ^ 64 \<Longrightarrow> (of_nat k * PGSIZE) div PGSIZE = of_nat k"
  by (simp add: word_unat_eq_iff unat_div unat_page_size unat_of_nat) (simp add: PGSIZE_def)

lemma undo_post:
  assumes pre: "copy_pre old new a n s" and post: "copy_post old new a (Suc k) k s s1" and k: "k < n"
    and U: "unmap_post new a k (frames (phys s) old a k) s1 s2" and empty: "free_mem s1 = {}"
  shows "kmem_inv s2 \<and> pt_wf s2 old \<and> pt_wf s2 new \<and> free_mem s2 = {} \<and>
    (\<forall>v < MAXVA. pte_of (phys s2) old v = (if in_pages v a (Suc k) \<and> bit (pte_of (phys s) old v) 0 then cow_share (pte_of (phys s) old v) else pte_of (phys s) old v)) \<and>
    (\<forall>v < MAXVA. pte_of (phys s2) new v = (if in_pages v a k \<and> bit (pte_of (phys s) old v) 0 then 0 else pte_of (phys s) new v)) \<and>
    (\<forall>x \<in> usable s - free_mem s. refcount s2 (pa2index x) = refcount s (pa2index x)) \<and>
    (\<forall>x. x \<notin> free_mem s \<longrightarrow> (\<forall>t \<in> tables (phys s) old \<union> tables (phys s) new. x \<notin> page_of t) \<longrightarrow> phys s2 x = phys s x)"
proof -
  note P = copy_preD [OF pre] and A = copy_postD [OF post] and C = child_leaves_ok [OF pre post k] and V = unmap_postD [OF U]
  have F: "aligned q 0 \<and> q \<notin> tables (phys s1) old" if "q \<in> frames (phys s) old a k" for q
    using C(3) [OF that] A(6) by (simp add: live_def in_use_def)
  have "tables (phys s1) old \<inter> tables (phys s1) new = {}" using A(6,7) by simp
  note W = unmap_keeps_other [OF U A(2) this F A(3,1)]
  have n1: "refcount s1 (pa2index q) \<noteq> 1" if "q \<in> frames (phys s) old a k" for q
    using C(3) [OF that] by (auto simp: live_def)
  have us: "usable s1 = usable s" using A(4) by (simp add: usable_def)
  have pn: "pte_of (phys s2) new v = (if in_pages v a k \<and> bit (pte_of (phys s) old v) 0 then 0 else pte_of (phys s) new v)"
    if "v < MAXVA" for v
  proof -
    have "\<not> bit (pte_of (phys s) new v) 0" if "in_pages v a k"
      using P(6) \<open>v < MAXVA\<close> that k unfolding unmapped_def in_pages_def by fastforce
    then show ?thesis using V(5) [OF that] A(10) [OF that] by (auto simp: cow_share_bits)
  qed
  have rc: "refcount s2 (pa2index x) = refcount s (pa2index x)" if "x \<in> usable s" "x \<notin> free_mem s" for x
    using V(6) [of x] A(11) [OF that] that us by simp
  have "phys s2 x = phys s x" if x: "x \<notin> free_mem s" "\<forall>t \<in> tables (phys s) old \<union> tables (phys s) new. x \<notin> page_of t" for x
  proof -
    have "\<forall>t \<in> tables (phys s1) new. x \<notin> page_of t" using x A(8) by blast
    then show ?thesis using V(8) [of x] n1 A(12) [OF x] by auto
  qed
  moreover have "free_mem s2 = {}" using V(7) empty n1 by auto
  ultimately show ?thesis using V(1,2) W(1,3) A(9) pn rc by (intro conjI allI impI ballI) simp_all
qed

lemma uvmcopy_spec:
  assumes pre: "copy_pre old new 0 n s" and sz: "unat sz \<le> n * 4096" "n * 4096 < unat sz + 4096" "n * 4096 \<le> 2 ^ 38"
  shows "(\<exists>s'. uvmcopy old new sz s = Ret (0, s') \<and> copy_post old new 0 n n s s') \<or>
    (\<exists>k s1 s'. uvmcopy old new sz s = Ret (- 1, s') \<and> k < n \<and> copy_post old new 0 (Suc k) k s s1 \<and> free_mem s1 = {} \<and>
       unmap_post new 0 k (frames (phys s) old 0 k) s1 s')"
proof -
  have al: "aligned (0 :: u64) 0" by (simp add: aligned_def)
  obtain r i s1 where R: "copy_loop old new 0 sz s = Ret (r, i, s1)"
    "r = 0 \<and> copy_post old new 0 n n s s1 \<or>
     r = - 1 \<and> (\<exists>k < n. i = 0 + of_nat k * PGSIZE \<and> free_mem s1 = {} \<and> copy_post old new 0 (Suc k) k s s1)"
    using copy_loop_spec [OF pre al, of sz] sz by auto
  from R(2) show ?thesis
  proof (elim disjE exE conjE)
    assume "r = 0" "copy_post old new 0 n n s s1"
    then show ?thesis using R(1) by (simp add: uvmcopy_def)
  next
    fix k assume k: "r = - 1" "k < n" "i = 0 + of_nat k * PGSIZE" "free_mem s1 = {}" "copy_post old new 0 (Suc k) k s s1"
    note C = child_leaves_ok [OF pre k(5,2)] and A = copy_postD [OF k(5)]
    have d: "i div PGSIZE = of_nat k" using page_count [of k] k(2,3) sz(3) by simp
    obtain s2 where "uvmunmap new 0 (of_nat k) True s1 = Ret s2" "unmap_post new 0 k (frames (phys s1) new 0 k) s1 s2"
      using uvmunmap_spec [OF A(1,3) al _ C(1)] k(2) sz(3) by auto
    then show ?thesis using R(1) k d C(2) by (auto simp: uvmcopy_def)
  qed
qed

section \<open>A fresh child\<close>

text \<open>\<open>fork\<close> copies into the page table that \<open>uvmcreate\<close> has just made.\<close>

lemma fresh_child:
  assumes inv: "kmem_inv s" "pt_wf s old" and ok: "leaves_ok s old 0 n"
    and rc: "\<And>q. q \<in> frames (phys s) old 0 n \<Longrightarrow> refcount s (pa2index q) < 255"
    and u: "uvmcreate s = (new, s')" "new \<noteq> 0"
  shows "copy_pre old new 0 n s'"
proof -
  obtain s1 where k: "kalloc s = (new, s1)" and s': "s' = zero_page new s1"
    using u by (auto simp: uvmcreate_def split: prod.splits if_splits)
  have ka: "aligned new 0" "\<And>x. x \<notin> page_of new \<Longrightarrow> phys s1 x = phys s x"
    using kalloc_spec [OF inv(1) k] u(2) by (auto simp: in_use_def)
  have m: "\<forall>x. x \<notin> page_of new \<longrightarrow> phys s' x = phys s x"
    using ka by (simp add: s' zero_page_def memset_eq page_of_range [OF ka(1), symmetric])
  have "s' = s1\<lparr>phys := phys s'\<rparr>" by (simp add: s' zero_page_def)
  note F = fresh_page [OF inv k u(2) this m] and U = uvmcreate_spec [OF inv(1) u]
  have apart: "page_of q \<inter> page_of new = {}" "q \<in> usable s" "q \<noteq> new" if "live s q" for q
    using F(12) [OF that] page_of_self [of q] in_use_usable [of s q] that unfolding live_def by blast+
  have new_us: "new \<in> usable s" using F(4) page_of_self [of new] inv(1) unfolding kmem_inv_def kmem_wf_def by blast
  have fr: "frames (phys s') old 0 n = frames (phys s) old 0 n" by (rule frames_cong [OF F(10)])
  have lv: "live s q" if "q \<in> frames (phys s) old 0 n" for q using that leaves_okD(2) [OF ok] unfolding frames_def by blast
  have "q \<notin> tables (phys s') new \<and> refcount s' (pa2index q) < 255" if q: "q \<in> frames (phys s) old 0 n" for q
  proof -
    have "pa2index q \<noteq> pa2index new"
      using pa2index_usable [of s q new] apart [OF lv [OF q]] inv(1) new_us page_of_self [of new] unfolding kmem_inv_def by blast
    then show ?thesis using F(5) rc [OF q] apart(3) [OF lv [OF q]] U by simp
  qed
  moreover have "leaves_ok s' old 0 n" by (rule leaves_ok_mono [OF ok _ F(10) F(8) F(11)])
  moreover have "tables (phys s') old \<inter> tables (phys s') new = {}"
    using inv(2) apart(3) F(8) U by (auto simp: pt_wf_def)
  ultimately show ?thesis using F(2) U fr by (simp add: copy_pre_def unmapped_def)
qed

text \<open>
  C30. \<open>uvmcopy\<close>, which gives a forked child the memory of its parent, always returns. If it
  returns 0, every page of the parent's \<open>n\<close> pages that was present is now mapped at the same
  address in both page tables, by the same entry: the frame is the old one and the user bit is as
  before, but neither process may write it, and both are marked copy-on-write. Every shared frame
  has one more reference and no other count has changed. If it returns -1, memory is exhausted:
  no page of the range is mapped in the child, all reference counts are the ones before the call, and the
  parent has at most had pages marked copy-on-write. In both cases the translation outside the range,
  and every page in use other than the two processes' page-table pages, is unchanged.
\<close>

theorem uvmcopy_correct:
  assumes "copy_pre old new 0 n s" and "unat sz \<le> n * 4096" "n * 4096 < unat sz + 4096" "n * 4096 \<le> 2 ^ 38"
  shows "\<exists>r s'. uvmcopy old new sz s = Ret (r, s') \<and> kmem_inv s' \<and> pt_wf s' old \<and> pt_wf s' new \<and>
    (\<forall>v < MAXVA. \<not> (in_pages v 0 n \<and> bit (pte_of (phys s) old v) 0) \<longrightarrow>
       pte_of (phys s') old v = pte_of (phys s) old v \<and> pte_of (phys s') new v = pte_of (phys s) new v) \<and>
    (\<forall>x. x \<notin> free_mem s \<longrightarrow> (\<forall>t \<in> tables (phys s) old \<union> tables (phys s) new. x \<notin> page_of t) \<longrightarrow> phys s' x = phys s x) \<and>
    (r = 0 \<and>
     (\<forall>v < MAXVA. in_pages v 0 n \<and> bit (pte_of (phys s) old v) 0 \<longrightarrow>
        (let e = pte_of (phys s) old v; e' = pte_of (phys s') old v
         in pte_of (phys s') new v = e' \<and> bit e' 0 \<and> PTE2PA e' = PTE2PA e \<and> e' AND PTE_U = e AND PTE_U \<and>
            e' AND PTE_W = 0 \<and> e' AND PTE_COW \<noteq> 0)) \<and>
     (\<forall>x \<in> usable s - free_mem s. refcount s' (pa2index x) =
        refcount s (pa2index x) + (if \<exists>q \<in> frames (phys s) old 0 n. x \<in> page_of q then 1 else 0)) \<or>
     r = - 1 \<and> free_mem s' = {} \<and>
     (\<forall>v < MAXVA. in_pages v 0 n \<longrightarrow> \<not> bit (pte_of (phys s') new v) 0) \<and>
     (\<forall>v < MAXVA. pte_of (phys s') old v = pte_of (phys s) old v \<or> pte_of (phys s') old v = cow_share (pte_of (phys s) old v)) \<and>
     (\<forall>x \<in> usable s - free_mem s. refcount s' (pa2index x) = refcount s (pa2index x)))"
  using uvmcopy_spec [OF assms]
proof (elim disjE exE conjE)
  fix s' assume u: "uvmcopy old new sz s = Ret (0, s')" and p: "copy_post old new 0 n n s s'"
  note A = copy_postD [OF p]
  show ?thesis
    by (rule exI [of _ 0], rule exI [of _ s']) (use u A(1-3) in \<open>simp add: A(9-12) cow_share_bits Let_def\<close>)
next
  fix k s1 s' assume u: "uvmcopy old new sz s = Ret (- 1, s')" and k: "k < n" and p: "copy_post old new 0 (Suc k) k s s1"
    and e: "free_mem s1 = {}" and U: "unmap_post new 0 k (frames (phys s) old 0 k) s1 s'"
  note R = undo_post [OF assms(1) p k U e]
  have sub: "in_pages v 0 n" if "in_pages v 0 (Suc k)" for v using that k unfolding in_pages_def by fastforce
  have sub': "in_pages v 0 n" if "in_pages v 0 k" for v using that k unfolding in_pages_def by fastforce
  have um: "\<not> bit (pte_of (phys s) new v) 0" if "v < MAXVA" "in_pages v 0 n" for v
    using copy_preD(6) [OF assms(1)] that unfolding unmapped_def in_pages_def by blast
  show ?thesis
    by (rule exI [of _ "- 1"], rule exI [of _ s']) (use u R sub sub' um in auto)
qed

lemma user_entry:
  "pte_of (phys user_km) 0x80400000 va =
     (if PX 2 va = 0 \<and> PX 1 va = 0 \<and> PX 0 va = 1 then PA2PTE 0x80403000 OR (PTE_R OR PTE_W OR PTE_U OR PTE_V) else 0)"
  by (simp add: user_km_def pte_of_def user_tbl(2) user_slot del: tbl.simps)

lemma PX_vpn: "vpn va = vpn va' \<Longrightarrow> PX l va = PX l va'"
  by (metis (no_types) PX_def PXSHIFT_def add.commute drop_bit_drop_bit)

lemma user_first_pages: "in_pages va 0 2 \<Longrightarrow> PX 0 va = 1 \<Longrightarrow> vpn va = vpn 0x1000"
proof (rule ccontr)
  assume v: "in_pages va 0 2" "PX 0 va = 1" "vpn va \<noteq> vpn 0x1000"
  then have "unat va < 4096" using vpn_eq_iff [of "0x1000" va] by (simp add: in_pages_def aligned_unat)
  then have "vpn va = vpn 0" using vpn_eq_iff [of 0 va] by (simp add: aligned_unat)
  then have "PX 0 va = PX 0 0" by (rule PX_vpn)
  then show False using v(2) by (simp add: PX_def)
qed

lemma user_leaves: "leaves_ok user_km 0x80400000 0 2"
  unfolding leaves_ok_def
proof (intro allI impI)
  fix va assume va: "va < MAXVA" "in_pages va 0 2 \<and> bit (pte_of (phys user_km) 0x80400000 va) 0"
  then have e: "PX 0 va = 1" "pte_of (phys user_km) 0x80400000 va = PA2PTE 0x80403000 OR (PTE_R OR PTE_W OR PTE_U OR PTE_V)"
    by (simp_all add: user_entry split: if_splits)
  have "bit (PTE_FLAGS (PA2PTE 0x80403000 OR (PTE_R OR PTE_W OR PTE_U OR PTE_V))) 1" unfolding PTE_FLAGS_bits bit_take_bit_iff new_entry by simp
  then have "PTE_FLAGS (PA2PTE 0x80403000 OR (PTE_R OR PTE_W OR PTE_U OR PTE_V)) \<noteq> PTE_V" by auto
  moreover have "vpn va = vpn va'" if "in_pages va' 0 2" "bit (pte_of (phys user_km) 0x80400000 va') 0" for va'
    using that user_first_pages [of va] user_first_pages [of va'] va(2) e(1) by (simp add: user_entry split: if_splits)
  ultimately show "PTE_FLAGS (pte_of (phys user_km) 0x80400000 va) \<noteq> PTE_V \<and> live user_km (PTE2PA (pte_of (phys user_km) 0x80400000 va)) \<and>
      PTE2PA (pte_of (phys user_km) 0x80400000 va) \<notin> tables (phys user_km) 0x80400000 \<and>
      (\<forall>va' < MAXVA. in_pages va' 0 2 \<and> bit (pte_of (phys user_km) 0x80400000 va') 0 \<and>
        PTE2PA (pte_of (phys user_km) 0x80400000 va') = PTE2PA (pte_of (phys user_km) 0x80400000 va) \<longrightarrow> vpn va = vpn va')"
    unfolding e(2) new_entry(4) using user_page_live user_tables by blast
qed

theorem uvmcopy_correct_witness:
  "\<exists>r s'. uvmcopy 0x80400000 (fst (uvmcreate user_km)) 0x1800 (snd (uvmcreate user_km)) = Ret (r, s') \<and> kmem_inv s'"
proof -
  have "0x80404000 \<in> free_mem user_km" using block_interval [OF user_aligned(1), of "0x80404000"] by (simp add: user_free)
  then have "fst (kalloc user_km) \<noteq> 0" using kalloc_spec [OF user_inv, of "fst (kalloc user_km)"] by (metis empty_iff prod.collapse)
  then have "fst (uvmcreate user_km) \<noteq> 0" by (cases "kalloc user_km") (simp add: uvmcreate_def)
  moreover have "refcount user_km (pa2index q) < 255" for q by (simp add: user_km_def)
  ultimately have "copy_pre 0x80400000 (fst (uvmcreate user_km)) 0 2 (snd (uvmcreate user_km))"
    by (intro fresh_child [OF user_inv user_pt_wf user_leaves]) auto
  from uvmcopy_correct [OF this, of "0x1800"] show ?thesis by auto
qed

end
