(* ===== verification/Virtio.thy ===== *)
theory Virtio
  imports Bio Vm Ring
begin

text \<open>
  \<open>kernel/virtio_disk.c\<close>: the disk driver. The three pages it shares with the device are kept as
  the structures they hold: the descriptor table, the ring of available chains and the ring of
  used chains. A pointer stored in a descriptor names the object it points to. The sections
  under \<open>disk.vdisk_lock\<close> are atomic; \<open>virtio_disk_rw\<close> gives the lock up in \<open>sleep\<close>, so it is split there
  into a part that submits the request and a part that finishes it. The device is a parameter of
  the step relation at the end.
\<close>

section \<open>State\<close>

abbreviation (input) NUM :: nat where "NUM \<equiv> 8"

abbreviation (input) VRING_DESC_F_NEXT :: u16 where "VRING_DESC_F_NEXT \<equiv> 1"
abbreviation (input) VRING_DESC_F_WRITE :: u16 where "VRING_DESC_F_WRITE \<equiv> 2"
abbreviation (input) VIRTIO_BLK_T_IN :: u32 where "VIRTIO_BLK_T_IN \<equiv> 0"
abbreviation (input) VIRTIO_BLK_T_OUT :: u32 where "VIRTIO_BLK_T_OUT \<equiv> 1"

text \<open>A null pointer, or the address of \<open>disk.ops[i]\<close>, of the data of buffer \<open>i\<close>, of \<open>disk.info[i].status\<close>.\<close>

datatype vptr = Null | OpPtr nat | DataPtr nat | StatusPtr nat

record virtq_desc =
  d_addr :: vptr
  d_len :: u32
  d_flags :: u16
  d_next :: u16

record virtio_blk_req =
  rq_type :: u32
  rq_reserved :: u32
  rq_sector :: u64

record vinfo =
  ib :: "nat option"
  status :: u8

text \<open>The channels \<open>&disk.free[0]\<close> and \<open>b\<close>.\<close>

datatype vchan = FreeChan | BufChan nat

text \<open>
  What the thread that holds a buffer is doing: nothing, calling \<open>virtio_disk_rw\<close> but without descriptors
  yet, or waiting for the device with its local array \<open>idx\<close>.
\<close>

datatype vreq = Idle | Start bool | Wait bool nat nat nat

text \<open>
  \<open>struct disk\<close>, the rings, the buffers with their flag \<open>disk\<close>, the registers written, the threads,
  and of the device its medium in sectors of 512 bytes, how far it has read the available ring and
  the chains it is working on.
\<close>

record vdisk =
  desc_page :: addr
  avail_page :: addr
  used_page :: addr
  desc :: "nat \<Rightarrow> virtq_desc"
  avail_ring :: "nat \<Rightarrow> u16"
  avail_idx :: u16
  used_ring :: "nat \<Rightarrow> u32"
  used_idx_dev :: u16
  dfree :: "nat \<Rightarrow> bool"
  used_idx :: u16
  info :: "nat \<Rightarrow> vinfo"
  ops :: "nat \<Rightarrow> virtio_blk_req"
  vbufs :: "nat \<Rightarrow> buf"
  bdisk :: "nat \<Rightarrow> bool"
  mmio :: "(nat \<times> u32) list"
  vwoken :: "vchan list"
  req :: "nat \<Rightarrow> vreq"
  sectors :: "u64 \<Rightarrow> u8 list"
  dev_seen :: u16
  pend :: "nat list"

definition no_desc :: virtq_desc where
  "no_desc = \<lparr>d_addr = Null, d_len = 0, d_flags = 0, d_next = 0\<rparr>"

section \<open>Descriptors\<close>

definition alloc_desc :: "vdisk \<Rightarrow> int \<times> vdisk" where
  "alloc_desc s =
     (case find (dfree s) [0..<NUM] of
        Some i \<Rightarrow> (int i, s\<lparr>dfree := (dfree s)(i := False)\<rparr>)
      | None \<Rightarrow> (- 1, s))"

definition free_desc :: "nat \<Rightarrow> vdisk \<Rightarrow> vdisk kres" where
  "free_desc i s =
     (if i \<ge> NUM then Panic ''free_desc 1''
      else if dfree s i then Panic ''free_desc 2''
      else Ret (s\<lparr>desc := (desc s)(i := no_desc), dfree := (dfree s)(i := True), vwoken := vwoken s @ [FreeChan]\<rparr>))"

definition busy :: "vdisk \<Rightarrow> nat" where
  "busy s = card {i. i < NUM \<and> \<not> dfree s i}"

lemma free_desc_busy: "free_desc i s = Ret s1 \<Longrightarrow> busy s1 < busy s"
proof -
  assume "free_desc i s = Ret s1"
  then have i: "i < NUM" "\<not> dfree s i" and s1: "dfree s1 = (dfree s)(i := True)"
    by (auto simp: free_desc_def split: if_splits)
  then have "{k. k < NUM \<and> \<not> dfree s1 k} \<subset> {k. k < NUM \<and> \<not> dfree s k}" by auto
  then show ?thesis unfolding busy_def by (intro psubset_card_mono) auto
qed

text \<open>Every iteration frees a descriptor that was in use, so the loop ends.\<close>

function free_chain :: "nat \<Rightarrow> vdisk \<Rightarrow> vdisk kres" where
  "free_chain i s =
     (let flag = d_flags (desc s i); nxt = d_next (desc s i)
      in kbind (free_desc i s) (\<lambda>s1.
           if flag AND VRING_DESC_F_NEXT \<noteq> 0 then free_chain (unat nxt) s1 else Ret s1))"
  by pat_completeness auto
termination
  by (relation "measure (\<lambda>(i, s). busy s)") (auto dest: free_desc_busy)

declare free_chain.simps [simp del]

text \<open>Three descriptors, or none: what has been taken is given back.\<close>

fun free_descs :: "nat list \<Rightarrow> vdisk \<Rightarrow> vdisk kres" where
  "free_descs [] s = Ret s"
| "free_descs (j # js) s = kbind (free_desc j s) (free_descs js)"

fun alloc_descs :: "nat \<Rightarrow> nat list \<Rightarrow> vdisk \<Rightarrow> (nat list option \<times> vdisk) kres" where
  "alloc_descs 0 idx s = Ret (Some idx, s)"
| "alloc_descs (Suc k) idx s =
     (case alloc_desc s of (d, s1) \<Rightarrow>
        if d < 0 then kbind (free_descs idx s1) (\<lambda>s2. Ret (None, s2))
        else alloc_descs k (idx @ [nat d]) s1)"

definition alloc3_desc :: "vdisk \<Rightarrow> (nat list option \<times> vdisk) kres" where
  "alloc3_desc s = alloc_descs 3 [] s"

section \<open>Initialisation\<close>

text \<open>
  Registers by their offset. A read may depend on everything written before, so the device
  answers through a function of the writes.
\<close>

abbreviation (input) VIRTIO_MMIO_MAGIC_VALUE :: nat where "VIRTIO_MMIO_MAGIC_VALUE \<equiv> 0x000"
abbreviation (input) VIRTIO_MMIO_VERSION :: nat where "VIRTIO_MMIO_VERSION \<equiv> 0x004"
abbreviation (input) VIRTIO_MMIO_DEVICE_ID :: nat where "VIRTIO_MMIO_DEVICE_ID \<equiv> 0x008"
abbreviation (input) VIRTIO_MMIO_VENDOR_ID :: nat where "VIRTIO_MMIO_VENDOR_ID \<equiv> 0x00c"
abbreviation (input) VIRTIO_MMIO_DEVICE_FEATURES :: nat where "VIRTIO_MMIO_DEVICE_FEATURES \<equiv> 0x010"
abbreviation (input) VIRTIO_MMIO_DRIVER_FEATURES :: nat where "VIRTIO_MMIO_DRIVER_FEATURES \<equiv> 0x020"
abbreviation (input) VIRTIO_MMIO_QUEUE_SEL :: nat where "VIRTIO_MMIO_QUEUE_SEL \<equiv> 0x030"
abbreviation (input) VIRTIO_MMIO_QUEUE_NUM_MAX :: nat where "VIRTIO_MMIO_QUEUE_NUM_MAX \<equiv> 0x034"
abbreviation (input) VIRTIO_MMIO_QUEUE_NUM :: nat where "VIRTIO_MMIO_QUEUE_NUM \<equiv> 0x038"
abbreviation (input) VIRTIO_MMIO_QUEUE_READY :: nat where "VIRTIO_MMIO_QUEUE_READY \<equiv> 0x044"
abbreviation (input) VIRTIO_MMIO_QUEUE_NOTIFY :: nat where "VIRTIO_MMIO_QUEUE_NOTIFY \<equiv> 0x050"
abbreviation (input) VIRTIO_MMIO_INTERRUPT_STATUS :: nat where "VIRTIO_MMIO_INTERRUPT_STATUS \<equiv> 0x060"
abbreviation (input) VIRTIO_MMIO_INTERRUPT_ACK :: nat where "VIRTIO_MMIO_INTERRUPT_ACK \<equiv> 0x064"
abbreviation (input) VIRTIO_MMIO_STATUS :: nat where "VIRTIO_MMIO_STATUS \<equiv> 0x070"

type_synonym regs = "(nat \<times> u32) list \<Rightarrow> nat \<Rightarrow> u32"

definition wr :: "nat \<Rightarrow> u32 \<Rightarrow> vdisk \<Rightarrow> vdisk" where
  "wr r v s = s\<lparr>mmio := mmio s @ [(r, v)]\<rparr>"

text \<open>The features the driver does not use: \<open>BLK_F_RO, BLK_F_SCSI, BLK_F_CONFIG_WCE, BLK_F_MQ, F_ANY_LAYOUT, RING_F_EVENT_IDX, RING_F_INDIRECT_DESC\<close>.\<close>

definition negotiate :: "u32 \<Rightarrow> u32" where
  "negotiate features = fold (\<lambda>n f. f AND NOT (push_bit n 1)) [5, 7, 11, 12, 27, 29, 28] features"

definition virtio_disk_init :: "regs \<Rightarrow> kmem \<Rightarrow> vdisk \<Rightarrow> (kmem \<times> vdisk) kres" where
  "virtio_disk_init rd km s =
     (if rd (mmio s) VIRTIO_MMIO_MAGIC_VALUE \<noteq> 0x74726976 \<or> rd (mmio s) VIRTIO_MMIO_VERSION \<noteq> 2 \<or>
         rd (mmio s) VIRTIO_MMIO_DEVICE_ID \<noteq> 2 \<or> rd (mmio s) VIRTIO_MMIO_VENDOR_ID \<noteq> 0x554d4551
      then Panic ''could not find virtio disk''
      else let s1 = wr VIRTIO_MMIO_STATUS 3 (wr VIRTIO_MMIO_STATUS 1 (wr VIRTIO_MMIO_STATUS 0 s));
               s2 = wr VIRTIO_MMIO_DRIVER_FEATURES (negotiate (rd (mmio s1) VIRTIO_MMIO_DEVICE_FEATURES)) s1;
               s3 = wr VIRTIO_MMIO_STATUS 11 s2;
               stat = rd (mmio s3) VIRTIO_MMIO_STATUS
           in if stat AND 8 = 0 then Panic ''virtio disk FEATURES_OK unset''
              else let s4 = wr VIRTIO_MMIO_QUEUE_SEL 0 s3
                   in if rd (mmio s4) VIRTIO_MMIO_QUEUE_READY \<noteq> 0 then Panic ''virtio disk should not be ready''
                      else let mx = rd (mmio s4) VIRTIO_MMIO_QUEUE_NUM_MAX
                           in if mx = 0 then Panic ''virtio disk has no queue 0''
                              else if mx < of_nat NUM then Panic ''virtio disk max queue too short''
                              else case kalloc km of (p1, km1) \<Rightarrow> case kalloc km1 of (p2, km2) \<Rightarrow> case kalloc km2 of (p3, km3) \<Rightarrow>
                                if p1 = 0 \<or> p2 = 0 \<or> p3 = 0 then Panic ''virtio disk kalloc''
                                else let s5 = s4\<lparr>desc_page := p1, avail_page := p2, used_page := p3, desc := (\<lambda>_. no_desc),
                                                avail_ring := (\<lambda>_. 0), avail_idx := 0, used_ring := (\<lambda>_. 0), used_idx_dev := 0\<rparr>;
                                         s6 = fold (\<lambda>(r, v). wr r v)
                                                [(VIRTIO_MMIO_QUEUE_NUM, of_nat NUM), (0x080, ucast p1), (0x084, ucast (drop_bit 32 p1)),
                                                 (0x090, ucast p2), (0x094, ucast (drop_bit 32 p2)),
                                                 (0x0a0, ucast p3), (0x0a4, ucast (drop_bit 32 p3)), (VIRTIO_MMIO_QUEUE_READY, 1)] s5;
                                         s7 = s6\<lparr>dfree := (\<lambda>i. if i < NUM then True else dfree s6 i)\<rparr>
                                     in Ret (zero_page p3 (zero_page p2 (zero_page p1 km3)), wr VIRTIO_MMIO_STATUS (stat OR 4) s7))"

section \<open>Requests\<close>

text \<open>The first half of \<open>virtio_disk_rw\<close>, once three descriptors are there: format the chain and hand it over.\<close>

definition put_avail :: "u16 \<Rightarrow> vdisk \<Rightarrow> vdisk" where
  "put_avail h s = s\<lparr>avail_ring := (avail_ring s)(unat (avail_idx s) mod NUM := h), avail_idx := avail_idx s + 1\<rparr>"

definition rw_submit :: "nat \<Rightarrow> bool \<Rightarrow> nat \<Rightarrow> nat \<Rightarrow> nat \<Rightarrow> vdisk \<Rightarrow> vdisk" where
  "rw_submit b w i0 i1 i2 s =
     (let sector = blockno (vbufs s b) * 2;
          s1 = s\<lparr>ops := (ops s)(i0 := \<lparr>rq_type = (if w then VIRTIO_BLK_T_OUT else VIRTIO_BLK_T_IN), rq_reserved = 0, rq_sector = ucast sector\<rparr>)\<rparr>;
          s2 = s1\<lparr>desc := (desc s1)(i0 := \<lparr>d_addr = OpPtr i0, d_len = 16, d_flags = VRING_DESC_F_NEXT, d_next = of_nat i1\<rparr>)\<rparr>;
          s3 = s2\<lparr>desc := (desc s2)(i1 := \<lparr>d_addr = DataPtr b, d_len = of_nat BSIZE,
                 d_flags = (if w then 0 else VRING_DESC_F_WRITE) OR VRING_DESC_F_NEXT, d_next = of_nat i2\<rparr>)\<rparr>;
          s4 = s3\<lparr>info := (info s3)(i0 := (info s3 i0)\<lparr>status := 0xff\<rparr>)\<rparr>;
          s5 = s4\<lparr>desc := (desc s4)(i2 := \<lparr>d_addr = StatusPtr i0, d_len = 1, d_flags = VRING_DESC_F_WRITE, d_next = 0\<rparr>)\<rparr>;
          s6 = s5\<lparr>bdisk := (bdisk s5)(b := True), info := (info s5)(i0 := (info s5 i0)\<lparr>ib := Some b\<rparr>)\<rparr>
      in wr VIRTIO_MMIO_QUEUE_NOTIFY 0 (put_avail (of_nat i0) s6))"

text \<open>\<open>virtio_disk_rw\<close> up to the wait for the device: \<open>None\<close> when it goes to sleep for descriptors.\<close>

definition rw_start :: "nat \<Rightarrow> bool \<Rightarrow> vdisk \<Rightarrow> ((nat \<times> nat \<times> nat) option \<times> vdisk) kres" where
  "rw_start b w s =
     kbind (alloc3_desc s) (\<lambda>(idx, s1).
       case idx of
         Some [i0, i1, i2] \<Rightarrow> Ret (Some (i0, i1, i2), rw_submit b w i0 i1 i2 s1)
       | _ \<Rightarrow> Ret (None, s1))"

text \<open>The rest of \<open>virtio_disk_rw\<close>, when \<open>b->disk\<close> is 0.\<close>

definition rw_finish :: "nat \<Rightarrow> vdisk \<Rightarrow> vdisk kres" where
  "rw_finish i0 s = free_chain i0 (s\<lparr>info := (info s)(i0 := (info s i0)\<lparr>ib := None\<rparr>)\<rparr>)"

section \<open>The interrupt handler\<close>

text \<open>One turn of the loop. An index outside the table, or a null buffer, is undefined behaviour.\<close>

definition take_used :: "vdisk \<Rightarrow> vdisk" where
  "take_used s = s\<lparr>used_idx := used_idx s + 1\<rparr>"

definition intr_one :: "vdisk \<Rightarrow> vdisk kres" where
  "intr_one s =
     (let i = unat (used_ring s (unat (used_idx s) mod NUM))
      in if i \<ge> NUM then Diverge
         else if status (info s i) \<noteq> 0 then Panic ''virtio_disk_intr status''
         else case ib (info s i) of
                None \<Rightarrow> Diverge
              | Some b \<Rightarrow> Ret (take_used (s\<lparr>bdisk := (bdisk s)(b := False), vwoken := vwoken s @ [BufChan b]\<rparr>)))"

lemma intr_one_idx: "intr_one s = Ret s1 \<Longrightarrow> used_idx s1 = used_idx s + 1 \<and> used_idx_dev s1 = used_idx_dev s"
  by (auto simp: intr_one_def take_used_def Let_def split: if_splits option.splits)

lemma gap_shrinks: "u \<noteq> v \<Longrightarrow> unat (v - (u + 1)) < unat (v - u)" for u v :: "'a::len word"
  using measure_unat [of "v - u"] by (simp add: diff_diff_eq)

function intr_loop :: "vdisk \<Rightarrow> vdisk kres" where
  "intr_loop s = (if used_idx s \<noteq> used_idx_dev s then kbind (intr_one s) (\<lambda>s1. intr_loop s1) else Ret s)"
  by pat_completeness auto
termination
  by (relation "measure (\<lambda>s. unat (used_idx_dev s - used_idx s))") (simp_all add: intr_one_idx gap_shrinks)

declare intr_loop.simps [simp del]

definition virtio_disk_intr :: "regs \<Rightarrow> vdisk \<Rightarrow> vdisk kres" where
  "virtio_disk_intr rd s = intr_loop (wr VIRTIO_MMIO_INTERRUPT_ACK (rd (mmio s) VIRTIO_MMIO_INTERRUPT_STATUS AND 3) s)"

section \<open>The device\<close>

text \<open>
  The device takes chains from the available ring and completes them in any order. A chain is
  a request when it has the layout that the virtio specification gives for a block device: the command, 1024 bytes of
  data that the device may write exactly for a read, and a status byte. Completing a request transfers two sectors,
  stores the status 0 and puts the head of the chain into the used ring. What the device does with
  other chains is left open.
\<close>

definition get_avail :: "vdisk \<Rightarrow> vdisk" where
  "get_avail s = s\<lparr>dev_seen := dev_seen s + 1\<rparr>"

definition put_used :: "u32 \<Rightarrow> vdisk \<Rightarrow> vdisk" where
  "put_used h s = s\<lparr>used_ring := (used_ring s)(unat (used_idx_dev s) mod NUM := h), used_idx_dev := used_idx_dev s + 1\<rparr>"

definition dev_fetch :: "vdisk \<Rightarrow> vdisk" where
  "dev_fetch s = get_avail (s\<lparr>pend := pend s @ [unat (avail_ring s (unat (dev_seen s) mod NUM))]\<rparr>)"

definition request :: "vdisk \<Rightarrow> nat \<Rightarrow> (nat \<times> nat \<times> bool \<times> u64) option" where
  "request s h =
     (let d0 = desc s h; d1 = desc s (unat (d_next d0)); d2 = desc s (unat (d_next d1))
      in if d_flags d0 = 1 \<and> d_flags d1 AND 1 = 1 \<and> d_flags d2 = 2 \<and> d_len d0 = 16 \<and> d_len d1 = 1024 \<and> d_len d2 = 1
         then case (d_addr d0, d_addr d1, d_addr d2) of
                (OpPtr i, DataPtr b, StatusPtr j) \<Rightarrow>
                  if rq_type (ops s i) = VIRTIO_BLK_T_OUT \<and> d_flags d1 AND 2 = 0 then Some (b, j, True, rq_sector (ops s i))
                  else if rq_type (ops s i) = VIRTIO_BLK_T_IN \<and> d_flags d1 AND 2 = 2 then Some (b, j, False, rq_sector (ops s i))
                  else None
              | _ \<Rightarrow> None
         else None)"

definition dev_transfer :: "nat \<Rightarrow> bool \<Rightarrow> u64 \<Rightarrow> vdisk \<Rightarrow> vdisk" where
  "dev_transfer b w n s =
     (let d = bdata (vbufs s b)
      in if w then s\<lparr>sectors := (sectors s)(n := take 512 d, n + 1 := take 512 (drop 512 d))\<rparr>
         else s\<lparr>vbufs := (vbufs s)(b := (vbufs s b)\<lparr>bdata := sectors s n @ sectors s (n + 1)\<rparr>)\<rparr>)"

definition dev_complete :: "nat \<Rightarrow> nat \<Rightarrow> nat \<Rightarrow> bool \<Rightarrow> u64 \<Rightarrow> vdisk \<Rightarrow> vdisk" where
  "dev_complete h b j w n s =
     put_used (of_nat h)
       ((dev_transfer b w n s)\<lparr>info := (info s)(j := (info s j)\<lparr>status := 0\<rparr>), pend := remove1 h (pend s)\<rparr>)"

text \<open>A device that behaves as documented; \<open>None\<close> labels a step that fetches a chain, \<open>Some h\<close> the completion of the chain \<open>h\<close>.\<close>

type_synonym device = "vdisk \<Rightarrow> nat option \<Rightarrow> vdisk \<Rightarrow> bool"

definition device_ok :: "device \<Rightarrow> bool" where
  "device_ok dev \<longleftrightarrow>
     (\<forall>s s'. dev s None s' \<longrightarrow> dev_seen s \<noteq> avail_idx s \<and> s' = dev_fetch s) \<and>
     (\<forall>s h s'. dev s (Some h) s' \<longrightarrow> h \<in> set (pend s) \<and>
        (\<forall>b j w n. request s h = Some (b, j, w, n) \<longrightarrow> s' = dev_complete h b j w n s))"

section \<open>The system of threads, interrupts and device\<close>

datatype vlabel = Issue nat | Submit nat | Device "nat option" | Finish nat | Tau

text \<open>
  A thread that holds the sleep lock of a buffer fills it as it likes and calls \<open>virtio_disk_rw\<close>. A
  thread that found no descriptors tries again when it is woken.
\<close>

inductive vstep :: "device \<Rightarrow> regs \<Rightarrow> vdisk \<Rightarrow> vlabel \<Rightarrow> vdisk \<Rightarrow> bool" for dev rd where
  issue: "req s b = Idle \<Longrightarrow> length (bdata x) = BSIZE \<Longrightarrow> blockno x < 0x80000000 \<Longrightarrow>
    vstep dev rd s (Issue b) (s\<lparr>vbufs := (vbufs s)(b := x), req := (req s)(b := Start w)\<rparr>)"
| wait: "req s b = Start w \<Longrightarrow> rw_start b w s = Ret (None, s') \<Longrightarrow> vstep dev rd s Tau s'"
| submit: "req s b = Start w \<Longrightarrow> rw_start b w s = Ret (Some (i, j, k), s') \<Longrightarrow>
    vstep dev rd s (Submit b) (s'\<lparr>req := (req s')(b := Wait w i j k)\<rparr>)"
| device: "dev s l s' \<Longrightarrow> vstep dev rd s (Device l) s'"
| interrupt: "virtio_disk_intr rd s = Ret s' \<Longrightarrow> vstep dev rd s Tau s'"
| finish: "req s b = Wait w i j k \<Longrightarrow> \<not> bdisk s b \<Longrightarrow> rw_finish i s = Ret s' \<Longrightarrow>
    vstep dev rd s (Finish b) (s'\<lparr>req := (req s')(b := Idle)\<rparr>)"

inductive vreach :: "device \<Rightarrow> regs \<Rightarrow> vdisk \<Rightarrow> vdisk \<Rightarrow> bool" for dev rd s0 where
  start: "vreach dev rd s0 s0"
| step: "vreach dev rd s0 s \<Longrightarrow> vstep dev rd s l s' \<Longrightarrow> vreach dev rd s0 s'"

interpretation aq: ring NUM avail_ring dev_seen avail_idx put_avail get_avail
  by unfold_locales (simp_all add: put_avail_def get_avail_def)

interpretation vq: ring NUM used_ring used_idx used_idx_dev put_used take_used
  by unfold_locales (simp_all add: put_used_def take_used_def)

text \<open>The heads of the chains on their way: made available, being worked on, used.\<close>

abbreviation availq :: "vdisk \<Rightarrow> nat list" where "availq s \<equiv> map unat (aq.queue s)"
abbreviation usedq :: "vdisk \<Rightarrow> nat list" where "usedq s \<equiv> map unat (vq.queue s)"

definition chain :: "vdisk \<Rightarrow> nat \<Rightarrow> bool \<Rightarrow> nat \<Rightarrow> nat \<Rightarrow> nat \<Rightarrow> bool" where
  "chain s b w i j k \<longleftrightarrow>
     distinct [i, j, k] \<and> i < NUM \<and> j < NUM \<and> k < NUM \<and> \<not> dfree s i \<and> \<not> dfree s j \<and> \<not> dfree s k \<and>
     desc s i = \<lparr>d_addr = OpPtr i, d_len = 16, d_flags = 1, d_next = of_nat j\<rparr> \<and>
     desc s j = \<lparr>d_addr = DataPtr b, d_len = 1024, d_flags = (if w then 1 else 3), d_next = of_nat k\<rparr> \<and>
     desc s k = \<lparr>d_addr = StatusPtr i, d_len = 1, d_flags = 2, d_next = 0\<rparr> \<and>
     ops s i = \<lparr>rq_type = (if w then 1 else 0), rq_reserved = 0, rq_sector = ucast (blockno (vbufs s b) * 2)\<rparr> \<and>
     ib (info s i) = Some b"

definition vinv :: "vdisk \<Rightarrow> bool" where
  "vinv s \<longleftrightarrow>
     aq.ok s \<and> vq.ok s \<and>
     (\<forall>b w i j k. req s b = Wait w i j k \<longrightarrow> chain s b w i j k) \<and>
     (\<forall>b w i j k b' w' i' j' k'. req s b = Wait w i j k \<longrightarrow> req s b' = Wait w' i' j' k' \<longrightarrow> b \<noteq> b' \<longrightarrow>
        {i, j, k} \<inter> {i', j', k'} = {}) \<and>
     (\<forall>n < NUM. dfree s n \<or> (\<exists>b w i j k. req s b = Wait w i j k \<and> n \<in> {i, j, k})) \<and>
     distinct (availq s @ pend s @ usedq s) \<and>
     set (availq s @ pend s @ usedq s) = {i. \<exists>b w j k. req s b = Wait w i j k \<and> bdisk s b} \<and>
     (\<forall>i \<in> set (usedq s). status (info s i) = 0) \<and>
     (\<forall>n. length (sectors s n) = 512) \<and>
     (\<forall>b. req s b \<noteq> Idle \<longrightarrow> length (bdata (vbufs s b)) = BSIZE \<and> blockno (vbufs s b) < 0x80000000)"

lemma vinvD:
  assumes "vinv s"
  shows "aq.ok s" "vq.ok s" "req s b = Wait w i j k \<Longrightarrow> chain s b w i j k"
    "req s b = Wait w i j k \<Longrightarrow> req s b' = Wait w' i' j' k' \<Longrightarrow> b \<noteq> b' \<Longrightarrow> {i, j, k} \<inter> {i', j', k'} = {}"
    "n < NUM \<Longrightarrow> dfree s n \<or> (\<exists>b w i j k. req s b = Wait w i j k \<and> n \<in> {i, j, k})"
    "distinct (availq s @ pend s @ usedq s)"
    "set (availq s @ pend s @ usedq s) = {i. \<exists>b w j k. req s b = Wait w i j k \<and> bdisk s b}"
    "i \<in> set (usedq s) \<Longrightarrow> status (info s i) = 0" "length (sectors s m) = 512"
    "req s b \<noteq> Idle \<Longrightarrow> length (bdata (vbufs s b)) = BSIZE" "req s b \<noteq> Idle \<Longrightarrow> blockno (vbufs s b) < 0x80000000"
proof -
  note v = assms [unfolded vinv_def]
  show "aq.ok s" using v by (elim conjE)
  show "vq.ok s" using v by (elim conjE)
  have "\<forall>b w i j k. req s b = Wait w i j k \<longrightarrow> chain s b w i j k" using v by (elim conjE)
  then show "req s b = Wait w i j k \<Longrightarrow> chain s b w i j k" by blast
  have "\<forall>b w i j k b' w' i' j' k'. req s b = Wait w i j k \<longrightarrow> req s b' = Wait w' i' j' k' \<longrightarrow> b \<noteq> b' \<longrightarrow>
      {i, j, k} \<inter> {i', j', k'} = {}" using v by (elim conjE)
  then show "req s b = Wait w i j k \<Longrightarrow> req s b' = Wait w' i' j' k' \<Longrightarrow> b \<noteq> b' \<Longrightarrow> {i, j, k} \<inter> {i', j', k'} = {}"
    by blast
  have "\<forall>n < NUM. dfree s n \<or> (\<exists>b w i j k. req s b = Wait w i j k \<and> n \<in> {i, j, k})" using v by (elim conjE)
  then show "n < NUM \<Longrightarrow> dfree s n \<or> (\<exists>b w i j k. req s b = Wait w i j k \<and> n \<in> {i, j, k})" by blast
  show "distinct (availq s @ pend s @ usedq s)" using v by (elim conjE)
  show "set (availq s @ pend s @ usedq s) = {i. \<exists>b w j k. req s b = Wait w i j k \<and> bdisk s b}" using v by (elim conjE)
  have "\<forall>i \<in> set (usedq s). status (info s i) = 0" using v by (elim conjE)
  then show "i \<in> set (usedq s) \<Longrightarrow> status (info s i) = 0" by blast
  have "\<forall>n. length (sectors s n) = 512" using v by (elim conjE)
  then show "length (sectors s m) = 512" by blast
  have "\<forall>b. req s b \<noteq> Idle \<longrightarrow> length (bdata (vbufs s b)) = BSIZE \<and> blockno (vbufs s b) < 0x80000000" using v by (elim conjE)
  then show "req s b \<noteq> Idle \<Longrightarrow> length (bdata (vbufs s b)) = BSIZE" "req s b \<noteq> Idle \<Longrightarrow> blockno (vbufs s b) < 0x80000000"
    by blast+
qed


lemma vinvI:
  assumes "aq.ok s" "vq.ok s" "\<And>b w i j k. req s b = Wait w i j k \<Longrightarrow> chain s b w i j k"
    "\<And>b w i j k b' w' i' j' k'. req s b = Wait w i j k \<Longrightarrow> req s b' = Wait w' i' j' k' \<Longrightarrow> b \<noteq> b' \<Longrightarrow> {i, j, k} \<inter> {i', j', k'} = {}"
    "\<And>n. n < NUM \<Longrightarrow> dfree s n \<or> (\<exists>b w i j k. req s b = Wait w i j k \<and> n \<in> {i, j, k})"
    "distinct (availq s @ pend s @ usedq s)"
    "set (availq s @ pend s @ usedq s) = {i. \<exists>b w j k. req s b = Wait w i j k \<and> bdisk s b}"
    "\<And>i. i \<in> set (usedq s) \<Longrightarrow> status (info s i) = 0" "\<And>m. length (sectors s m) = 512"
    "\<And>b. req s b \<noteq> Idle \<Longrightarrow> length (bdata (vbufs s b)) = BSIZE" "\<And>b. req s b \<noteq> Idle \<Longrightarrow> blockno (vbufs s b) < 0x80000000"
  shows "vinv s"
  unfolding vinv_def by (intro conjI allI impI ballI; (rule assms; assumption?))

section \<open>Allocation\<close>

lemma alloc_desc_cases:
  "alloc_desc s = (- 1, s) \<and> {n. n < NUM \<and> dfree s n} = {} \<or>
   (\<exists>i. alloc_desc s = (int i, s\<lparr>dfree := (dfree s)(i := False)\<rparr>) \<and> i < NUM \<and> dfree s i)"
proof (cases "find (dfree s) [0..<NUM]")
  case None
  then have "\<forall>n < NUM. \<not> dfree s n" unfolding find_None_iff by simp
  then show ?thesis using None by (simp add: alloc_desc_def)
next
  case (Some i)
  then have "i < NUM \<and> dfree s i" unfolding find_Some_iff by auto
  then show ?thesis using Some by (simp add: alloc_desc_def)
qed

text \<open>Taking descriptors that are free: all of them, or, after giving back those of \<open>idx\<close>, none.\<close>

definition give_back :: "vdisk \<Rightarrow> vdisk \<Rightarrow> bool" where
  "give_back s s' \<longleftrightarrow> (\<exists>D W. s' = s\<lparr>desc := D, vwoken := W\<rparr> \<and> (\<forall>n. \<not> dfree s n \<longrightarrow> D n = desc s n))"

definition taken :: "nat list \<Rightarrow> vdisk \<Rightarrow> vdisk" where
  "taken idx s = s\<lparr>dfree := (\<lambda>n. dfree s n \<and> n \<notin> set idx)\<rparr>"

lemma free_descs_taken:
  assumes "distinct idx" "set idx \<subseteq> {n. n < NUM \<and> dfree s n}"
  shows "\<exists>s'. free_descs idx (taken idx s) = Ret s' \<and> give_back s s'"
  using assms
proof (induction idx arbitrary: s)
  case Nil
  show ?case by (rule exI [of _ s]) (auto simp: taken_def give_back_def intro!: exI [of _ "desc s"] exI [of _ "vwoken s"])
next
  case (Cons i idx)
  define s1 where "s1 = s\<lparr>desc := (desc s)(i := no_desc), vwoken := vwoken s @ [FreeChan]\<rparr>"
  have "free_desc i (taken (i # idx) s) = Ret (taken idx s1)"
    using Cons.prems by (auto simp: free_desc_def taken_def s1_def fun_eq_iff)
  moreover obtain s' where s': "free_descs idx (taken idx s1) = Ret s'" "give_back s1 s'"
    using Cons.IH [of s1] Cons.prems by (auto simp: s1_def)
  moreover have "give_back s s'"
  proof -
    obtain D W where DW: "s' = s1\<lparr>desc := D, vwoken := W\<rparr>" "\<forall>n. \<not> dfree s1 n \<longrightarrow> D n = desc s1 n"
      using s'(2) by (auto simp: give_back_def)
    have "dfree s i" using Cons.prems by simp
    then show ?thesis unfolding give_back_def using DW by (intro exI [of _ D] exI [of _ W]) (auto simp: s1_def)
  qed
  ultimately show ?case by auto
qed

lemma alloc_descs_cases:
  assumes "distinct idx" "set idx \<subseteq> {n. n < NUM \<and> dfree s n}"
  shows "(\<exists>js. alloc_descs m idx (taken idx s) = Ret (Some (idx @ js), taken (idx @ js) s) \<and> length js = m \<and>
      distinct (idx @ js) \<and> set (idx @ js) \<subseteq> {n. n < NUM \<and> dfree s n}) \<or>
    (\<exists>s'. alloc_descs m idx (taken idx s) = Ret (None, s') \<and> give_back s s' \<and> card {n. n < NUM \<and> dfree s n} < length idx + m)"
  using assms
proof (induction m arbitrary: idx)
  case 0
  then show ?case by auto
next
  case (Suc m)
  from alloc_desc_cases [of "taken idx s"] show ?case
  proof (elim disjE exE conjE)
    assume a: "alloc_desc (taken idx s) = (- 1, taken idx s)" "{n. n < NUM \<and> dfree (taken idx s) n} = {}"
    then have "{n. n < NUM \<and> dfree s n} = set idx" using Suc.prems by (auto simp: taken_def)
    then have "card {n. n < NUM \<and> dfree s n} = length idx" using Suc.prems by (simp add: distinct_card)
    then show ?thesis using a(1) free_descs_taken [OF Suc.prems] by auto
  next
    fix i assume a: "alloc_desc (taken idx s) = (int i, (taken idx s)\<lparr>dfree := (dfree (taken idx s))(i := False)\<rparr>)"
      "i < NUM" "dfree (taken idx s) i"
    have "(taken idx s)\<lparr>dfree := (dfree (taken idx s))(i := False)\<rparr> = taken (idx @ [i]) s"
      by (auto simp: taken_def fun_eq_iff)
    moreover have "distinct (idx @ [i])" "set (idx @ [i]) \<subseteq> {n. n < NUM \<and> dfree s n}"
      using Suc.prems a(2,3) by (auto simp: taken_def)
    ultimately show ?thesis using Suc.IH [of "idx @ [i]"] a(1) by auto
  qed
qed

lemma alloc3_cases:
  obtains (some) i j k where "alloc3_desc s = Ret (Some [i, j, k], taken [i, j, k] s)" "distinct [i, j, k]"
      "i < NUM" "j < NUM" "k < NUM" "dfree s i" "dfree s j" "dfree s k"
    | (none) s' where "alloc3_desc s = Ret (None, s')" "give_back s s'" "card {n. n < NUM \<and> dfree s n} < 3"
proof -
  have t0: "taken [] s = s" by (simp add: taken_def)
  have "distinct ([] :: nat list)" "set [] \<subseteq> {n. n < NUM \<and> dfree s n}" by simp_all
  from alloc_descs_cases [OF this, of 3] show ?thesis
  proof (elim disjE exE conjE)
    fix js assume js: "alloc_descs 3 [] (taken [] s) = Ret (Some ([] @ js), taken ([] @ js) s)" "length js = 3"
      "distinct ([] @ js)" "set ([] @ js) \<subseteq> {n. n < NUM \<and> dfree s n}"
    then obtain i j k where "js = [i, j, k]" by (auto simp: numeral_3_eq_3 length_Suc_conv)
    then show ?thesis using js t0 by (intro some [of i j k]) (auto simp: alloc3_desc_def)
  next
    fix s' assume "alloc_descs 3 [] (taken [] s) = Ret (None, s')" "give_back s s'" "card {n. n < NUM \<and> dfree s n} < length [] + 3"
    then show ?thesis using t0 by (intro none [of s']) (auto simp: alloc3_desc_def)
  qed
qed

section \<open>The invariant is kept\<close>

text \<open>Changes of free descriptors, of registers and of the record of wakeups do not matter.\<close>

lemma vinv_frame:
  assumes inv: "vinv s" and s': "s' = s\<lparr>desc := D, vwoken := W, mmio := M\<rparr>" and D: "\<And>n. \<not> dfree s n \<Longrightarrow> D n = desc s n"
  shows "vinv s'"
proof -
  have q: "aq.queue s' = aq.queue s" "vq.queue s' = vq.queue s"
    using s' by (auto intro!: aq.queue_cong vq.queue_cong)
  have "aq.ok s'" "vq.ok s'" using vinvD(1,2) [OF inv] s' by (simp_all add: aq.ok_def vq.ok_def aq.count_def vq.count_def)
  moreover have "chain s' b w i j k" if "chain s b w i j k" for b w i j k
    using that D s' by (simp add: chain_def)
  ultimately show ?thesis using inv unfolding vinv_def q by (simp add: s')
qed

text \<open>A head that is on its way belongs to a waiting thread.\<close>

lemma head_owner:
  assumes "vinv s" "i \<in> set (availq s @ pend s @ usedq s)"
  obtains b w j k where "req s b = Wait w i j k" "bdisk s b" "chain s b w i j k"
  using assms(2) vinvD(3) [OF assms(1)] unfolding vinvD(7) [OF assms(1)] by blast

lemma ring_room:
  assumes "distinct xs" "set xs \<subseteq> {..<NUM}" "i \<notin> set xs" "i < NUM"
  shows "length xs \<noteq> NUM"
proof
  assume l: "length xs = NUM"
  have "card (set xs) = NUM" using assms(1) l by (simp add: distinct_card)
  then have "set xs = {..<NUM}" using assms(2) by (intro card_subset_eq) auto
  then show False using assms(3,4) by blast
qed

lemma heads_bound: "vinv s \<Longrightarrow> set (availq s @ pend s @ usedq s) \<subseteq> {..<NUM}"
proof
  fix i assume "vinv s" "i \<in> set (availq s @ pend s @ usedq s)"
  then obtain b w j k where "chain s b w i j k" by (rule head_owner)
  then show "i \<in> {..<NUM}" by (simp add: chain_def)
qed

lemma queue_room:
  assumes inv: "vinv s" and i: "i < NUM" "i \<notin> set (availq s)"
  shows "avail_idx s \<noteq> dev_seen s + of_nat NUM"
proof -
  have "distinct (availq s)" using vinvD(6) [OF inv] by (simp only: distinct_append)
  moreover have "set (availq s) \<subseteq> {..<NUM}" using heads_bound [OF inv] unfolding set_append by blast
  ultimately have "length (availq s) \<noteq> NUM" using i by (intro ring_room [of _ i])
  then show ?thesis unfolding aq.full_iff [OF vinvD(1) [OF inv]] length_map .
qed

lemma used_room:
  assumes inv: "vinv s" and i: "i < NUM" "i \<notin> set (usedq s)"
  shows "used_idx_dev s \<noteq> used_idx s + of_nat NUM"
proof -
  have "distinct (usedq s)" using vinvD(6) [OF inv] by (simp only: distinct_append)
  moreover have "set (usedq s) \<subseteq> {..<NUM}" using heads_bound [OF inv] unfolding set_append by blast
  ultimately have "length (usedq s) \<noteq> NUM" using i by (intro ring_room [of _ i])
  then show ?thesis unfolding vq.full_iff [OF vinvD(2) [OF inv]] length_map .
qed

lemma unat_small [simp]: "n < NUM \<Longrightarrow> unat (of_nat n :: u16) = n" "n < NUM \<Longrightarrow> unat (of_nat n :: u32) = n"
  by (simp_all add: unat_of_nat)

text \<open>The state after a request has been handed over.\<close>

lemma vinfo_eq: "r\<lparr>status := x, ib := y\<rparr> = \<lparr>ib = y, status = x\<rparr>"
  by (cases r) simp

lemma submit_fields:
  assumes s': "s' = (rw_submit b w i j k (taken [i, j, k] s))\<lparr>req := (req s)(b := Wait w i j k)\<rparr>" and ijk: "distinct [i, j, k]"
  shows "desc s' = (desc s)(i := \<lparr>d_addr = OpPtr i, d_len = 16, d_flags = 1, d_next = of_nat j\<rparr>,
      j := \<lparr>d_addr = DataPtr b, d_len = 1024, d_flags = (if w then 1 else 3), d_next = of_nat k\<rparr>,
      k := \<lparr>d_addr = StatusPtr i, d_len = 1, d_flags = 2, d_next = 0\<rparr>)"
    "ops s' = (ops s)(i := \<lparr>rq_type = (if w then 1 else 0), rq_reserved = 0, rq_sector = ucast (blockno (vbufs s b) * 2)\<rparr>)"
    "info s' = (info s)(i := \<lparr>ib = Some b, status = 0xff\<rparr>)"
    "dfree s' = (\<lambda>n. dfree s n \<and> n \<notin> {i, j, k})" "bdisk s' = (bdisk s)(b := True)" "req s' = (req s)(b := Wait w i j k)"
    "vbufs s' = vbufs s" "sectors s' = sectors s" "pend s' = pend s" "used_ring s' = used_ring s" "used_idx s' = used_idx s"
    "used_idx_dev s' = used_idx_dev s" "avail_ring s' = (avail_ring s)(unat (avail_idx s) mod NUM := of_nat i)"
    "avail_idx s' = avail_idx s + 1" "dev_seen s' = dev_seen s"
  using ijk by (simp_all add: s' rw_submit_def Let_def wr_def put_avail_def taken_def BSIZE_def vinfo_eq)

lemma submit_inv:
  assumes inv: "vinv s" and st: "req s b = Start w" and ijk: "distinct [i, j, k]" "i < NUM" "j < NUM" "k < NUM"
    and free: "dfree s i" "dfree s j" "dfree s k"
    and s': "s' = (rw_submit b w i j k (taken [i, j, k] s))\<lparr>req := (req s)(b := Wait w i j k)\<rparr>"
  shows "vinv s'" "availq s' = availq s @ [i]" "usedq s' = usedq s" "i \<notin> set (availq s @ pend s @ usedq s)"
proof -
  note V = vinvD [OF inv] and F = submit_fields [OF s' ijk(1)]
  show fresh: "i \<notin> set (availq s @ pend s @ usedq s)"
  proof
    assume "i \<in> set (availq s @ pend s @ usedq s)"
    with inv obtain b' w' j' k' where "chain s b' w' i j' k'" by (rule head_owner)
    then show False using free(1) by (simp add: chain_def)
  qed
  have room: "avail_idx s \<noteq> dev_seen s + of_nat NUM" by (rule queue_room [OF inv ijk(2)]) (use fresh in simp)
  have "aq.queue s' = aq.queue (put_avail (of_nat i) s)" "vq.queue s' = vq.queue s"
    using F by (auto intro!: aq.queue_cong vq.queue_cong simp: put_avail_def)
  then show Q: "availq s' = availq s @ [i]" and U: "usedq s' = usedq s" using aq.put_queue(1) [OF V(1) room] ijk(2) by simp_all
  have old: "\<not> dfree s n" if "req s c = Wait x i' j' k'" "n \<in> {i', j', k'}" for c x i' j' k' n
    using V(3) [OF that(1)] that(2) by (auto simp: chain_def)
  have keep: "chain s' c x i' j' k'" if "req s c = Wait x i' j' k'" "c \<noteq> b" for c x i' j' k'
  proof -
    have "{i', j', k'} \<inter> {i, j, k} = {}" using old [OF that(1)] free by blast
    then show ?thesis using V(3) [OF that(1)] unfolding chain_def F by auto
  qed
  show "vinv s'"
  proof (rule vinvI)
    show "aq.ok s'" using aq.put_queue(2) [OF V(1) room, of "of_nat i"] F by (simp add: aq.ok_def aq.count_def put_avail_def)
    show "vq.ok s'" using V(2) F by (simp add: vq.ok_def vq.count_def)
    show "chain s' c x i' j' k'" if "req s' c = Wait x i' j' k'" for c x i' j' k'
    proof (cases "c = b")
      case True
      then show ?thesis using that ijk unfolding chain_def F by auto
    next
      case False
      then show ?thesis using that keep unfolding F by simp
    qed
    show "{i1, j1, k1} \<inter> {i2, j2, k2} = {}" if cd: "req s' c = Wait x i1 j1 k1" "req s' d = Wait y i2 j2 k2" "c \<noteq> d" for c x i1 j1 k1 d y i2 j2 k2
    proof -
      have n: "{i1, j1, k1} \<inter> {i, j, k} = {}" if "req s c = Wait x i1 j1 k1" for c x i1 j1 k1 using old [OF that] free by blast
      consider "c = b" "req s d = Wait y i2 j2 k2" "{i1, j1, k1} = {i, j, k}" | "d = b" "req s c = Wait x i1 j1 k1" "{i2, j2, k2} = {i, j, k}"
        | "req s c = Wait x i1 j1 k1" "req s d = Wait y i2 j2 k2"
        using cd unfolding F by (auto split: if_splits)
      then show ?thesis
      proof cases
        case 1
        then show ?thesis using n [of d y i2 j2 k2] by (simp only: Int_commute)
      next
        case 2
        then show ?thesis using n [of c x i1 j1 k1] by (simp only:)
      next
        case 3
        then show ?thesis using V(4) cd(3) by blast
      qed
    qed
    show "dfree s' n \<or> (\<exists>c x i' j' k'. req s' c = Wait x i' j' k' \<and> n \<in> {i', j', k'})" if "n < NUM" for n
    proof (cases "n \<in> {i, j, k}")
      case True
      then show ?thesis unfolding F by (intro disjI2 exI [of _ b] exI) (auto simp: fun_upd_same)
    next
      case False
      then show ?thesis using V(5) [OF that] st unfolding F by (auto simp: fun_upd_other) (metis vreq.distinct(5))+
    qed
    show "distinct (availq s' @ pend s' @ usedq s')" using V(6) fresh unfolding Q U F by auto
    show "set (availq s' @ pend s' @ usedq s') = {i'. \<exists>c x j' k'. req s' c = Wait x i' j' k' \<and> bdisk s' c}"
    proof -
      have "set (availq s' @ pend s' @ usedq s') = insert i {i'. \<exists>c x j' k'. req s c = Wait x i' j' k' \<and> bdisk s c}"
        using V(7) unfolding Q U F by auto
      also have "\<dots> = {i'. \<exists>c x j' k'. req s' c = Wait x i' j' k' \<and> bdisk s' c}" unfolding F using st by auto (metis vreq.distinct(5))
      finally show ?thesis .
    qed
    show "status (info s' i') = 0" if "i' \<in> set (usedq s')" for i'
      using V(8) [of i'] that fresh unfolding U F by auto
    show "length (sectors s' m) = 512" for m using V(9) F by simp
    show "length (bdata (vbufs s' c)) = BSIZE" "blockno (vbufs s' c) < 0x80000000" if "req s' c \<noteq> Idle" for c
      using V(10,11) [of c] that st unfolding F by (auto split: if_splits)
  qed
qed

text \<open>Moves of a head from one list to the next, all else that the invariant speaks about being equal.\<close>

lemma vinv_move:
  assumes inv: "vinv s" and ok: "aq.ok s'" "vq.ok s'"
    and same: "desc s' = desc s" "ops s' = ops s" "dfree s' = dfree s" "req s' = req s" "bdisk s' = bdisk s"
      "\<And>i. ib (info s' i) = ib (info s i)" "\<And>b. blockno (vbufs s' b) = blockno (vbufs s b)"
    and len: "\<And>m. length (sectors s' m) = 512" "\<And>b. req s b \<noteq> Idle \<Longrightarrow> length (bdata (vbufs s' b)) = BSIZE"
    and q: "distinct (availq s' @ pend s' @ usedq s')" "set (availq s' @ pend s' @ usedq s') = set (availq s @ pend s @ usedq s)"
    and st: "\<And>i. i \<in> set (usedq s') \<Longrightarrow> status (info s' i) = 0"
  shows "vinv s'"
proof (rule vinvI)
  note V = vinvD [OF inv]
  show "aq.ok s'" "vq.ok s'" "distinct (availq s' @ pend s' @ usedq s')" by (fact ok q)+
  show "chain s' b w i j k" if "req s' b = Wait w i j k" for b w i j k
    using V(3) that unfolding same chain_def by blast
  show "{i, j, k} \<inter> {i', j', k'} = {}" if "req s' b = Wait w i j k" "req s' b' = Wait w' i' j' k'" "b \<noteq> b'" for b w i j k b' w' i' j' k'
    using V(4) that unfolding same by blast
  show "dfree s' n \<or> (\<exists>b w i j k. req s' b = Wait w i j k \<and> n \<in> {i, j, k})" if "n < NUM" for n
    using V(5) [OF that] unfolding same .
  show "set (availq s' @ pend s' @ usedq s') = {i. \<exists>b w j k. req s' b = Wait w i j k \<and> bdisk s' b}"
    using V(7) unfolding q(2) same .
  show "blockno (vbufs s' b) < 0x80000000" if "req s' b \<noteq> Idle" for b using V(11) that unfolding same by blast
  show "length (bdata (vbufs s' b)) = BSIZE" if "req s' b \<noteq> Idle" for b using len(2) that unfolding same by blast
qed (fact st len)+

lemma fetch_inv:
  assumes inv: "vinv s" and ne: "dev_seen s \<noteq> avail_idx s"
  shows "vinv (dev_fetch s)" "set (availq (dev_fetch s) @ pend (dev_fetch s)) = set (availq s @ pend s)" "usedq (dev_fetch s) = usedq s"
proof -
  note V = vinvD [OF inv]
  let ?h = "unat (avail_ring s (unat (dev_seen s) mod NUM))" and ?s = "dev_fetch s"
  have g: "aq.queue ?s = aq.queue (get_avail s)" "vq.queue ?s = vq.queue s"
    by (auto intro!: aq.queue_cong vq.queue_cong simp: dev_fetch_def get_avail_def)
  have Q: "availq s = ?h # availq ?s" using aq.get_queue(1) [OF ne] by (simp add: g)
  show U: "usedq ?s = usedq s" by (simp add: g)
  have P: "pend ?s = pend s @ [?h]" by (simp add: dev_fetch_def get_avail_def)
  show set_eq: "set (availq ?s @ pend ?s) = set (availq s @ pend s)" unfolding Q P by auto
  show "vinv ?s"
  proof (rule vinv_move [OF inv])
    show "aq.ok ?s" using aq.get_queue(2) [OF ne V(1)] by (simp add: dev_fetch_def get_avail_def aq.ok_def aq.count_def)
    show "vq.ok ?s" using V(2) by (simp add: dev_fetch_def get_avail_def vq.ok_def vq.count_def)
    show "distinct (availq ?s @ pend ?s @ usedq ?s)" using V(6) unfolding Q P U by auto
    show "set (availq ?s @ pend ?s @ usedq ?s) = set (availq s @ pend s @ usedq s)" using set_eq U by auto
    show "status (info ?s i) = 0" if "i \<in> set (usedq ?s)" for i
      using V(8) [of i] that unfolding U by (simp add: dev_fetch_def get_avail_def)
  qed (use V(9,10) in \<open>simp_all add: dev_fetch_def get_avail_def\<close>)
qed

lemma chain_request:
  assumes "chain s b w i j k"
  shows "request s i = Some (b, i, w, ucast (blockno (vbufs s b) * 2))"
  using assms by (simp add: request_def chain_def Let_def)

lemma complete_inv:
  assumes inv: "vinv s" and h: "h \<in> set (pend s)" and r: "req s b = Wait w h j k"
    and s': "s' = dev_complete h b h w n s"
  shows "vinv s'" "availq s' = availq s" "pend s' = remove1 h (pend s)" "usedq s' = usedq s @ [h]"
proof -
  note V = vinvD [OF inv]
  have c: "chain s b w h j k" by (rule V(3) [OF r])
  then have hN: "h < NUM" by (simp add: chain_def)
  have room: "used_idx_dev s \<noteq> used_idx s + of_nat NUM" by (rule used_room [OF inv hN]) (use V(6) h in auto)
  have flds: "avail_ring s' = avail_ring s" "avail_idx s' = avail_idx s" "dev_seen s' = dev_seen s"
    "used_ring s' = used_ring (put_used (of_nat h) s)" "used_idx s' = used_idx s" "used_idx_dev s' = used_idx_dev s + 1"
    "desc s' = desc s" "ops s' = ops s" "dfree s' = dfree s" "req s' = req s" "bdisk s' = bdisk s"
    "info s' = (info s)(h := (info s h)\<lparr>status := 0\<rparr>)" "pend s' = remove1 h (pend s)"
    by (simp_all add: s' dev_complete_def put_used_def dev_transfer_def Let_def)
  have "aq.queue s' = aq.queue s" "vq.queue s' = vq.queue (put_used (of_nat h) s)"
    using flds by (auto intro!: aq.queue_cong vq.queue_cong simp: put_used_def)
  then show Q: "availq s' = availq s" and U: "usedq s' = usedq s @ [h]" using vq.put_queue(1) [OF V(2) room] hN by simp_all
  show "pend s' = remove1 h (pend s)" by (rule flds)
  have d: "distinct (pend s)" using V(6) by simp
  show "vinv s'"
  proof (rule vinv_move [OF inv])
    show "aq.ok s'" using V(1) flds by (simp add: aq.ok_def aq.count_def)
    show "vq.ok s'" using vq.put_queue(2) [OF V(2) room, of "of_nat h"] flds by (simp add: vq.ok_def vq.count_def put_used_def)
    show "distinct (availq s' @ pend s' @ usedq s')" using V(6) h d unfolding Q U flds by auto
    show "set (availq s' @ pend s' @ usedq s') = set (availq s @ pend s @ usedq s)" using h d unfolding Q U flds by auto
    show "status (info s' i) = 0" if "i \<in> set (usedq s')" for i using V(8) [of i] that unfolding U flds by auto
    show "blockno (vbufs s' c) = blockno (vbufs s c)" for c by (simp add: s' dev_complete_def put_used_def dev_transfer_def Let_def)
    show "length (sectors s' m) = 512" for m
      using V(10) [of b] r by (auto simp: s' dev_complete_def put_used_def dev_transfer_def Let_def BSIZE_def V(9))
    show "length (bdata (vbufs s' c)) = BSIZE" if "req s c \<noteq> Idle" for c
      using V(9,10) that by (auto simp: s' dev_complete_def put_used_def dev_transfer_def Let_def BSIZE_def)
  qed (use flds in simp_all)
qed

text \<open>One turn of the interrupt handler takes the oldest used chain.\<close>

lemma intr_one_inv:
  assumes inv: "vinv s" and ne: "used_idx s \<noteq> used_idx_dev s"
  shows "\<exists>s' b w i j k. intr_one s = Ret s' \<and> vinv s' \<and> req s b = Wait w i j k \<and> usedq s = i # usedq s' \<and>
    availq s' = availq s \<and> pend s' = pend s \<and> vbufs s' = vbufs s \<and> sectors s' = sectors s \<and> req s' = req s"
proof -
  note V = vinvD [OF inv]
  let ?i = "unat (used_ring s (unat (used_idx s) mod NUM))"
  have U: "usedq s = ?i # usedq (take_used s)" using vq.get_queue(1) [OF ne] by simp
  then have iU: "?i \<in> set (usedq s)" by simp
  have "?i \<in> set (availq s @ pend s @ usedq s)" unfolding U by simp
  with inv obtain b w j k where b: "req s b = Wait w ?i j k" "bdisk s b" "chain s b w ?i j k" by (rule head_owner)
  define s' where "s' = take_used (s\<lparr>bdisk := (bdisk s)(b := False), vwoken := vwoken s @ [BufChan b]\<rparr>)"
  have one: "intr_one s = Ret s'"
    using b(3) V(8) [OF iU] by (simp add: intr_one_def chain_def s'_def)
  have flds: "avail_ring s' = avail_ring s" "avail_idx s' = avail_idx s" "dev_seen s' = dev_seen s" "used_ring s' = used_ring s"
    "used_idx s' = used_idx s + 1" "used_idx_dev s' = used_idx_dev s" "bdisk s' = (bdisk s)(b := False)" "dfree s' = dfree s"
    "desc s' = desc s" "ops s' = ops s" "info s' = info s" "req s' = req s" "vbufs s' = vbufs s" "sectors s' = sectors s" "pend s' = pend s"
    by (simp_all add: s'_def take_used_def)
  have q: "aq.queue s' = aq.queue s" "vq.queue s' = vq.queue (take_used s)"
    using flds by (auto intro!: aq.queue_cong vq.queue_cong simp: take_used_def)
  have U': "usedq s = ?i # usedq s'" using U q(2) by simp
  have "vinv s'"
  proof (rule vinvI)
    show "aq.ok s'" using V(1) flds by (simp add: aq.ok_def aq.count_def)
    show "vq.ok s'" using vq.get_queue(2) [OF ne V(2)] flds by (simp add: vq.ok_def vq.count_def take_used_def)
    show "chain s' c x i j k" if "req s' c = Wait x i j k" for c x i j k
      using V(3) [of c x i j k] that unfolding chain_def flds by blast
    show "{i, j, k} \<inter> {i', j', k'} = {}" if "req s' b = Wait w i j k" "req s' b' = Wait w' i' j' k'" "b \<noteq> b'" for b w i j k b' w' i' j' k'
      using V(4) that unfolding flds by blast
    show "dfree s' n \<or> (\<exists>b w i j k. req s' b = Wait w i j k \<and> n \<in> {i, j, k})" if "n < NUM" for n
      using V(5) [OF that] unfolding flds .
    have d: "distinct (availq s @ pend s @ ?i # usedq s')" using V(6) unfolding U' .
    then show "distinct (availq s' @ pend s' @ usedq s')" unfolding q flds by auto
    have "set (availq s' @ pend s' @ usedq s') = set (availq s @ pend s @ usedq s) - {?i}"
      unfolding U' q(1) flds using d by auto
    also have "\<dots> = {i. \<exists>c x j k. req s' c = Wait x i j k \<and> bdisk s' c}"
    proof -
      have o: "req s c \<noteq> Wait x ?i j' k'" if "c \<noteq> b" for c x j' k' using V(4) [OF _ b(1) that] by blast
      have e: "bdisk s' c \<longleftrightarrow> c \<noteq> b \<and> bdisk s c" for c by (simp add: flds)
      show ?thesis
      proof (intro equalityI subsetI)
        fix x assume "x \<in> set (availq s @ pend s @ usedq s) - {?i}"
        then obtain c y j' k' where c: "req s c = Wait y x j' k'" "bdisk s c" "x \<noteq> ?i" unfolding V(7) by blast
        then have "c \<noteq> b" using b(1) by auto
        then show "x \<in> {i. \<exists>c x j k. req s' c = Wait x i j k \<and> bdisk s' c}" using c e unfolding flds(12) by blast
      next
        fix x assume "x \<in> {i. \<exists>c x j k. req s' c = Wait x i j k \<and> bdisk s' c}"
        then obtain c y j' k' where c: "req s c = Wait y x j' k'" "bdisk s c" "c \<noteq> b" unfolding e flds(12) by blast
        then show "x \<in> set (availq s @ pend s @ usedq s) - {?i}" using o [OF c(3)] unfolding V(7) by blast
      qed
    qed
    finally show "set (availq s' @ pend s' @ usedq s') = {i. \<exists>c x j k. req s' c = Wait x i j k \<and> bdisk s' c}" .
    show "status (info s' i) = 0" if "i \<in> set (usedq s')" for i using V(8) [of i] that unfolding U' flds by simp
  qed (use V(9-11) flds in simp_all)
  then show ?thesis using one b(1) U' q(1) flds(12-15) by (intro exI [of _ s'] exI [of _ b] exI conjI) simp_all
qed

lemma intr_loop_inv:
  assumes "vinv s"
  shows "\<exists>s'. intr_loop s = Ret s' \<and> vinv s' \<and> usedq s' = [] \<and> availq s' = availq s \<and> pend s' = pend s \<and>
    vbufs s' = vbufs s \<and> sectors s' = sectors s \<and> req s' = req s"
  using assms
proof (induction s rule: intr_loop.induct)
  case (1 s)
  show ?case
  proof (cases "used_idx s = used_idx_dev s")
    case True
    then have "usedq s = []" using vq.empty_iff [of s] by simp
    then show ?thesis using True 1(2) by (subst intr_loop.simps) simp
  next
    case False
    from intr_one_inv [OF 1(2) False] obtain s1 b w i j k where
      s1: "intr_one s = Ret s1" "vinv s1" "availq s1 = availq s" "pend s1 = pend s" "vbufs s1 = vbufs s" "sectors s1 = sectors s" "req s1 = req s"
      by (elim exE conjE)
    from 1(1) [OF False s1(1,2)] obtain s' where
      "intr_loop s1 = Ret s'" "vinv s'" "usedq s' = []" "availq s' = availq s1" "pend s' = pend s1" "vbufs s' = vbufs s1"
      "sectors s' = sectors s1" "req s' = req s1" by (elim exE conjE)
    then show ?thesis using False s1 by (subst intr_loop.simps) simp
  qed
qed

lemma free_chain_three:
  assumes c: "chain s b w i j k" and s1: "s1 = s\<lparr>info := I\<rparr>"
  shows "free_chain i s1 = Ret (s1\<lparr>desc := (desc s)(i := no_desc, j := no_desc, k := no_desc),
    dfree := (dfree s)(i := True, j := True, k := True), vwoken := vwoken s @ [FreeChan, FreeChan, FreeChan]\<rparr>)"
proof -
  have C: "i \<noteq> j" "i \<noteq> k" "j \<noteq> k" "i < NUM" "j < NUM" "k < NUM" "\<not> dfree s i" "\<not> dfree s j" "\<not> dfree s k"
    "d_flags (desc s i) = 1" "d_next (desc s i) = of_nat j" "d_flags (desc s j) AND 1 \<noteq> 0" "d_next (desc s j) = of_nat k"
    "d_flags (desc s k) = 2" using c by (simp_all add: chain_def)
  define s2 where "s2 = s1\<lparr>desc := (desc s)(i := no_desc), dfree := (dfree s)(i := True), vwoken := vwoken s @ [FreeChan]\<rparr>"
  define s3 where "s3 = s2\<lparr>desc := (desc s)(i := no_desc, j := no_desc), dfree := (dfree s)(i := True, j := True), vwoken := vwoken s @ [FreeChan, FreeChan]\<rparr>"
  have 1: "free_chain i s1 = free_chain j s2"
    using C by (subst free_chain.simps) (simp add: s1 s2_def free_desc_def Let_def)
  have 2: "free_chain j s2 = free_chain k s3"
    using C by (subst free_chain.simps) (simp add: s1 s2_def s3_def free_desc_def Let_def)
  have 3: "free_chain k s3 = Ret (s3\<lparr>desc := (desc s)(i := no_desc, j := no_desc, k := no_desc),
    dfree := (dfree s)(i := True, j := True, k := True), vwoken := vwoken s @ [FreeChan, FreeChan, FreeChan]\<rparr>)"
    using C by (subst free_chain.simps) (simp add: s1 s2_def s3_def free_desc_def Let_def)
  show ?thesis unfolding 1 2 3 by (simp add: s1 s2_def s3_def)
qed

lemma finish_inv:
  assumes inv: "vinv s" and r: "req s b = Wait w i j k" and nd: "\<not> bdisk s b"
  shows "\<exists>s'. rw_finish i s = Ret s' \<and> vinv (s'\<lparr>req := (req s')(b := Idle)\<rparr>) \<and> availq s' = availq s \<and> pend s' = pend s \<and>
    usedq s' = usedq s \<and> vbufs s' = vbufs s \<and> sectors s' = sectors s \<and> req s' = req s"
proof -
  note V = vinvD [OF inv]
  define s' where "s' = s\<lparr>info := (info s)(i := (info s i)\<lparr>ib := None\<rparr>), desc := (desc s)(i := no_desc, j := no_desc, k := no_desc),
    dfree := (dfree s)(i := True, j := True, k := True), vwoken := vwoken s @ [FreeChan, FreeChan, FreeChan]\<rparr>"
  define s2 where "s2 = s'\<lparr>req := (req s')(b := Idle)\<rparr>"
  have f: "rw_finish i s = Ret s'"
    using free_chain_three [OF V(3) [OF r] refl, of "(info s)(i := (info s i)\<lparr>ib := None\<rparr>)"] by (simp add: rw_finish_def s'_def)
  have flds: "avail_ring s2 = avail_ring s" "avail_idx s2 = avail_idx s" "dev_seen s2 = dev_seen s" "used_ring s2 = used_ring s"
    "used_idx s2 = used_idx s" "used_idx_dev s2 = used_idx_dev s" "bdisk s2 = bdisk s" "vbufs s2 = vbufs s" "sectors s2 = sectors s"
    "pend s2 = pend s" "ops s2 = ops s" by (simp_all add: s'_def s2_def)
  have rq: "req s2 c = (if c = b then Idle else req s c)" for c by (simp add: s2_def s'_def)
  have q: "aq.queue s2 = aq.queue s" "vq.queue s2 = vq.queue s"
    using flds by (auto intro!: aq.queue_cong vq.queue_cong)
  have q': "aq.queue s' = aq.queue s" "vq.queue s' = vq.queue s" by (auto intro!: aq.queue_cong vq.queue_cong simp: s'_def)
  have apart: "{i', j', k'} \<inter> {i, j, k} = {}" if "req s c = Wait x i' j' k'" "c \<noteq> b" for c x i' j' k'
    by (rule V(4) [OF that(1) r that(2)])
  have "vinv s2"
  proof (rule vinvI)
    show "aq.ok s2" "vq.ok s2" using V(1,2) flds by (simp_all add: aq.ok_def aq.count_def vq.ok_def vq.count_def)
    show "chain s2 c x i' j' k'" if "req s2 c = Wait x i' j' k'" for c x i' j' k'
    proof -
      have c: "req s c = Wait x i' j' k'" "c \<noteq> b" using that by (auto simp: rq split: if_splits)
      then show ?thesis using V(3) [OF c(1)] apart [OF c] by (simp add: chain_def s2_def s'_def) blast
    qed
    show "{i1, j1, k1} \<inter> {i2, j2, k2} = {}" if "req s2 c = Wait x i1 j1 k1" "req s2 d = Wait y i2 j2 k2" "c \<noteq> d" for c x i1 j1 k1 d y i2 j2 k2
      using V(4) [of c x i1 j1 k1 d y i2 j2 k2] that unfolding rq by (simp split: if_splits)
    show "dfree s2 n \<or> (\<exists>c x i' j' k'. req s2 c = Wait x i' j' k' \<and> n \<in> {i', j', k'})" if "n < NUM" for n
    proof (cases "n \<in> {i, j, k}")
      case True
      then show ?thesis by (auto simp: s2_def s'_def)
    next
      case False
      from V(5) [OF that] show ?thesis
      proof (elim disjE exE conjE)
        assume "dfree s n"
        then show ?thesis using False by (simp add: s2_def s'_def)
      next
        fix c x i' j' k' assume c: "req s c = Wait x i' j' k'" "n \<in> {i', j', k'}"
        then have "c \<noteq> b" using r False by auto
        then have "req s2 c = Wait x i' j' k'" using c(1) by (simp add: rq)
        then show ?thesis using c(2) by blast
      qed
    qed
    show "distinct (availq s2 @ pend s2 @ usedq s2)" using V(6) unfolding q flds .
    show "set (availq s2 @ pend s2 @ usedq s2) = {i'. \<exists>c x j' k'. req s2 c = Wait x i' j' k' \<and> bdisk s2 c}"
      unfolding q flds V(7) rq using nd by auto
    show "status (info s2 i') = 0" if "i' \<in> set (usedq s2)" for i'
      using V(8) [of i'] that unfolding q by (auto simp: s2_def s'_def)
  qed (use V(9-11) in \<open>auto simp: flds rq split: if_splits\<close>)
  then show ?thesis using f q' by (intro exI [of _ s']) (simp add: s2_def, simp add: s'_def)
qed

section \<open>Reachable states\<close>

text \<open>The driver's static data at boot, and a device that has just been reset.\<close>

definition vboot :: "vdisk \<Rightarrow> bool" where
  "vboot v \<longleftrightarrow> (\<forall>b. req v b = Idle) \<and> used_idx v = 0 \<and> dev_seen v = 0 \<and> pend v = [] \<and> (\<forall>n. length (sectors v n) = 512)"

lemma init_inv:
  assumes "virtio_disk_init rd km v = Ret (km', s)" "vboot v"
  shows "vinv s"
proof -
  have F: "req s = req v" "used_idx s = 0" "dev_seen s = 0" "pend s = []" "sectors s = sectors v" "avail_idx s = 0" "used_idx_dev s = 0"
    "\<And>n. n < NUM \<Longrightarrow> dfree s n"
    using assms by (auto simp: virtio_disk_init_def vboot_def wr_def Let_def split: if_splits prod.splits)
  have q: "aq.queue s = []" "vq.queue s = []" using F by (simp_all add: aq.empty_iff vq.empty_iff)
  have idle: "req s b = Idle" for b using F(1) assms(2) by (simp add: vboot_def)
  show ?thesis
    by (rule vinvI) (use F q idle assms(2) in \<open>simp_all add: aq.ok_def vq.ok_def aq.count_def vq.count_def vboot_def\<close>)
qed

lemma intr_inv:
  assumes "vinv s"
  shows "\<exists>s'. virtio_disk_intr rd s = Ret s' \<and> vinv s' \<and> usedq s' = [] \<and> availq s' = availq s \<and> pend s' = pend s \<and>
    vbufs s' = vbufs s \<and> sectors s' = sectors s \<and> req s' = req s"
proof -
  define s1 where "s1 = wr VIRTIO_MMIO_INTERRUPT_ACK (rd (mmio s) VIRTIO_MMIO_INTERRUPT_STATUS AND 3) s"
  have inv: "vinv s1" by (rule vinv_frame [OF assms, where D = "desc s" and W = "vwoken s" and M = "mmio s1"]) (simp_all add: s1_def wr_def)
  have "aq.queue s1 = aq.queue s" by (rule aq.queue_cong) (simp_all add: s1_def wr_def)
  then show ?thesis using intr_loop_inv [OF inv] unfolding virtio_disk_intr_def s1_def [symmetric] by (auto simp: s1_def wr_def)
qed

lemma start_cases:
  assumes inv: "vinv s" and st: "req s b = Start w"
  obtains (some) i j k s1 s' where "rw_start b w s = Ret (Some (i, j, k), s1)" "s' = s1\<lparr>req := (req s1)(b := Wait w i j k)\<rparr>"
      "vinv s'" "availq s' = availq s @ [i]" "usedq s' = usedq s" "i \<notin> set (availq s @ pend s @ usedq s)"
      "pend s' = pend s" "vbufs s' = vbufs s" "sectors s' = sectors s" "req s' = (req s)(b := Wait w i j k)"
    | (none) s' where "rw_start b w s = Ret (None, s')" "vinv s'" "availq s' = availq s" "usedq s' = usedq s"
      "pend s' = pend s" "vbufs s' = vbufs s" "sectors s' = sectors s" "req s' = req s" "card {n. n < NUM \<and> dfree s n} < 3"
proof (cases s rule: alloc3_cases)
  case (some i j k)
  define s1 where "s1 = rw_submit b w i j k (taken [i, j, k] s)"
  define s' where "s' = s1\<lparr>req := (req s)(b := Wait w i j k)\<rparr>"
  have s': "s' = (rw_submit b w i j k (taken [i, j, k] s))\<lparr>req := (req s)(b := Wait w i j k)\<rparr>" by (simp add: s'_def s1_def)
  have rs: "req s1 = req s" by (simp add: s1_def rw_submit_def taken_def Let_def wr_def put_avail_def)
  note S = submit_inv [OF inv st some(2-8) s'] and F = submit_fields [OF s' some(2)]
  show ?thesis
    by (rule that(1) [of i j k s1 s']) (use S F some(1) rs in \<open>simp_all add: rw_start_def s1_def [symmetric] s'_def\<close>)
next
  case (none s')
  obtain D W where DW: "s' = s\<lparr>desc := D, vwoken := W\<rparr>" "\<forall>n. \<not> dfree s n \<longrightarrow> D n = desc s n"
    using none(2) by (auto simp: give_back_def)
  have "vinv s'" by (rule vinv_frame [OF inv, where D = D and W = W and M = "mmio s"]) (use DW in simp_all)
  moreover have "aq.queue s' = aq.queue s" "vq.queue s' = vq.queue s" using DW by (auto intro!: aq.queue_cong vq.queue_cong)
  ultimately show ?thesis by (intro that(2) [of s']) (use none DW(1) in \<open>simp_all add: rw_start_def\<close>)
qed

text \<open>Buffers and disk as the buffer cache sees them, and the buffers whose transfer is still to come.\<close>

definition disk_of :: "vdisk \<Rightarrow> u32 \<Rightarrow> u8 list" where
  "disk_of s c = sectors s (ucast (c * 2)) @ sectors s (ucast (c * 2) + 1)"

definition shows_as :: "vdisk \<Rightarrow> 'a bio_scheme \<Rightarrow> bool" where
  "shows_as s t \<longleftrightarrow> bufs t = vbufs s \<and> (\<forall>c < 0x80000000. disk t c = disk_of s c)"

definition outstanding :: "vdisk \<Rightarrow> nat set" where
  "outstanding s = {b. \<exists>w i j k. req s b = Wait w i j k \<and> i \<in> set (availq s @ pend s)}"

lemma sector_unat:
  assumes "c < 0x80000000"
  shows "unat (ucast (c * 2 :: u32) :: u64) = 2 * unat c" "unat (ucast (c * 2 :: u32) + 1 :: u64) = 2 * unat c + 1"
proof -
  have c: "unat c < 2 ^ 31" using assms by (simp add: word_less_nat_alt)
  then have "unat (c * 2) = 2 * unat c" by (simp add: unat_word_ariths)
  then show 1: "unat (ucast (c * 2 :: u32) :: u64) = 2 * unat c" by simp
  show "unat (ucast (c * 2 :: u32) + 1 :: u64) = 2 * unat c + 1"
    using c 1 by (subst unat_add_lem [THEN iffD1]) simp_all
qed

lemma sectors_apart:
  fixes c d :: u32
  assumes "c < 0x80000000" "d < 0x80000000" "c \<noteq> d"
  shows "{ucast (c * 2), ucast (c * 2) + 1 :: u64} \<inter> {ucast (d * 2), ucast (d * 2) + 1} = {}"
proof -
  have "x \<noteq> y" if "x \<in> {ucast (c * 2), ucast (c * 2) + 1}" "y \<in> {ucast (d * 2), ucast (d * 2) + 1}" for x y :: u64
  proof -
    have "unat x div 2 = unat c" using that(1) sector_unat [OF assms(1)] by auto
    moreover have "unat y div 2 = unat d" using that(2) sector_unat [OF assms(2)] by auto
    ultimately show ?thesis using assms(3) by (auto dest: unat_eqD)
  qed
  then show ?thesis by blast
qed

lemma transfer_refines:
  assumes inv: "vinv s" and r: "req s b = Wait w h j k" and t: "shows_as s t"
    and s': "s' = dev_complete h b h w (ucast (blockno (vbufs s b) * 2)) s"
  shows "shows_as s' (virtio_disk_rw b w t)"
proof -
  let ?x = "vbufs s b" and ?n = "ucast (blockno (vbufs s b) * 2) :: u64"
  have len: "length (bdata ?x) = 1024" and bl: "blockno ?x < 0x80000000"
    using vinvD(10,11) [OF inv, of b] r by (simp_all add: BSIZE_def)
  have t: "bufs t = vbufs s" "\<And>c. c < 0x80000000 \<Longrightarrow> disk t c = disk_of s c" using t by (simp_all add: shows_as_def)
  show ?thesis
  proof (cases w)
    case True
    have F: "vbufs s' = vbufs s" "sectors s' = (sectors s)(?n := take 512 (bdata ?x), ?n + 1 := take 512 (drop 512 (bdata ?x)))"
      using True by (simp_all add: s' dev_complete_def put_used_def dev_transfer_def Let_def)
    have "disk_of s' c = (if c = blockno ?x then bdata ?x else disk_of s c)" if "c < 0x80000000" for c
    proof (cases "c = blockno ?x")
      case True
      have "take 512 (bdata ?x) @ take 512 (drop 512 (bdata ?x)) = bdata ?x" using len by (simp flip: take_add)
      then show ?thesis using True by (simp add: disk_of_def F)
    next
      case False
      then show ?thesis using sectors_apart [OF that bl False] by (auto simp: disk_of_def F)
    qed
    then show ?thesis using True t F(1) by (simp add: shows_as_def virtio_disk_rw_def Let_def)
  next
    case False
    have F: "vbufs s' = (vbufs s)(b := ?x\<lparr>bdata := disk_of s (blockno ?x)\<rparr>)" "sectors s' = sectors s"
      using False by (simp_all add: s' dev_complete_def put_used_def dev_transfer_def Let_def disk_of_def)
    then show ?thesis using False t t(2) [OF bl]
      by (simp add: shows_as_def virtio_disk_rw_def Let_def set_buf_def disk_of_def)
  qed
qed

lemma device_cases:
  assumes "device_ok dev" "dev s l s'" "vinv s"
  obtains (fetch) "l = None" "dev_seen s \<noteq> avail_idx s" "s' = dev_fetch s"
    | (complete) h b w j k where "l = Some h" "h \<in> set (pend s)" "req s b = Wait w h j k"
        "s' = dev_complete h b h w (ucast (blockno (vbufs s b) * 2)) s"
proof (cases l)
  case None
  then show ?thesis using assms(1,2) that(1) unfolding device_ok_def by blast
next
  case (Some h)
  then have h: "h \<in> set (pend s)" "\<And>b j w n. request s h = Some (b, j, w, n) \<Longrightarrow> s' = dev_complete h b j w n s"
    using assms(1,2) unfolding device_ok_def by blast+
  have "h \<in> set (availq s @ pend s @ usedq s)" using h(1) by simp
  with assms(3) obtain b w j k where b: "req s b = Wait w h j k" "chain s b w h j k" by (rule head_owner)
  then show ?thesis using that(2) [OF Some h(1) b(1)] h(2) [OF chain_request [OF b(2)]] by blast
qed

lemma vstep_inv:
  assumes ok: "device_ok dev" and inv: "vinv s" and step: "vstep dev rd s l s'"
  shows "vinv s'"
  using step
proof cases
  case (issue b x w)
  note V = vinvD [OF inv]
  have rq: "req s' c = (if c = b then Start w else req s c)" for c using issue by simp
  have wt: "req s' c = Wait y i j k \<longleftrightarrow> req s c = Wait y i j k" for c y i j k using issue by (simp add: rq)
  have q: "aq.queue s' = aq.queue s" "vq.queue s' = vq.queue s" using issue(2) by (auto intro!: aq.queue_cong vq.queue_cong)
  have F: "bdisk s' = bdisk s" "pend s' = pend s" "info s' = info s" "dfree s' = dfree s" using issue(2) by simp_all
  show ?thesis
  proof (rule vinvI)
    show "aq.ok s'" "vq.ok s'" using V(1,2) issue(2) by (simp_all add: aq.ok_def vq.ok_def aq.count_def vq.count_def)
    show "chain s' c y i j k" if "req s' c = Wait y i j k" for c y i j k
    proof -
      have c: "req s c = Wait y i j k" using that by (simp only: wt)
      then have "c \<noteq> b" using issue(3) by auto
      then show ?thesis using V(3) [OF c] issue(2) by (simp add: chain_def)
    qed
    show "{i, j, k} \<inter> {i', j', k'} = {}" if "req s' b = Wait w i j k" "req s' b' = Wait w' i' j' k'" "b \<noteq> b'" for b w i j k b' w' i' j' k'
      using V(4) that unfolding wt by blast
    show "dfree s' n \<or> (\<exists>b w i j k. req s' b = Wait w i j k \<and> n \<in> {i, j, k})" if "n < NUM" for n
      using V(5) [OF that] unfolding wt F .
    show "distinct (availq s' @ pend s' @ usedq s')" using V(6) unfolding q F .
    show "set (availq s' @ pend s' @ usedq s') = {i. \<exists>b w j k. req s' b = Wait w i j k \<and> bdisk s' b}"
      using V(7) unfolding q F wt .
  qed (use V(8-11) issue q in \<open>auto split: if_splits\<close>)
next
  case (wait b w)
  from inv wait(2) show ?thesis by (cases rule: start_cases) (use wait(3) in auto)
next
  case (submit b w i j k s1)
  from inv submit(3) show ?thesis by (cases rule: start_cases) (use submit(2,4) in auto)
next
  case (device o)
  from ok device(2) inv show ?thesis
    by (cases rule: device_cases) (auto intro: fetch_inv(1) [OF inv] complete_inv(1) [OF inv _ _ refl])
next
  case interrupt
  then show ?thesis using intr_inv [OF inv, of rd] by auto
next
  case (finish b w i j k s1)
  then show ?thesis using finish_inv [OF inv finish(3,4)] by auto
qed

lemma vreach_inv: "vreach dev rd s0 s \<Longrightarrow> device_ok dev \<Longrightarrow> vinv s0 \<Longrightarrow> vinv s"
  by (induction rule: vreach.induct) (auto intro: vstep_inv)

section \<open>Requests are atomic block transfers\<close>

lemma finish_done:
  assumes inv: "vinv s" and r: "req s b = Wait w i j k" and nd: "\<not> bdisk s b"
  shows "i \<notin> set (availq s @ pend s @ usedq s)"
proof
  assume "i \<in> set (availq s @ pend s @ usedq s)"
  with inv obtain c x j' k' where c: "req s c = Wait x i j' k'" "bdisk s c" by (rule head_owner)
  then have "c \<noteq> b" using nd by auto
  then show False using vinvD(4) [OF inv c(1) r] by blast
qed

lemma shows_as_same: "vbufs s' = vbufs s \<Longrightarrow> sectors s' = sectors s \<Longrightarrow> shows_as s' t = shows_as s t"
  by (simp add: shows_as_def disk_of_def)

lemma quiet_view:
  assumes "set (availq s' @ pend s') = set (availq s @ pend s)" "req s' = req s" "vbufs s' = vbufs s" "sectors s' = sectors s"
  shows "shows_as s' t = shows_as s t" "outstanding s' = outstanding s"
  using shows_as_same [OF assms(3,4)] unfolding outstanding_def assms(1,2) by simp_all

text \<open>How a step shows in the buffer cache's view, and what it does to the set of outstanding requests.\<close>

definition step_view :: "vdisk \<Rightarrow> vlabel \<Rightarrow> vdisk \<Rightarrow> 'a bio_scheme \<Rightarrow> bool" where
  "step_view s l s' t =
     (case l of
        Issue b \<Rightarrow> (\<exists>x. shows_as s' (set_buf b (\<lambda>_. x) t)) \<and> b \<notin> outstanding s \<and> outstanding s' = outstanding s
      | Submit b \<Rightarrow> shows_as s' t \<and> b \<notin> outstanding s \<and> outstanding s' = insert b (outstanding s)
      | Device (Some h) \<Rightarrow> (\<exists>b w j k. req s b = Wait w h j k \<and> shows_as s' (virtio_disk_rw b w t) \<and>
          b \<in> outstanding s \<and> outstanding s' = outstanding s - {b})
      | Finish b \<Rightarrow> shows_as s' t \<and> b \<notin> outstanding s \<and> outstanding s' = outstanding s
      | _ \<Rightarrow> shows_as s' t \<and> outstanding s' = outstanding s)"

lemma view_submit:
  assumes inv': "vinv s'" and st: "req s b = Start w" and t: "shows_as s t"
    and s': "availq s' = availq s @ [i]" "pend s' = pend s" "vbufs s' = vbufs s" "sectors s' = sectors s" "req s' = (req s)(b := Wait w i j k)"
  shows "step_view s (Submit b) s' t"
proof -
  have "c \<in> outstanding s' \<longleftrightarrow> c \<in> insert b (outstanding s)" for c
  proof (cases "c = b")
    case True
    then show ?thesis unfolding outstanding_def s'(1,2,5) by simp
  next
    case False
    have "i' \<noteq> i" if "req s c = Wait x i' j' k'" for x i' j' k'
    proof -
      have "req s' c = Wait x i' j' k'" "req s' b = Wait w i j k" using that False s'(5) by simp_all
      then show ?thesis using vinvD(4) [OF inv' _ _ False] by blast
    qed
    then show ?thesis using False unfolding outstanding_def s'(1,2,5) by auto
  qed
  then have "outstanding s' = insert b (outstanding s)" by blast
  moreover have "b \<notin> outstanding s" using st by (simp add: outstanding_def)
  ultimately show ?thesis using t shows_as_same [OF s'(3,4), of t] by (simp add: step_view_def)
qed

lemma view_complete:
  assumes inv: "vinv s" and t: "shows_as s t" and h: "h \<in> set (pend s)" and r: "req s b = Wait w h j k"
    and s': "s' = dev_complete h b h w (ucast (blockno (vbufs s b) * 2)) s"
  shows "step_view s (Device (Some h)) s' t"
proof -
  note C = complete_inv [OF inv h r s']
  have rq: "req s' = req s" by (simp add: s' dev_complete_def put_used_def dev_transfer_def Let_def)
  have d: "distinct (availq s @ pend s)" using vinvD(6) [OF inv] by auto
  have S: "set (availq s' @ pend s') = set (availq s @ pend s) - {h}" unfolding C(2,3) using d h by auto
  have "b \<in> outstanding s" using h r by (auto simp: outstanding_def)
  moreover have "outstanding s' = outstanding s - {b}"
  proof -
    have o: "i \<noteq> h" if "req s c = Wait x i j' k'" "c \<noteq> b" for c x i j' k' using vinvD(4) [OF inv that(1) r that(2)] by blast
    have n: "x = w \<and> i = h" if "req s b = Wait x i j' k'" for x i j' k' using that r by simp
    show ?thesis
    proof (intro equalityI subsetI)
      fix c assume "c \<in> outstanding s'"
      then obtain x i j' k' where c: "req s c = Wait x i j' k'" "i \<in> set (availq s @ pend s)" "i \<noteq> h"
        unfolding outstanding_def S rq by blast
      then have "c \<noteq> b" using n by blast
      then show "c \<in> outstanding s - {b}" using c unfolding outstanding_def by blast
    next
      fix c assume "c \<in> outstanding s - {b}"
      then obtain x i j' k' where c: "req s c = Wait x i j' k'" "i \<in> set (availq s @ pend s)" "c \<noteq> b" unfolding outstanding_def by blast
      then show "c \<in> outstanding s'" using o [OF c(1,3)] unfolding outstanding_def S rq by blast
    qed
  qed
  ultimately show ?thesis using transfer_refines [OF inv r t s'] r unfolding step_view_def by auto
qed

lemma view_finish:
  assumes inv: "vinv s" and t: "shows_as s t" and r: "req s b = Wait w i j k" and nd: "\<not> bdisk s b" and f: "rw_finish i s = Ret s1"
  shows "step_view s (Finish b) (s1\<lparr>req := (req s1)(b := Idle)\<rparr>) t"
proof -
  let ?s = "s1\<lparr>req := (req s1)(b := Idle)\<rparr>"
  have F: "availq s1 = availq s" "pend s1 = pend s" "vbufs s1 = vbufs s" "sectors s1 = sectors s" "req s1 = req s"
    using finish_inv [OF inv r nd] f by auto
  have q: "aq.queue ?s = aq.queue s1" by (rule aq.queue_cong) simp_all
  have b: "b \<notin> outstanding s" using finish_done [OF inv r nd] r unfolding outstanding_def by auto
  have "c \<in> outstanding ?s \<longleftrightarrow> c \<in> outstanding s" for c
  proof (cases "c = b")
    case True
    then show ?thesis using b by (simp add: outstanding_def)
  next
    case False
    then show ?thesis unfolding outstanding_def q using F(1,2,5) by simp
  qed
  then have "outstanding ?s = outstanding s" by blast
  then show ?thesis using b t F(3,4) shows_as_same [of ?s s t] by (simp add: step_view_def)
qed

lemma view_issue:
  assumes r: "req s b = Idle" and t: "shows_as s t"
  shows "step_view s (Issue b) (s\<lparr>vbufs := (vbufs s)(b := x), req := (req s)(b := Start w)\<rparr>) t" (is "step_view s _ ?s t")
proof -
  have q: "aq.queue ?s = aq.queue s" by (rule aq.queue_cong) simp_all
  have "c \<in> outstanding ?s \<longleftrightarrow> c \<in> outstanding s" for c
    using r unfolding outstanding_def q by (cases "c = b") simp_all
  then have "outstanding ?s = outstanding s" by blast
  moreover have "shows_as ?s (set_buf b (\<lambda>_. x) t)" using t by (simp add: shows_as_def set_buf_def disk_of_def)
  moreover have "b \<notin> outstanding s" using r by (simp add: outstanding_def)
  ultimately show ?thesis unfolding step_view_def by auto
qed

lemma vstep_view:
  assumes ok: "device_ok dev" and inv: "vinv s" and t: "shows_as s t" and step: "vstep dev rd s l s'"
  shows "step_view s l s' t"
  using step
proof cases
  case (issue b x w)
  show ?thesis unfolding issue(1,2) by (rule view_issue [OF issue(3) t])
next
  case (wait b w)
  from inv wait(2) show ?thesis
  proof (cases rule: start_cases)
    case (none s2)
    then have "s2 = s'" using wait(3) by simp
    then show ?thesis using none quiet_view(1) [of s' s t] quiet_view(2) [of s' s] t wait(1) by (simp add: step_view_def)
  qed (use wait(3) in simp)
next
  case (submit b w i j k s1)
  from inv submit(3) show ?thesis
  proof (cases rule: start_cases)
    case (some i' j' k' s2 s3)
    then have e: "s3 = s'" using submit(2,4) by simp
    show ?thesis unfolding submit(1) by (rule view_submit [OF some(3) [unfolded e] submit(3) t]) (use some(4-10) e in simp_all)
  qed (use submit(4) in simp)
next
  case (device o)
  from ok device(2) inv show ?thesis
  proof (cases rule: device_cases)
    case fetch
    have "req s' = req s" "vbufs s' = vbufs s" "sectors s' = sectors s" unfolding fetch(3) by (simp_all add: dev_fetch_def get_avail_def)
    then show ?thesis
      using quiet_view(1) [of s' s t] quiet_view(2) [of s' s] fetch_inv(2) [OF inv fetch(2)] t device(1) fetch(1,3) by (simp add: step_view_def)
  next
    case (complete h b w j k)
    then show ?thesis using view_complete [OF inv t complete(2,3,4)] device(1) by simp
  qed
next
  case interrupt
  then have "availq s' = availq s \<and> pend s' = pend s \<and> vbufs s' = vbufs s \<and> sectors s' = sectors s \<and> req s' = req s"
    using intr_inv [OF inv, of rd] by auto
  then show ?thesis using quiet_view(1) [of s' s t] quiet_view(2) [of s' s] t interrupt(1) by (simp add: step_view_def)
next
  case (finish b w i j k s1)
  show ?thesis unfolding finish(1,2) by (rule view_finish [OF inv t finish(3-5)])
qed

text \<open>
  C31. The disk driver, with its descriptors, two rings, interrupts and any number of concurrent
  callers, implements the atomic block transfers that the buffer cache relies on. Start
  from the state \<open>virtio_disk_init\<close> leaves and let callers, interrupts and a device that behaves as
  documented take turns in any order. No step other than the completion of a request by the device
  changes the disk or a buffer (except a caller filling a buffer before its own request). The completion of a request
  has exactly the effect of \<open>virtio_disk_rw\<close> on the buffer and the block of one caller whose request is
  outstanding. A request becomes outstanding when it is submitted, stops being so by that effect
  only, and is no longer so when \<open>virtio_disk_rw\<close> returns: each call transfers its block exactly once.
\<close>

theorem virtio_refines:
  assumes "virtio_disk_init rd km v = Ret (km', s0)" "vboot v" "device_ok dev"
    and "vreach dev rd s0 s" "vstep dev rd s l s'" "shows_as s t"
  shows "case l of
        Issue b \<Rightarrow> (\<exists>x. shows_as s' (set_buf b (\<lambda>_. x) t)) \<and> b \<notin> outstanding s \<and> outstanding s' = outstanding s
      | Submit b \<Rightarrow> shows_as s' t \<and> b \<notin> outstanding s \<and> outstanding s' = insert b (outstanding s)
      | Device (Some h) \<Rightarrow> (\<exists>b w j k. req s b = Wait w h j k \<and> shows_as s' (virtio_disk_rw b w t) \<and>
          b \<in> outstanding s \<and> outstanding s' = outstanding s - {b})
      | Finish b \<Rightarrow> shows_as s' t \<and> b \<notin> outstanding s \<and> outstanding s' = outstanding s
      | _ \<Rightarrow> shows_as s' t \<and> outstanding s' = outstanding s"
  using vstep_view [OF assms(3) vreach_inv [OF assms(4,3) init_inv [OF assms(1,2)]] assms(6,5)]
  unfolding step_view_def .

section \<open>No panic\<close>

definition waiting :: "vdisk \<Rightarrow> nat set" where
  "waiting s = {b. \<exists>w i j k. req s b = Wait w i j k}"

fun cells :: "vreq \<Rightarrow> nat set" where
  "cells (Wait w i j k) = {i, j, k}"
| "cells _ = {}"

lemma descs_conserved:
  assumes inv: "vinv s"
  shows "card {n. n < NUM \<and> dfree s n} + 3 * card (waiting s) = NUM"
proof -
  note V = vinvD [OF inv]
  have c: "card (cells (req s b)) = 3" "cells (req s b) \<subseteq> {n. n < NUM \<and> \<not> dfree s n}" if b: "b \<in> waiting s" for b
  proof -
    obtain w i j k where r: "req s b = Wait w i j k" using b by (auto simp: waiting_def)
    show "card (cells (req s b)) = 3" "cells (req s b) \<subseteq> {n. n < NUM \<and> \<not> dfree s n}"
      using V(3) [OF r] by (auto simp: r chain_def)
  qed
  have dis: "cells (req s b) \<inter> cells (req s c) = {}" if "b \<in> waiting s" "c \<in> waiting s" "b \<noteq> c" for b c
  proof -
    obtain w i j k where r: "req s b = Wait w i j k" using \<open>b \<in> waiting s\<close> unfolding waiting_def by blast
    obtain w' i' j' k' where r': "req s c = Wait w' i' j' k'" using \<open>c \<in> waiting s\<close> unfolding waiting_def by blast
    show ?thesis using V(4) [OF r r' \<open>b \<noteq> c\<close>] unfolding r r' cells.simps .
  qed
  have U: "(\<Union>b \<in> waiting s. cells (req s b)) = {n. n < NUM \<and> \<not> dfree s n}"
  proof (intro equalityI subsetI)
    fix n assume n: "n \<in> {n. n < NUM \<and> \<not> dfree s n}"
    then obtain b w i j k where "req s b = Wait w i j k" "n \<in> {i, j, k}" using V(5) [of n] by blast
    then show "n \<in> (\<Union>b \<in> waiting s. cells (req s b))" by (intro UN_I [of b]) (auto simp: waiting_def)
  qed (use c(2) in blast)
  have "inj_on (\<lambda>b. cells (req s b)) (waiting s)"
  proof (rule inj_onI, rule ccontr)
    fix b c assume "b \<in> waiting s" "c \<in> waiting s" "cells (req s b) = cells (req s c)" "b \<noteq> c"
    then have e: "cells (req s b) = {}" using dis [of b c] by blast
    show False using c(1) [OF \<open>b \<in> waiting s\<close>] unfolding e by simp
  qed
  moreover have "finite ((\<lambda>b. cells (req s b)) ` waiting s)"
  proof (rule finite_subset)
    show "(\<lambda>b. cells (req s b)) ` waiting s \<subseteq> Pow {..<NUM}" using c(2) by blast
  qed (simp only: finite_Pow_iff finite_lessThan)
  ultimately have fin: "finite (waiting s)" by (rule finite_imageD [rotated])
  have "card {n. n < NUM \<and> \<not> dfree s n} = (\<Sum>b \<in> waiting s. card (cells (req s b)))"
    unfolding U [symmetric] using fin dis c(1) by (intro card_UN_disjoint) (auto intro: card_ge_0_finite)
  also have "\<dots> = 3 * card (waiting s)" using c(1) by simp
  finally have "card {n. n < NUM \<and> \<not> dfree s n} = 3 * card (waiting s)" .
  moreover have "{..<NUM} = {n. n < NUM \<and> dfree s n} \<union> {n. n < NUM \<and> \<not> dfree s n}" by auto
  then have "card {..<NUM} = card {n. n < NUM \<and> dfree s n} + card {n. n < NUM \<and> \<not> dfree s n}"
    by (simp only:) (intro card_Un_disjoint, auto)
  ultimately show ?thesis by simp
qed

lemma start_returns:
  assumes "vinv s"
  shows "\<exists>r s'. rw_start b w s = Ret (r, s') \<and> (r = None \<longrightarrow> 2 \<le> card (waiting s))"
proof (cases s rule: alloc3_cases)
  case (some i j k)
  then show ?thesis by (simp add: rw_start_def)
next
  case (none s')
  then show ?thesis using descs_conserved [OF assms] by (simp add: rw_start_def)
qed


section \<open>A run\<close>

text \<open>A machine with a disk, three free pages, and a device that fetches and completes chains.\<close>

definition boot_regs :: regs where
  "boot_regs ws r =
     (if r = VIRTIO_MMIO_MAGIC_VALUE then 0x74726976 else if r = VIRTIO_MMIO_VERSION then 2
      else if r = VIRTIO_MMIO_DEVICE_ID then 2 else if r = VIRTIO_MMIO_VENDOR_ID then 0x554d4551
      else if r = VIRTIO_MMIO_STATUS then 11 else if r = VIRTIO_MMIO_QUEUE_NUM_MAX then 1024 else 0)"

definition boot_km :: kmem where
  "boot_km = \<lparr>kend = 0x80400000, freelist = (\<lambda>k. if k = 0 then [0x80400000, 0x80401000, 0x80402000] else []),
     refcount = (\<lambda>_. 0), order_map = (\<lambda>_. 0), phys = (\<lambda>_. 0)\<rparr>"

definition boot_disk :: vdisk where
  "boot_disk = \<lparr>desc_page = 0, avail_page = 0, used_page = 0, desc = (\<lambda>_. no_desc), avail_ring = (\<lambda>_. 0), avail_idx = 0,
     used_ring = (\<lambda>_. 0), used_idx_dev = 0, dfree = (\<lambda>_. False), used_idx = 0, info = (\<lambda>_. \<lparr>ib = None, status = 0\<rparr>),
     ops = (\<lambda>_. \<lparr>rq_type = 0, rq_reserved = 0, rq_sector = 0\<rparr>),
     vbufs = (\<lambda>_. \<lparr>valid = False, bdev = 0, blockno = 0, block_lock = initsleeplock, refcnt = 0, bdata = replicate 1024 7\<rparr>),
     bdisk = (\<lambda>_. False), mmio = [], vwoken = [], req = (\<lambda>_. Idle), sectors = (\<lambda>_. replicate 512 0), dev_seen = 0, pend = []\<rparr>"

definition good_device :: device where
  "good_device s l s' \<longleftrightarrow>
     l = None \<and> dev_seen s \<noteq> avail_idx s \<and> s' = dev_fetch s \<or>
     (\<exists>h b j w n. l = Some h \<and> h \<in> set (pend s) \<and> request s h = Some (b, j, w, n) \<and> s' = dev_complete h b j w n s)"

lemma good_device_ok: "device_ok good_device"
  by (auto simp: device_ok_def good_device_def)

lemma boot_disk_ok: "vboot boot_disk"
  by (simp add: vboot_def boot_disk_def)

lemma boot_init: "\<exists>km' s. virtio_disk_init boot_regs boot_km boot_disk = Ret (km', s)"
  by (simp add: virtio_disk_init_def boot_regs_def Let_def boot_km_def kalloc_def buddy_alloc_def buddy_alloc_loop.simps MAX_ORDER_def
      split: prod.splits)

lemma boot_start: "virtio_disk_init boot_regs boot_km boot_disk = Ret (km', s) \<Longrightarrow> req s b = Idle"
  by (auto simp: virtio_disk_init_def boot_disk_def wr_def Let_def split: if_splits prod.splits)

lemma no_heads:
  assumes "vinv s" "waiting s = {}"
  shows "availq s = []" "pend s = []"
  using vinvD(7) [OF assms(1)] assms(2) unfolding waiting_def by auto

text \<open>From the initial state: a caller writes buffer 0, the device fetches its chain and can complete it.\<close>

lemma sample_run:
  assumes "virtio_disk_init boot_regs boot_km boot_disk = Ret (km', s0)"
  obtains s h s' where "vreach good_device boot_regs s0 s" "vstep good_device boot_regs s (Device (Some h)) s'" "\<exists>w j k. req s 0 = Wait w h j k"
proof -
  have inv0: "vinv s0" by (rule init_inv [OF assms boot_disk_ok])
  have idle: "req s0 b = Idle" for b by (rule boot_start [OF assms])
  define s1 where "s1 = s0\<lparr>vbufs := (vbufs s0)(0 := vbufs boot_disk 0), req := (req s0)(0 := Start True)\<rparr>"
  have st1: "vstep good_device boot_regs s0 (Issue 0) s1"
    unfolding s1_def by (rule vstep.issue) (simp_all add: idle boot_disk_def BSIZE_def)
  note r1 = vreach.step [OF vreach.start st1] and inv1 = vstep_inv [OF good_device_ok inv0 st1]
  have rq1: "req s1 0 = Start True" and w1: "waiting s1 = {}" by (simp_all add: s1_def waiting_def idle)
  from inv1 rq1 show ?thesis
  proof (cases rule: start_cases)
    case (none s')
    then show ?thesis using start_returns [OF inv1, of 0 True] w1 by simp
  next
    case (some i j k sx s2)
    have st2: "vstep good_device boot_regs s1 (Submit 0) s2" unfolding some(2) by (rule vstep.submit [OF rq1 some(1)])
    note r2 = vreach.step [OF r1 st2]
    have q2: "availq s2 = [i]" "pend s2 = []" using some(4,7) no_heads [OF inv1 w1] by simp_all
    then have ne: "dev_seen s2 \<noteq> avail_idx s2" using aq.empty_iff [of s2] by auto
    have st3: "vstep good_device boot_regs s2 (Device None) (dev_fetch s2)"
      by (rule vstep.device) (simp add: good_device_def ne)
    note r3 = vreach.step [OF r2 st3] and f = fetch_inv [OF some(3) ne]
    have rq: "req (dev_fetch s2) 0 = Wait True i j k" using some(10) by (simp add: dev_fetch_def get_avail_def)
    have "length (pend (dev_fetch s2)) = 1" using q2(2) by (simp add: dev_fetch_def get_avail_def)
    then have "i \<in> set (pend (dev_fetch s2))" using f(2) q2 by (cases "pend (dev_fetch s2)") auto
    then have "vstep good_device boot_regs (dev_fetch s2) (Device (Some i)) (dev_complete i 0 i True (ucast (blockno (vbufs (dev_fetch s2) 0) * 2)) (dev_fetch s2))"
      using chain_request [OF vinvD(3) [OF f(1) rq]] by (intro vstep.device) (auto simp: good_device_def)
    then show ?thesis using that [OF r3] rq by blast
  qed
qed

theorem virtio_refines_witness:
  "\<exists>s h s' (t :: bio) w. vstep good_device boot_regs s (Device (Some h)) s' \<and> 0 \<in> outstanding s \<and> 0 \<notin> outstanding s' \<and>
     shows_as s t \<and> shows_as s' (virtio_disk_rw 0 w t)"
proof -
  obtain km' s0 where i: "virtio_disk_init boot_regs boot_km boot_disk = Ret (km', s0)" using boot_init by blast
  from i obtain s h s' where r: "vreach good_device boot_regs s0 s" "vstep good_device boot_regs s (Device (Some h)) s'" "\<exists>w j k. req s 0 = Wait w h j k"
    by (rule sample_run)
  have inv: "vinv s" by (rule vreach_inv [OF r(1) good_device_ok init_inv [OF i boot_disk_ok]])
  define t :: bio where "t = undefined\<lparr>bufs := vbufs s, disk := disk_of s\<rparr>"
  have t: "shows_as s t" by (simp add: shows_as_def t_def)
  obtain b w j k where b: "req s b = Wait w h j k" "shows_as s' (virtio_disk_rw b w t)" "b \<in> outstanding s" "outstanding s' = outstanding s - {b}"
    using virtio_refines [OF i boot_disk_ok good_device_ok r(1,2) t] by auto
  have "b = 0" using r(3) vinvD(4) [OF inv b(1), of 0] by blast
  then show ?thesis using r(2) t b by blast
qed


end
