(* ===== verification/Asm.thy ===== *)
theory Asm
  imports Riscv
begin

text \<open>
  The assembly of the kernel: \<open>kernel/trampoline.S\<close>, \<open>kernel/kernelvec.S\<close> and \<open>kernel/swtch.S\<close>, which save and
  restore registers around traps and context switches. The routines are lists of instructions,
  run by an interpreter of the few instructions they use. How the hardware translates addresses under a
  page table is a parameter.
\<close>

section \<open>Machine\<close>

datatype reg =
    ZERO | RA | SP | GP | TP | T0 | T1 | T2 | S0 | S1 | A0 | A1 | A2 | A3 | A4 | A5 | A6 | A7
  | S2 | S3 | S4 | S5 | S6 | S7 | S8 | S9 | S10 | S11 | T3 | T4 | T5 | T6

datatype csr = Sscratch | Satp

datatype instr =
    Sd reg u64 reg | Ld reg u64 reg | Addi reg reg u64 | Li reg u64
  | Csrw csr reg | Csrr reg csr | Sfence | Jr reg | Return | Sret

text \<open>Where control goes when the routine is left.\<close>

datatype jump = Next | JumpTo u64 | ToTrapped

record hart =
  regs :: "reg \<Rightarrow> u64"
  csrs :: "csr \<Rightarrow> u64"
  hmem :: bytemem
  goes :: jump

type_synonym mmu = "u64 \<Rightarrow> u64 \<Rightarrow> addr"

definition rd :: "hart \<Rightarrow> reg \<Rightarrow> u64" where
  "rd s r = (if r = ZERO then 0 else regs s r)"

definition set_reg :: "reg \<Rightarrow> u64 \<Rightarrow> hart \<Rightarrow> hart" where
  "set_reg r v s = s\<lparr>regs := (regs s)(r := v)\<rparr>"

definition phys_of :: "mmu \<Rightarrow> hart \<Rightarrow> u64 \<Rightarrow> addr" where
  "phys_of tr s va = tr (csrs s Satp) va"

fun istep :: "mmu \<Rightarrow> instr \<Rightarrow> hart \<Rightarrow> hart" where
  "istep tr (Sd r off b) s = s\<lparr>hmem := store64 (hmem s) (phys_of tr s (rd s b + off)) (rd s r)\<rparr>"
| "istep tr (Ld r off b) s = set_reg r (load64 (hmem s) (phys_of tr s (rd s b + off))) s"
| "istep tr (Addi r b imm) s = set_reg r (rd s b + imm) s"
| "istep tr (Li r imm) s = set_reg r imm s"
| "istep tr (Csrw c r) s = s\<lparr>csrs := (csrs s)(c := rd s r)\<rparr>"
| "istep tr (Csrr r c) s = set_reg r (csrs s c) s"
| "istep tr Sfence s = s"
| "istep tr (Jr r) s = s\<lparr>goes := JumpTo (rd s r)\<rparr>"
| "istep tr Return s = s\<lparr>goes := JumpTo (rd s RA)\<rparr>"
| "istep tr Sret s = s\<lparr>goes := ToTrapped\<rparr>"

definition run :: "mmu \<Rightarrow> instr list \<Rightarrow> hart \<Rightarrow> hart" where
  "run tr is s = fold (istep tr) is s"

section \<open>The routines\<close>

definition uservec :: "instr list" where
  "uservec =
     [Csrw Sscratch A0, Li A0 TRAPFRAME,
      Sd RA 40 A0, Sd SP 48 A0, Sd GP 56 A0, Sd TP 64 A0, Sd T0 72 A0, Sd T1 80 A0, Sd T2 88 A0, Sd S0 96 A0, Sd S1 104 A0,
      Sd A1 120 A0, Sd A2 128 A0, Sd A3 136 A0, Sd A4 144 A0, Sd A5 152 A0, Sd A6 160 A0, Sd A7 168 A0,
      Sd S2 176 A0, Sd S3 184 A0, Sd S4 192 A0, Sd S5 200 A0, Sd S6 208 A0, Sd S7 216 A0, Sd S8 224 A0, Sd S9 232 A0,
      Sd S10 240 A0, Sd S11 248 A0, Sd T3 256 A0, Sd T4 264 A0, Sd T5 272 A0, Sd T6 280 A0,
      Csrr T0 Sscratch, Sd T0 112 A0,
      Ld SP 8 A0, Ld TP 32 A0, Ld T0 16 A0, Ld T1 0 A0,
      Sfence, Csrw Satp T1, Sfence, Jr T0]"

definition userret :: "instr list" where
  "userret =
     [Sfence, Csrw Satp A0, Sfence, Li A0 TRAPFRAME,
      Ld RA 40 A0, Ld SP 48 A0, Ld GP 56 A0, Ld TP 64 A0, Ld T0 72 A0, Ld T1 80 A0, Ld T2 88 A0, Ld S0 96 A0, Ld S1 104 A0,
      Ld A1 120 A0, Ld A2 128 A0, Ld A3 136 A0, Ld A4 144 A0, Ld A5 152 A0, Ld A6 160 A0, Ld A7 168 A0,
      Ld S2 176 A0, Ld S3 184 A0, Ld S4 192 A0, Ld S5 200 A0, Ld S6 208 A0, Ld S7 216 A0, Ld S8 224 A0, Ld S9 232 A0,
      Ld S10 240 A0, Ld S11 248 A0, Ld T3 256 A0, Ld T4 264 A0, Ld T5 272 A0, Ld T6 280 A0,
      Ld A0 112 A0, Sret]"

text \<open>\<open>kernelvec\<close> before and after its call of \<open>kerneltrap\<close>.\<close>

definition kernelvec_in :: "instr list" where
  "kernelvec_in =
     [Addi SP SP (- 256),
      Sd RA 0 SP, Sd SP 8 SP, Sd GP 16 SP, Sd TP 24 SP, Sd T0 32 SP, Sd T1 40 SP, Sd T2 48 SP,
      Sd A0 72 SP, Sd A1 80 SP, Sd A2 88 SP, Sd A3 96 SP, Sd A4 104 SP, Sd A5 112 SP, Sd A6 120 SP, Sd A7 128 SP,
      Sd T3 216 SP, Sd T4 224 SP, Sd T5 232 SP, Sd T6 240 SP]"

definition kernelvec_out :: "instr list" where
  "kernelvec_out =
     [Ld RA 0 SP, Ld SP 8 SP, Ld GP 16 SP, Ld T0 32 SP, Ld T1 40 SP, Ld T2 48 SP,
      Ld A0 72 SP, Ld A1 80 SP, Ld A2 88 SP, Ld A3 96 SP, Ld A4 104 SP, Ld A5 112 SP, Ld A6 120 SP, Ld A7 128 SP,
      Ld T3 216 SP, Ld T4 224 SP, Ld T5 232 SP, Ld T6 240 SP,
      Addi SP SP 256, Sret]"

definition swtch :: "instr list" where
  "swtch =
     [Sd RA 0 A0, Sd SP 8 A0, Sd S0 16 A0, Sd S1 24 A0, Sd S2 32 A0, Sd S3 40 A0, Sd S4 48 A0, Sd S5 56 A0,
      Sd S6 64 A0, Sd S7 72 A0, Sd S8 80 A0, Sd S9 88 A0, Sd S10 96 A0, Sd S11 104 A0,
      Ld RA 0 A1, Ld SP 8 A1, Ld S0 16 A1, Ld S1 24 A1, Ld S2 32 A1, Ld S3 40 A1, Ld S4 48 A1, Ld S5 56 A1,
      Ld S6 64 A1, Ld S7 72 A1, Ld S8 80 A1, Ld S9 88 A1, Ld S10 96 A1, Ld S11 104 A1,
      Return]"

section \<open>Saving and restoring\<close>

definition saves :: "reg \<Rightarrow> (reg \<times> nat) list \<Rightarrow> instr list" where
  "saves b ps = map (\<lambda>(r, k). Sd r (8 * of_nat k) b) ps"

definition loads :: "reg \<Rightarrow> (reg \<times> nat) list \<Rightarrow> instr list" where
  "loads b ps = map (\<lambda>(r, k). Ld r (8 * of_nat k) b) ps"

text \<open>The slots of the registers in \<open>struct trapframe\<close> and \<open>struct context\<close>, in units of 8 bytes; \<open>a0\<close> is treated apart.\<close>

definition trapframe_slots :: "(reg \<times> nat) list" where
  "trapframe_slots = [(RA, 5), (SP, 6), (GP, 7), (TP, 8), (T0, 9), (T1, 10), (T2, 11), (S0, 12), (S1, 13), (A0, 14),
     (A1, 15), (A2, 16), (A3, 17), (A4, 18), (A5, 19), (A6, 20), (A7, 21),
     (S2, 22), (S3, 23), (S4, 24), (S5, 25), (S6, 26), (S7, 27), (S8, 28), (S9, 29), (S10, 30), (S11, 31),
     (T3, 32), (T4, 33), (T5, 34), (T6, 35)]"

definition tf_slots :: "(reg \<times> nat) list" where
  "tf_slots = [p \<leftarrow> trapframe_slots. fst p \<noteq> A0]"

definition ctx_slots :: "(reg \<times> nat) list" where
  "ctx_slots = [(RA, 0), (SP, 1), (S0, 2), (S1, 3), (S2, 4), (S3, 5), (S4, 6), (S5, 7), (S6, 8), (S7, 9), (S8, 10), (S9, 11),
     (S10, 12), (S11, 13)]"

lemma uservec_eq:
  "uservec = [Csrw Sscratch A0, Li A0 TRAPFRAME] @ saves A0 tf_slots @ [Csrr T0 Sscratch, Sd T0 112 A0] @
     loads A0 [(SP, 1), (TP, 4), (T0, 2), (T1, 0)] @ [Sfence, Csrw Satp T1, Sfence, Jr T0]"
  by (simp add: uservec_def saves_def loads_def tf_slots_def trapframe_slots_def)

lemma userret_eq:
  "userret = [Sfence, Csrw Satp A0, Sfence, Li A0 TRAPFRAME] @ loads A0 tf_slots @ [Ld A0 112 A0, Sret]"
  by (simp add: userret_def loads_def tf_slots_def trapframe_slots_def)

lemma swtch_eq: "swtch = saves A0 ctx_slots @ loads A1 ctx_slots @ [Return]"
  by (simp add: swtch_def saves_def loads_def ctx_slots_def)

lemma run_append: "run tr (is @ js) s = run tr js (run tr is s)"
  by (simp add: run_def)

lemma aligned8_add: "aligned8 a \<Longrightarrow> aligned8 (a + 8 * of_nat k)"
proof -
  assume "aligned8 a"
  moreover have "(8 :: nat) dvd 2 ^ 64" by simp
  ultimately show ?thesis unfolding aligned8_def
    by (simp add: unat_word_ariths unat_of_nat dvd_mod_iff)
qed

lemma slot_eq:
  assumes "j < 512" "k < 512"
  shows "a + 8 * of_nat j = a + 8 * (of_nat k :: u64) \<longleftrightarrow> j = k"
proof
  assume "a + 8 * of_nat j = a + 8 * (of_nat k :: u64)"
  then have "unat (8 * of_nat j :: u64) = unat (8 * of_nat k :: u64)" by simp
  then show "j = k" using assms by (simp add: unat_word_ariths unat_of_nat)
qed simp

definition stored :: "addr \<Rightarrow> (reg \<Rightarrow> u64) \<Rightarrow> (reg \<times> nat) list \<Rightarrow> bytemem \<Rightarrow> bytemem" where
  "stored base v ps m = fold (\<lambda>(r, k) m. store64 m (base + 8 * of_nat k) (v r)) ps m"

definition loaded :: "addr \<Rightarrow> bytemem \<Rightarrow> (reg \<times> nat) list \<Rightarrow> (reg \<Rightarrow> u64) \<Rightarrow> reg \<Rightarrow> u64" where
  "loaded base m ps R = fold (\<lambda>(r, k) R. R(r := load64 m (base + 8 * of_nat k))) ps R"

lemma run_saves:
  assumes "\<And>r k. (r, k) \<in> set ps \<Longrightarrow> phys_of tr s (rd s b + 8 * of_nat k) = base + 8 * of_nat k"
  shows "run tr (saves b ps) s = s\<lparr>hmem := stored base (rd s) ps (hmem s)\<rparr>"
  using assms
proof (induction ps arbitrary: s)
  case Nil
  then show ?case by (simp add: run_def saves_def stored_def)
next
  case (Cons p ps)
  obtain r k where p: "p = (r, k)" by force
  define s1 where "s1 = s\<lparr>hmem := store64 (hmem s) (base + 8 * of_nat k) (rd s r)\<rparr>"
  have r1: "rd s1 = rd s" "phys_of tr s1 = phys_of tr s" by (auto simp: s1_def rd_def phys_of_def fun_eq_iff)
  have "run tr (saves b (p # ps)) s = run tr (saves b ps) s1"
    using Cons.prems [of r k] by (simp add: run_def saves_def p s1_def)
  also have "\<dots> = s1\<lparr>hmem := stored base (rd s1) ps (hmem s1)\<rparr>"
    by (rule Cons.IH) (use Cons.prems in \<open>auto simp: r1\<close>)
  finally show ?case unfolding r1 by (simp add: s1_def stored_def p)
qed

lemma run_loads:
  assumes "\<And>r k. (r, k) \<in> set ps \<Longrightarrow> phys_of tr s (rd s b + 8 * of_nat k) = base + 8 * of_nat k \<and> r \<noteq> b"
  shows "run tr (loads b ps) s = s\<lparr>regs := loaded base (hmem s) ps (regs s)\<rparr>"
  using assms
proof (induction ps arbitrary: s)
  case Nil
  then show ?case by (simp add: run_def loads_def loaded_def)
next
  case (Cons p ps)
  obtain r k where p: "p = (r, k)" by force
  define s1 where "s1 = set_reg r (load64 (hmem s) (base + 8 * of_nat k)) s"
  have r1: "rd s1 b = rd s b" "phys_of tr s1 = phys_of tr s"
    using Cons.prems [of r k] p by (auto simp: s1_def rd_def phys_of_def set_reg_def fun_eq_iff)
  have "run tr (loads b (p # ps)) s = run tr (loads b ps) s1"
    using Cons.prems [of r k] by (simp add: run_def loads_def p s1_def)
  also have "\<dots> = s1\<lparr>regs := loaded base (hmem s1) ps (regs s1)\<rparr>"
    by (rule Cons.IH) (use Cons.prems in \<open>auto simp: r1\<close>)
  finally show ?case by (simp add: s1_def loaded_def p set_reg_def)
qed

lemma load_stored_out:
  assumes "aligned8 base" "j < 512" "\<And>r k. (r, k) \<in> set ps \<Longrightarrow> k < 512 \<and> k \<noteq> j"
  shows "load64 (stored base v ps m) (base + 8 * of_nat j) = load64 m (base + 8 * of_nat j)"
  using assms(3)
proof (induction ps arbitrary: m)
  case (Cons p ps)
  obtain r k where p: "p = (r, k)" by force
  have "load64 (store64 m (base + 8 * of_nat k) (v r)) (base + 8 * of_nat j) = load64 m (base + 8 * of_nat j)"
    using Cons.prems [of r k] slot_eq [of j k base] assms(1,2) p by (intro load64_store64_other aligned8_add) auto
  moreover have "load64 (stored base v ps (store64 m (base + 8 * of_nat k) (v r))) (base + 8 * of_nat j) =
      load64 (store64 m (base + 8 * of_nat k) (v r)) (base + 8 * of_nat j)"
    by (rule Cons.IH) (use Cons.prems in auto)
  ultimately show ?case by (simp add: stored_def p)
qed (simp add: stored_def)

lemma stored_cong: "(\<And>r k. (r, k) \<in> set ps \<Longrightarrow> v r = v' r) \<Longrightarrow> stored base v ps m = stored base v' ps m"
  unfolding stored_def by (rule fold_cong) auto

lemma load_stored_in:
  assumes "aligned8 base" "distinct (map snd ps)" "\<And>r k. (r, k) \<in> set ps \<Longrightarrow> k < 512" "(r, j) \<in> set ps"
  shows "load64 (stored base v ps m) (base + 8 * of_nat j) = v r"
  using assms(2-4)
proof (induction ps arbitrary: m)
  case (Cons p ps)
  show ?case
  proof (cases "p = (r, j)")
    case True
    have "load64 (stored base v ps (store64 m (base + 8 * of_nat j) (v r))) (base + 8 * of_nat j) =
        load64 (store64 m (base + 8 * of_nat j) (v r)) (base + 8 * of_nat j)"
      using Cons.prems True by (intro load_stored_out [OF assms(1)]) (auto intro: rev_image_eqI)
    then show ?thesis by (simp add: stored_def True load64_store64_same)
  next
    case False
    then show ?thesis using Cons by (auto simp: stored_def)
  qed
qed simp

lemma stored_outside:
  "(\<And>r k. (r, k) \<in> set ps \<Longrightarrow> \<not> in_range x (base + 8 * of_nat k) 8) \<Longrightarrow> stored base v ps m x = m x"
proof (induction ps arbitrary: m)
  case (Cons p ps)
  obtain r k where p: "p = (r, k)" by force
  have "stored base v (p # ps) m x = stored base v ps (store64 m (base + 8 * of_nat k) (v r)) x" by (simp add: stored_def p)
  also have "\<dots> = store64 m (base + 8 * of_nat k) (v r) x" by (rule Cons.IH) (use Cons.prems in auto)
  finally show ?case using Cons.prems [of r k] p by (simp add: store64_apply)
qed (simp add: stored_def)

lemma loaded_out: "r \<notin> fst ` set ps \<Longrightarrow> loaded base m ps R r = R r"
  by (induction ps arbitrary: R) (auto simp: loaded_def)

lemma loaded_in:
  "distinct (map fst ps) \<Longrightarrow> (r, k) \<in> set ps \<Longrightarrow> loaded base m ps R r = load64 m (base + 8 * of_nat k)"
proof (induction ps arbitrary: R)
  case (Cons p ps)
  show ?case
  proof (cases "p = (r, k)")
    case True
    have "loaded base m ps (R(r := load64 m (base + 8 * of_nat k))) r = load64 m (base + 8 * of_nat k)"
      using Cons.prems True by (subst loaded_out) auto
    then show ?thesis by (simp add: loaded_def True)
  next
    case False
    then show ?thesis using Cons by (cases p) (auto simp: loaded_def)
  qed
qed simp

section \<open>Traps from user space\<close>

lemma slots_facts:
  "distinct (map fst tf_slots)" "distinct (map snd tf_slots)" "\<And>r k. (r, k) \<in> set tf_slots \<Longrightarrow> 5 \<le> k \<and> k < 36 \<and> k \<noteq> 14 \<and> r \<noteq> A0 \<and> r \<noteq> ZERO"
  "set trapframe_slots = insert (A0, 14) (set tf_slots)" "\<And>r. r \<noteq> ZERO \<Longrightarrow> \<exists>k. (r, k) \<in> set trapframe_slots"
proof -
  show "distinct (map fst tf_slots)" "distinct (map snd tf_slots)" "set trapframe_slots = insert (A0, 14) (set tf_slots)"
    by (auto simp: tf_slots_def trapframe_slots_def)
  show "5 \<le> k \<and> k < 36 \<and> k \<noteq> 14 \<and> r \<noteq> A0 \<and> r \<noteq> ZERO" if "(r, k) \<in> set tf_slots" for r k
    using that by (auto simp: tf_slots_def trapframe_slots_def)
  show "\<exists>k. (r, k) \<in> set trapframe_slots" if "r \<noteq> ZERO" for r
    using that by (cases r) (simp_all add: trapframe_slots_def)
qed

definition tf_mapped :: "mmu \<Rightarrow> u64 \<Rightarrow> addr \<Rightarrow> bool" where
  "tf_mapped tr usatp frame \<longleftrightarrow> aligned8 frame \<and> (\<forall>k < 36. tr usatp (TRAPFRAME + 8 * of_nat k) = frame + 8 * of_nat k)"

lemma uservec_spec:
  assumes tf: "tf_mapped tr (csrs s Satp) frame" and s1: "s1 = run tr uservec s"
  shows "hmem s1 = store64 (stored frame (regs s) tf_slots (hmem s)) (frame + 112) (regs s A0)"
    "regs s1 SP = load64 (hmem s) (frame + 8)" "regs s1 TP = load64 (hmem s) (frame + 32)"
    "csrs s1 Satp = load64 (hmem s) frame" "goes s1 = JumpTo (load64 (hmem s) (frame + 16))"
proof -
  define sa where "sa = s\<lparr>csrs := (csrs s)(Sscratch := regs s A0), regs := (regs s)(A0 := TRAPFRAME)\<rparr>"
  have a: "run tr [Csrw Sscratch A0, Li A0 TRAPFRAME] s = sa" by (simp add: run_def sa_def rd_def set_reg_def)
  have ph: "phys_of tr x (rd x A0 + 8 * of_nat k) = frame + 8 * of_nat k"
    if "csrs x Satp = csrs s Satp" "regs x A0 = TRAPFRAME" "k < 36" for x k
    using tf that by (simp add: phys_of_def rd_def tf_mapped_def)
  define sb where "sb = sa\<lparr>hmem := stored frame (regs s) tf_slots (hmem s)\<rparr>"
  have "stored frame (rd sa) tf_slots (hmem s) = stored frame (regs s) tf_slots (hmem s)"
    using slots_facts(3) by (intro stored_cong) (simp add: sa_def rd_def)
  moreover have "run tr (saves A0 tf_slots) sa = sa\<lparr>hmem := stored frame (rd sa) tf_slots (hmem sa)\<rparr>"
  proof (rule run_saves)
    fix r k assume "(r, k) \<in> set tf_slots"
    then have "k < 36" using slots_facts(3) by blast
    then show "phys_of tr sa (rd sa A0 + 8 * of_nat k) = frame + 8 * of_nat k" by (intro ph) (simp_all add: sa_def)
  qed
  ultimately have b: "run tr (saves A0 tf_slots) sa = sb" by (simp add: sb_def sa_def)
  define sc where "sc = sb\<lparr>regs := (regs sb)(T0 := regs s A0), hmem := store64 (hmem sb) (frame + 112) (regs s A0)\<rparr>"
  have c: "run tr [Csrr T0 Sscratch, Sd T0 112 A0] sb = sc"
    using ph [of "set_reg T0 (regs s A0) sb" 14]
    by (simp add: run_def sc_def sb_def sa_def set_reg_def) (simp add: rd_def)
  define ld where "ld = [(SP, 1 :: nat), (TP, 4), (T0, 2), (T1, 0)]"
  have d: "run tr (loads A0 ld) sc = sc\<lparr>regs := loaded frame (hmem sc) ld (regs sc)\<rparr>" (is "_ = ?sd")
  proof (rule run_loads)
    fix r k assume "(r, k) \<in> set ld"
    then have "k < 36" "r \<noteq> A0" by (auto simp: ld_def)
    moreover have "csrs sc Satp = csrs s Satp" "regs sc A0 = TRAPFRAME" by (simp_all add: sc_def sb_def sa_def)
    ultimately show "phys_of tr sc (rd sc A0 + 8 * of_nat k) = frame + 8 * of_nat k \<and> r \<noteq> A0" using ph by blast
  qed
  have "s1 = run tr [Sfence, Csrw Satp T1, Sfence, Jr T0] ?sd"
    unfolding s1 uservec_eq run_append a b c ld_def [symmetric] d ..
  then have e: "s1 = ?sd\<lparr>csrs := (csrs sc)(Satp := regs ?sd T1), goes := JumpTo (regs ?sd T0)\<rparr>"
    by (simp add: run_def rd_def)
  have hm: "hmem sc = store64 (stored frame (regs s) tf_slots (hmem s)) (frame + 112) (regs s A0)" by (simp add: sc_def sb_def)
  have al: "aligned8 frame" using tf by (simp add: tf_mapped_def)
  have old: "load64 (hmem sc) (frame + 8 * of_nat k) = load64 (hmem s) (frame + 8 * of_nat k)" if "k < 5" for k
  proof -
    have "load64 (hmem sc) (frame + 8 * of_nat k) = load64 (stored frame (regs s) tf_slots (hmem s)) (frame + 8 * of_nat k)"
      using slot_eq [of k 14 frame] that aligned8_add [OF al, of 14] aligned8_add [OF al, of k] unfolding hm
      by (intro load64_store64_other) simp_all
    also have "\<dots> = load64 (hmem s) (frame + 8 * of_nat k)"
      using slots_facts(3) that by (intro load_stored_out [OF al]) fastforce+
    finally show ?thesis .
  qed
  show "hmem s1 = store64 (stored frame (regs s) tf_slots (hmem s)) (frame + 112) (regs s A0)" by (simp add: e hm)
  show "regs s1 SP = load64 (hmem s) (frame + 8)" "regs s1 TP = load64 (hmem s) (frame + 32)"
    "csrs s1 Satp = load64 (hmem s) frame" "goes s1 = JumpTo (load64 (hmem s) (frame + 16))"
    using old [of 0] old [of 1] old [of 2] old [of 4] by (simp_all add: e ld_def loaded_def)
qed

lemma uservec_slots:
  assumes tf: "tf_mapped tr (csrs s Satp) frame" and s1: "s1 = run tr uservec s" and rk: "(r, k) \<in> set trapframe_slots"
  shows "load64 (hmem s1) (frame + 8 * of_nat k) = regs s r"
proof -
  have al: "aligned8 frame" using tf by (simp add: tf_mapped_def)
  note hm = uservec_spec(1) [OF tf s1]
  show ?thesis
  proof (cases "(r, k) = (A0, 14)")
    case True
    then show ?thesis by (simp add: hm load64_store64_same)
  next
    case False
    then have i: "(r, k) \<in> set tf_slots" using rk slots_facts(4) by blast
    note K = slots_facts(3) [OF i]
    have "load64 (hmem s1) (frame + 8 * of_nat k) = load64 (stored frame (regs s) tf_slots (hmem s)) (frame + 8 * of_nat k)"
      using slot_eq [of k 14 frame] K aligned8_add [OF al, of 14] aligned8_add [OF al, of k] unfolding hm
      by (intro load64_store64_other) simp_all
    also have "\<dots> = regs s r" using slots_facts(3) by (intro load_stored_in [OF al slots_facts(2) _ i]) fastforce
    finally show ?thesis .
  qed
qed

lemma userret_spec:
  assumes tf: "tf_mapped tr (rd s A0) frame" and s3: "s3 = run tr userret s"
  shows "hmem s3 = hmem s" "csrs s3 Satp = rd s A0" "goes s3 = ToTrapped"
    "(r, k) \<in> set trapframe_slots \<Longrightarrow> regs s3 r = load64 (hmem s) (frame + 8 * of_nat k)"
proof -
  define sa where "sa = s\<lparr>csrs := (csrs s)(Satp := rd s A0), regs := (regs s)(A0 := TRAPFRAME)\<rparr>"
  have a: "run tr [Sfence, Csrw Satp A0, Sfence, Li A0 TRAPFRAME] s = sa" by (simp add: run_def sa_def set_reg_def)
  have ph: "phys_of tr x (rd x A0 + 8 * of_nat k) = frame + 8 * of_nat k"
    if "csrs x Satp = rd s A0" "regs x A0 = TRAPFRAME" "k < 36" for x k
    using tf that by (simp add: phys_of_def rd_def tf_mapped_def)
  have b: "run tr (loads A0 tf_slots) sa = sa\<lparr>regs := loaded frame (hmem sa) tf_slots (regs sa)\<rparr>" (is "_ = ?sb")
  proof (rule run_loads)
    fix r k assume "(r, k) \<in> set tf_slots"
    then have "k < 36" "r \<noteq> A0" using slots_facts(3) by blast+
    moreover have "csrs sa Satp = rd s A0" "regs sa A0 = TRAPFRAME" by (simp_all add: sa_def)
    ultimately show "phys_of tr sa (rd sa A0 + 8 * of_nat k) = frame + 8 * of_nat k \<and> r \<noteq> A0" using ph by blast
  qed
  have A0: "regs ?sb A0 = TRAPFRAME" 
  proof -
    have "A0 \<notin> fst ` set tf_slots" using slots_facts(3) by fastforce
    then show ?thesis by (simp add: loaded_out sa_def)
  qed
  have "s3 = run tr [Ld A0 112 A0, Sret] ?sb" unfolding s3 userret_eq run_append a b ..
  also have "\<dots> = ?sb\<lparr>regs := (regs ?sb)(A0 := load64 (hmem s) (frame + 112)), goes := ToTrapped\<rparr>"
    using ph [of ?sb 14] A0 by (simp add: run_def set_reg_def sa_def)
  finally have e: "s3 = ?sb\<lparr>regs := (regs ?sb)(A0 := load64 (hmem s) (frame + 112)), goes := ToTrapped\<rparr>" .
  show "hmem s3 = hmem s" "csrs s3 Satp = rd s A0" "goes s3 = ToTrapped" by (simp_all add: e sa_def)
  show "regs s3 r = load64 (hmem s) (frame + 8 * of_nat k)" if "(r, k) \<in> set trapframe_slots"
  proof (cases "(r, k) = (A0, 14)")
    case True
    then show ?thesis by (simp add: e)
  next
    case False
    then have i: "(r, k) \<in> set tf_slots" using that slots_facts(4) by blast
    then show ?thesis using loaded_in [OF slots_facts(1) i, of frame "hmem s"] slots_facts(3) [OF i] by (simp add: e sa_def)
  qed
qed

lemma slot_in_area:
  assumes "in_range x (base + 8 * of_nat k) 8" "i \<le> k" "k < n" "n \<le> 512"
  shows "in_range x (base + 8 * of_nat i) (8 * (n - i))"
proof -
  obtain d where d: "d < 8" "x = base + 8 * of_nat k + of_nat d"
    using assms(1) by (metis in_range_def of_nat_eq_diff)
  obtain m where m: "k = i + m" using assms(2) le_Suc_ex by blast
  have "x - (base + 8 * of_nat i) = of_nat (8 * m + d)" using d(2) by (simp add: m algebra_simps)
  moreover have "8 * m + d < 2 ^ 64" using assms(3,4) d(1) m by simp
  ultimately have "unat (x - (base + 8 * of_nat i)) = 8 * m + d" by (simp only: unat_of_nat_64)
  then show ?thesis using assms(3) d(1) m by (simp add: in_range_def)
qed

text \<open>
  C33. The trampoline saves and restores the whole register file. With the trap frame page of
  the process mapped at \<open>TRAPFRAME\<close> by the user page table, \<open>uservec\<close> stores every user register in its slot of
  \<open>struct trapframe\<close> and writes nothing else; it leaves for the handler, on the kernel stack,
  with the hart number and the kernel page table, that the trap frame names. \<open>userret\<close> switches to the
  page table it is given, loads every register from its slot and leaves by \<open>sret\<close>. So when the kernel
  has not changed the slots in between, the process resumes with every register as it was.
\<close>

theorem trampoline_roundtrip:
  assumes tf: "tf_mapped tr (csrs s Satp) frame" and s1: "s1 = run tr uservec s"
    and s2: "rd s2 A0 = csrs s Satp" and s3: "s3 = run tr userret s2"
  shows "(\<forall>(r, k) \<in> set trapframe_slots. load64 (hmem s1) (frame + 8 * of_nat k) = regs s r) \<and>
    (\<forall>x. \<not> in_range x (frame + 40) 248 \<longrightarrow> hmem s1 x = hmem s x) \<and>
    goes s1 = JumpTo (load64 (hmem s) (frame + 16)) \<and> regs s1 SP = load64 (hmem s) (frame + 8) \<and>
    regs s1 TP = load64 (hmem s) (frame + 32) \<and> csrs s1 Satp = load64 (hmem s) frame \<and>
    goes s3 = ToTrapped \<and> csrs s3 Satp = csrs s Satp \<and> hmem s3 = hmem s2 \<and>
    (\<forall>(r, k) \<in> set trapframe_slots. regs s3 r = load64 (hmem s2) (frame + 8 * of_nat k)) \<and>
    ((\<forall>(r, k) \<in> set trapframe_slots. load64 (hmem s2) (frame + 8 * of_nat k) = load64 (hmem s1) (frame + 8 * of_nat k)) \<longrightarrow>
     (\<forall>r. r \<noteq> ZERO \<longrightarrow> regs s3 r = regs s r))"
proof -
  note U = uservec_spec [OF tf s1] and R = userret_spec [OF tf [folded s2] s3]
  have slots: "load64 (hmem s1) (frame + 8 * of_nat k) = regs s r" if "(r, k) \<in> set trapframe_slots" for r k
    by (rule uservec_slots [OF tf s1 that])
  have "hmem s1 x = hmem s x" if x: "\<not> in_range x (frame + 40) 248" for x
  proof -
    have no: "\<not> in_range x (frame + 8 * of_nat k) 8" if "5 \<le> k" "k < 36" for k
      using slot_in_area [of x frame k 5 36] x that by auto
    have "\<not> in_range x (frame + 112) 8" using no [of 14] by simp
    then show ?thesis using slots_facts(3) no stored_outside [of tf_slots x frame] by (simp add: U(1) store64_apply)
  qed
  moreover have "regs s3 r = regs s r"
    if "\<forall>(r, k) \<in> set trapframe_slots. load64 (hmem s2) (frame + 8 * of_nat k) = load64 (hmem s1) (frame + 8 * of_nat k)" "r \<noteq> ZERO" for r
    using slots_facts(5) [OF that(2)] R(4) slots that(1) by fastforce
  ultimately show ?thesis using slots U(2-5) R s2 by auto
qed

theorem trampoline_roundtrip_witness:
  "\<exists>tr s. tf_mapped tr (csrs s Satp) 0x87000000 \<and>
     (\<forall>r. r \<noteq> ZERO \<longrightarrow> regs (run tr userret ((run tr uservec s)\<lparr>regs := (\<lambda>_. csrs s Satp)\<rparr>)) r = regs s r)"
proof -
  define tr :: mmu where "tr = (\<lambda>_ va. va - TRAPFRAME + 0x87000000)"
  define s where "s = \<lparr>regs = (\<lambda>r. if r = SP then 0x3000 else 7), csrs = (\<lambda>_. 5), hmem = (\<lambda>_. 0), goes = Next\<rparr>"
  define s2 where "s2 = (run tr uservec s)\<lparr>regs := (\<lambda>_. csrs s Satp)\<rparr>"
  have "tr (csrs s Satp) (TRAPFRAME + x) = 0x87000000 + x" for x by (simp add: tr_def)
  then have tf: "tf_mapped tr (csrs s Satp) 0x87000000" unfolding tf_mapped_def by (simp add: aligned8_def)
  have s2: "rd s2 A0 = csrs s Satp" "hmem s2 = hmem (run tr uservec s)" by (simp_all add: s2_def rd_def)
  have "\<forall>r. r \<noteq> ZERO \<longrightarrow> regs (run tr userret s2) r = regs s r"
    using trampoline_roundtrip [OF tf refl s2(1) refl] unfolding s2(2) by blast
  then show ?thesis using tf unfolding s2_def by blast
qed

section \<open>Context switches\<close>

lemma ctx_facts:
  "distinct (map fst ctx_slots)" "distinct (map snd ctx_slots)" "\<And>r k. (r, k) \<in> set ctx_slots \<Longrightarrow> k < 14 \<and> r \<noteq> A0 \<and> r \<noteq> A1 \<and> r \<noteq> ZERO"
  by (auto simp: ctx_slots_def)

definition direct_map :: "mmu \<Rightarrow> hart \<Rightarrow> addr \<Rightarrow> bool" where
  "direct_map tr s p \<longleftrightarrow> aligned8 p \<and> (\<forall>k < 14. tr (csrs s Satp) (p + 8 * of_nat k) = p + 8 * of_nat k)"

lemma swtch_spec:
  assumes old: "direct_map tr s (regs s A0)" and new: "direct_map tr s (regs s A1)" and s1: "s1 = run tr swtch s"
  shows "hmem s1 = stored (regs s A0) (regs s) ctx_slots (hmem s)"
    "regs s1 = loaded (regs s A1) (hmem s1) ctx_slots (regs s)" "goes s1 = JumpTo (regs s1 RA)" "csrs s1 = csrs s"
proof -
  define sa where "sa = s\<lparr>hmem := stored (regs s A0) (regs s) ctx_slots (hmem s)\<rparr>"
  have "stored (regs s A0) (rd s) ctx_slots (hmem s) = stored (regs s A0) (regs s) ctx_slots (hmem s)"
    using ctx_facts(3) by (intro stored_cong) (simp add: rd_def)
  moreover have "run tr (saves A0 ctx_slots) s = s\<lparr>hmem := stored (regs s A0) (rd s) ctx_slots (hmem s)\<rparr>"
    using old ctx_facts(3) by (intro run_saves) (auto simp: phys_of_def rd_def direct_map_def)
  ultimately have a: "run tr (saves A0 ctx_slots) s = sa" by (simp add: sa_def)
  have "run tr (loads A1 ctx_slots) sa = sa\<lparr>regs := loaded (regs s A1) (hmem sa) ctx_slots (regs sa)\<rparr>"
    using new ctx_facts(3) by (intro run_loads) (auto simp: phys_of_def rd_def direct_map_def sa_def)
  then have "s1 = run tr [Return] (sa\<lparr>regs := loaded (regs s A1) (hmem sa) ctx_slots (regs sa)\<rparr>)"
    unfolding s1 swtch_eq run_append a by simp
  then show "hmem s1 = stored (regs s A0) (regs s) ctx_slots (hmem s)"
    "regs s1 = loaded (regs s A1) (hmem s1) ctx_slots (regs s)" "goes s1 = JumpTo (regs s1 RA)" "csrs s1 = csrs s"
    by (simp_all add: run_def rd_def sa_def)
qed

text \<open>Two contexts that share no slot.\<close>

definition ctx_apart :: "addr \<Rightarrow> addr \<Rightarrow> bool" where
  "ctx_apart p q \<longleftrightarrow> (\<forall>j < 14. \<forall>k < 14. p + 8 * of_nat j \<noteq> q + 8 * of_nat k)"

lemma load_stored_apart:
  assumes "aligned8 p" "aligned8 q" "ctx_apart p q" "j < 14"
  shows "load64 (stored p v ctx_slots m) (q + 8 * of_nat j) = load64 m (q + 8 * of_nat j)"
proof -
  have "load64 (stored p v ps m) (q + 8 * of_nat j) = load64 m (q + 8 * of_nat j)" if "\<And>r k. (r, k) \<in> set ps \<Longrightarrow> k < 14" for ps
    using that
  proof (induction ps arbitrary: m)
    case (Cons x ps)
    obtain r k where x: "x = (r, k)" by force
    have "p + 8 * of_nat k \<noteq> q + 8 * of_nat j" using assms(3,4) Cons.prems [of r k] x unfolding ctx_apart_def by auto
    then have "load64 (store64 m (p + 8 * of_nat k) (v r)) (q + 8 * of_nat j) = load64 m (q + 8 * of_nat j)"
      using aligned8_add assms(1,2) by (intro load64_store64_other) auto
    moreover have "load64 (stored p v ps (store64 m (p + 8 * of_nat k) (v r))) (q + 8 * of_nat j) =
        load64 (store64 m (p + 8 * of_nat k) (v r)) (q + 8 * of_nat j)" by (rule Cons.IH) (use Cons.prems in auto)
    ultimately show ?case by (simp add: stored_def x)
  qed (simp add: stored_def)
  then show ?thesis using ctx_facts(3) by blast
qed

lemma swtch_loads:
  assumes old: "direct_map tr s (regs s A0)" and new: "direct_map tr s (regs s A1)" and ap: "ctx_apart (regs s A0) (regs s A1)"
    and s1: "s1 = run tr swtch s" and rk: "(r, k) \<in> set ctx_slots"
  shows "regs s1 r = load64 (hmem s) (regs s A1 + 8 * of_nat k)" "load64 (hmem s1) (regs s A0 + 8 * of_nat k) = regs s r"
proof -
  note S = swtch_spec [OF old new s1] and K = ctx_facts(3) [OF rk]
  have al: "aligned8 (regs s A0)" "aligned8 (regs s A1)" using old new by (simp_all add: direct_map_def)
  show "regs s1 r = load64 (hmem s) (regs s A1 + 8 * of_nat k)"
    using loaded_in [OF ctx_facts(1) rk] load_stored_apart [OF al ap] K unfolding S(2) S(1) by simp
  show "load64 (hmem s1) (regs s A0 + 8 * of_nat k) = regs s r"
    unfolding S(1) by (rule load_stored_in [OF al(1) ctx_facts(2) _ rk]) (use ctx_facts(3) in fastforce)
qed

text \<open>
  C34. \<open>swtch\<close> suspends the calling kernel thread and resumes another. It stores the return
  address, the stack pointer and the callee-saved registers of the caller in the old context and
  nothing elsewhere, loads them from the new context, leaves the other registers alone and returns to the return address found
  there. When some thread later switches to the old context, which has not been touched
  in between, the suspended caller returns from its \<open>swtch\<close> with all these registers as they were.
\<close>

theorem swtch_resumes:
  assumes "direct_map tr s old" "direct_map tr s new" "ctx_apart old new" "regs s A0 = old" "regs s A1 = new" "s1 = run tr swtch s"
    and "direct_map tr s2 other" "direct_map tr s2 old" "ctx_apart other old" "regs s2 A0 = other" "regs s2 A1 = old" "s3 = run tr swtch s2"
    and "\<And>k. k < 14 \<Longrightarrow> load64 (hmem s2) (old + 8 * of_nat k) = load64 (hmem s1) (old + 8 * of_nat k)"
  shows "(\<forall>(r, k) \<in> set ctx_slots. regs s1 r = load64 (hmem s) (new + 8 * of_nat k)) \<and> goes s1 = JumpTo (load64 (hmem s) new) \<and>
    (\<forall>r. r \<notin> fst ` set ctx_slots \<longrightarrow> regs s1 r = regs s r) \<and>
    (\<forall>x. \<not> in_range x old 112 \<longrightarrow> hmem s1 x = hmem s x) \<and>
    (\<forall>(r, k) \<in> set ctx_slots. regs s3 r = regs s r) \<and> goes s3 = JumpTo (regs s RA)"
proof -
  have d: "direct_map tr s (regs s A0)" "direct_map tr s (regs s A1)" "ctx_apart (regs s A0) (regs s A1)"
    "direct_map tr s2 (regs s2 A0)" "direct_map tr s2 (regs s2 A1)" "ctx_apart (regs s2 A0) (regs s2 A1)" using assms by simp_all
  note L = swtch_loads [OF d(1-3) assms(6), unfolded assms(4,5)] and L2 = swtch_loads(1) [OF d(4-6) assms(12), unfolded assms(11)]
  note S = swtch_spec [OF d(1,2) assms(6), unfolded assms(4,5)] and S2 = swtch_spec [OF d(4,5) assms(12)]
  have ra: "(RA, 0) \<in> set ctx_slots" by (simp add: ctx_slots_def)
  have again: "regs s3 r = regs s r" if "(r, k) \<in> set ctx_slots" for r k
    using L2 [OF that] L(2) [OF that] assms(13) [of k] ctx_facts(3) [OF that] by simp
  have "hmem s1 x = hmem s x" if "\<not> in_range x old 112" for x
    unfolding S(1) by (rule stored_outside) (use that slot_in_area [of x old _ 0 14] ctx_facts(3) in fastforce)
  moreover have "regs s1 r = regs s r" if "r \<notin> fst ` set ctx_slots" for r unfolding S(2) by (rule loaded_out [OF that])
  ultimately show ?thesis using L(1) L(1) [OF ra] S(3) S2(3) again again [OF ra] by auto
qed

lemma ctx_apartI:
  assumes "unat p + 112 \<le> unat q \<or> unat q + 112 \<le> unat p" "unat p + 112 < 2 ^ 64" "unat q + 112 < 2 ^ 64"
  shows "ctx_apart p q"
  unfolding ctx_apart_def
proof (intro allI impI)
  fix j k :: nat assume jk: "j < 14" "k < 14"
  have "unat (p + of_nat (8 * j)) = unat p + 8 * j" "unat (q + of_nat (8 * k)) = unat q + 8 * k"
    using assms(2,3) jk by (intro unat_plus_of_nat; simp)+
  then have "unat (p + of_nat (8 * j)) \<noteq> unat (q + of_nat (8 * k))" using assms(1) jk by auto
  then show "p + 8 * of_nat j \<noteq> q + 8 * of_nat k" by auto
qed

theorem swtch_resumes_witness:
  "\<exists>tr (s :: hart) s2. regs s A0 = 0x87000000 \<and> regs s2 A1 = 0x87000000 \<and> goes (run tr swtch s2) = JumpTo (regs s RA) \<and>
     (\<forall>(r, k) \<in> set ctx_slots. regs (run tr swtch s2) r = regs s r)"
proof -
  define tr :: mmu where "tr = (\<lambda>_ va. va)"
  define s where "s = \<lparr>regs = (\<lambda>r. if r = A0 then 0x87000000 else if r = A1 then 0x87001000 else 0x80001234), csrs = (\<lambda>_. 5), hmem = (\<lambda>_. 0), goes = Next\<rparr>"
  define s2 where "s2 = (run tr swtch s)\<lparr>regs := (\<lambda>r. if r = A0 then 0x87002000 else 0x87000000)\<rparr>"
  have dm: "direct_map tr x p" if "8 dvd unat p" for x p using that by (simp add: direct_map_def tr_def aligned8_def)
  have "(\<forall>(r, k) \<in> set ctx_slots. regs (run tr swtch s2) r = regs s r) \<and> goes (run tr swtch s2) = JumpTo (regs s RA)"
    using swtch_resumes [of tr s "0x87000000" "0x87001000" "run tr swtch s" s2 "0x87002000" "run tr swtch s2"] dm
    by (simp add: ctx_apartI s_def s2_def)
  moreover have "regs s A0 = 0x87000000" "regs s2 A1 = 0x87000000" by (simp_all add: s_def s2_def)
  ultimately show ?thesis by blast
qed

section \<open>Traps from kernel code\<close>

text \<open>The registers \<open>kernelvec\<close> saves above the new stack pointer, besides \<open>sp\<close> and \<open>tp\<close>, and those a C function preserves.\<close>

definition kv_slots :: "(reg \<times> nat) list" where
  "kv_slots = [(GP, 2), (T0, 4), (T1, 5), (T2, 6), (A0, 9), (A1, 10), (A2, 11), (A3, 12), (A4, 13), (A5, 14), (A6, 15), (A7, 16),
     (T3, 27), (T4, 28), (T5, 29), (T6, 30)]"

definition callee_saved :: "reg set" where
  "callee_saved = {SP, S0, S1, S2, S3, S4, S5, S6, S7, S8, S9, S10, S11}"

definition kv_saved :: "(reg \<times> nat) list" where
  "kv_saved = [(RA, 0), (SP, 1), (GP, 2), (TP, 3)] @ tl kv_slots"

lemma kernelvec_in_eq: "kernelvec_in = [Addi SP SP (- 256)] @ saves SP kv_saved"
  by (simp add: kernelvec_in_def saves_def kv_slots_def kv_saved_def)

lemma kernelvec_out_eq:
  "kernelvec_out = loads SP [(RA, 0)] @ [Ld SP 8 SP] @ loads SP kv_slots @ [Addi SP SP 256, Sret]"
  by (simp add: kernelvec_out_def loads_def kv_slots_def)

lemma kv_facts:
  "distinct (map fst kv_slots)" "distinct (map snd kv_saved)" "set kv_slots \<subseteq> set kv_saved"
  "\<And>r k. (r, k) \<in> set kv_saved \<Longrightarrow> k < 32 \<and> r \<noteq> ZERO" "\<And>r k. (r, k) \<in> set kv_slots \<Longrightarrow> r \<noteq> SP \<and> r \<noteq> RA \<and> r \<noteq> TP"
  "\<And>r. r \<notin> {ZERO, TP, RA} \<union> callee_saved \<Longrightarrow> \<exists>k. (r, k) \<in> set kv_slots"
proof -
  show "distinct (map fst kv_slots)" "distinct (map snd kv_saved)" "set kv_slots \<subseteq> set kv_saved" by (auto simp: kv_slots_def kv_saved_def)
  show "k < 32 \<and> r \<noteq> ZERO" if "(r, k) \<in> set kv_saved" for r k using that by (auto simp: kv_slots_def kv_saved_def)
  show "r \<noteq> SP \<and> r \<noteq> RA \<and> r \<noteq> TP" if "(r, k) \<in> set kv_slots" for r k using that by (auto simp: kv_slots_def)
  show "\<exists>k. (r, k) \<in> set kv_slots" if "r \<notin> {ZERO, TP, RA} \<union> callee_saved" for r
    using that by (cases r) (simp_all add: kv_slots_def callee_saved_def)
qed

definition stack_ok :: "mmu \<Rightarrow> u64 \<Rightarrow> addr \<Rightarrow> bool" where
  "stack_ok tr satp p \<longleftrightarrow> aligned8 p \<and> (\<forall>k < 32. tr satp (p + 8 * of_nat k) = p + 8 * of_nat k)"

lemma kernelvec_in_spec:
  assumes ok: "stack_ok tr (csrs s Satp) p" and p: "p = regs s SP - 256" and s1: "s1 = run tr kernelvec_in s"
  shows "regs s1 = (regs s)(SP := p)" "csrs s1 = csrs s" "\<forall>x. \<not> in_range x p 256 \<longrightarrow> hmem s1 x = hmem s x"
    "(r, k) \<in> set kv_saved \<Longrightarrow> load64 (hmem s1) (p + 8 * of_nat k) = (if r = SP then p else regs s r)"
proof -
  define sa where "sa = s\<lparr>regs := (regs s)(SP := p)\<rparr>"
  have a: "run tr [Addi SP SP (- 256)] s = sa" by (simp add: run_def sa_def set_reg_def rd_def p)
  have "run tr (saves SP kv_saved) sa = sa\<lparr>hmem := stored p (rd sa) kv_saved (hmem sa)\<rparr>"
  proof (rule run_saves)
    fix r k assume "(r, k) \<in> set kv_saved"
    then have "k < 32" using kv_facts(4) by blast
    then show "phys_of tr sa (rd sa SP + 8 * of_nat k) = p + 8 * of_nat k"
      using ok by (simp add: phys_of_def rd_def sa_def stack_ok_def)
  qed
  then have e: "s1 = sa\<lparr>hmem := stored p (rd sa) kv_saved (hmem s)\<rparr>" unfolding s1 kernelvec_in_eq run_append a by (simp add: sa_def)
  show "regs s1 = (regs s)(SP := p)" "csrs s1 = csrs s" unfolding e by (simp_all add: sa_def)
  have "hmem s1 x = hmem s x" if "\<not> in_range x p 256" for x
  proof -
    have "\<not> in_range x (p + 8 * of_nat k) 8" if "k < 32" for k using slot_in_area [of x p k 0 32] \<open>\<not> in_range x p 256\<close> that by auto
    then have "stored p (rd sa) kv_saved (hmem s) x = hmem s x" using kv_facts(4) by (intro stored_outside) blast
    then show ?thesis unfolding e by simp
  qed
  then show "\<forall>x. \<not> in_range x p 256 \<longrightarrow> hmem s1 x = hmem s x" by blast
  show "load64 (hmem s1) (p + 8 * of_nat k) = (if r = SP then p else regs s r)" if rk: "(r, k) \<in> set kv_saved"
  proof -
    have al: "aligned8 p" using ok by (simp add: stack_ok_def)
    have "load64 (stored p (rd sa) kv_saved (hmem s)) (p + 8 * of_nat k) = rd sa r"
      by (rule load_stored_in [OF al kv_facts(2) _ rk]) (use kv_facts(4) in fastforce)
    then show ?thesis using kv_facts(4) [OF rk] unfolding e by (simp add: rd_def sa_def)
  qed
qed

lemma kernelvec_out_spec:
  assumes ok: "stack_ok tr (csrs s Satp) p" and p: "regs s SP = p" "load64 (hmem s) (p + 8) = p" and s1: "s1 = run tr kernelvec_out s"
  shows "hmem s1 = hmem s" "goes s1 = ToTrapped" "regs s1 SP = p + 256" "regs s1 RA = load64 (hmem s) p"
    "(r, k) \<in> set kv_slots \<Longrightarrow> regs s1 r = load64 (hmem s) (p + 8 * of_nat k)"
    "r \<notin> fst ` set kv_slots \<Longrightarrow> r \<noteq> SP \<Longrightarrow> r \<noteq> RA \<Longrightarrow> regs s1 r = regs s r"
proof -
  define sa where "sa = s\<lparr>regs := (regs s)(RA := load64 (hmem s) p)\<rparr>"
  have tr: "tr (csrs s Satp) (p + 8 * of_nat k) = p + 8 * of_nat k" if "k < 32" for k using ok that by (simp add: stack_ok_def)
  have a: "run tr [Ld SP 8 SP] (run tr (loads SP [(RA, 0)]) s) = sa"
    using tr [of 0] tr [of 1] p by (simp add: run_def loads_def set_reg_def phys_of_def rd_def sa_def fun_upd_idem)
  have b: "run tr (loads SP kv_slots) sa = sa\<lparr>regs := loaded p (hmem sa) kv_slots (regs sa)\<rparr>" (is "_ = ?sb")
  proof (rule run_loads)
    fix r k assume rk: "(r, k) \<in> set kv_slots"
    then have "k < 32" using kv_facts(3,4) by blast
    then show "phys_of tr sa (rd sa SP + 8 * of_nat k) = p + 8 * of_nat k \<and> r \<noteq> SP"
      using tr p(1) kv_facts(5) [OF rk] by (simp add: phys_of_def rd_def sa_def)
  qed
  have sp: "SP \<notin> fst ` set kv_slots" "RA \<notin> fst ` set kv_slots" using kv_facts(5) by fastforce+
  have "s1 = run tr [Addi SP SP 256, Sret] ?sb" unfolding s1 kernelvec_out_eq run_append a b ..
  then have e: "s1 = ?sb\<lparr>regs := (regs ?sb)(SP := p + 256), goes := ToTrapped\<rparr>"
    using sp(1) p(1) by (simp add: run_def set_reg_def rd_def loaded_out sa_def)
  show "hmem s1 = hmem s" "goes s1 = ToTrapped" "regs s1 SP = p + 256" unfolding e by (simp_all add: sa_def)
  show "regs s1 RA = load64 (hmem s) p" unfolding e using loaded_out [OF sp(2)] by (simp add: sa_def)
  show "regs s1 r = load64 (hmem s) (p + 8 * of_nat k)" if "(r, k) \<in> set kv_slots"
    unfolding e using loaded_in [OF kv_facts(1) that] kv_facts(5) [OF that] by (simp add: sa_def)
  show "regs s1 r = regs s r" if "r \<notin> fst ` set kv_slots" "r \<noteq> SP" "r \<noteq> RA"
    unfolding e using loaded_out [OF that(1)] that(2,3) by (simp add: sa_def)
qed



end
