(* ===== verification/Boot.thy ===== *)
theory Boot
  imports Asm
begin

text \<open>
  What every hart does before \<open>main\<close>: \<open>kernel/entry.S\<close> gives it a stack, \<open>kernel/start.c\<close> programs
  the control registers in machine mode and leaves for \<open>main\<close> in supervisor mode. Also the writes that
  configure the interrupt controller in \<open>kernel/plic.c\<close>.
\<close>

section \<open>The stack of a hart\<close>

text \<open>\<open>entry.S\<close> before the call of \<open>start\<close>, with the address the linker gives \<open>stack0\<close>.\<close>

definition entry_sp :: "u64 \<Rightarrow> u64 \<Rightarrow> u64" where
  "entry_sp stack0 mhartid =
     (let a0 = 1024 * 4; a1 = mhartid; a1 = a1 + 1; a0 = a0 * a1 in stack0 + a0)"

text \<open>The stack grows down from \<open>entry_sp\<close>; it is a page of the array \<open>stack0\<close> of \<open>NCPU\<close> pages.\<close>

definition stack_of :: "u64 \<Rightarrow> nat \<Rightarrow> nat set" where
  "stack_of stack0 h = {x. unat (entry_sp stack0 (of_nat h)) - 4096 \<le> x \<and> x < unat (entry_sp stack0 (of_nat h))}"

lemma entry_sp_unat:
  assumes "unat stack0 + 8 * 4096 < 2 ^ 64" "h < 8"
  shows "unat (entry_sp stack0 (of_nat h)) = unat stack0 + (h + 1) * 4096"
proof -
  have "entry_sp stack0 (of_nat h) = stack0 + of_nat ((h + 1) * 4096)" by (simp add: entry_sp_def Let_def algebra_simps)
  then show ?thesis using unat_plus_of_nat [of stack0 "(h + 1) * 4096"] assms by simp
qed

lemma stacks_disjoint:
  assumes "unat stack0 + 8 * 4096 < 2 ^ 64" "h < 8" "h' < 8" "h \<noteq> h'"
  shows "stack_of stack0 h \<inter> stack_of stack0 h' = {}"
    and "stack_of stack0 h \<subseteq> {unat stack0 ..< unat stack0 + 8 * 4096}"
proof -
  show "stack_of stack0 h \<inter> stack_of stack0 h' = {}"
    using assms(2-4) entry_sp_unat [OF assms(1)] by (auto simp: stack_of_def)
  show "stack_of stack0 h \<subseteq> {unat stack0 ..< unat stack0 + 8 * 4096}"
    using assms(2) entry_sp_unat [OF assms(1,2)] by (auto simp: stack_of_def)
qed

section \<open>Machine mode\<close>

record mcsrs =
  mstatus :: u64
  mepc :: u64
  msatp :: u64
  medeleg :: u64
  mideleg :: u64
  sie :: u64
  pmpaddr0 :: u64
  pmpcfg0 :: u64
  mie :: u64
  menvcfg :: u64
  mcounteren :: u64
  stimecmp :: u64
  mtime :: u64
  mhartid :: u64
  mtp :: u64

definition timerinit :: "mcsrs \<Rightarrow> mcsrs" where
  "timerinit s =
     (let s1 = s\<lparr>mie := mie s OR push_bit 5 1\<rparr>;
          s2 = s1\<lparr>menvcfg := menvcfg s1 OR push_bit 63 1\<rparr>;
          s3 = s2\<lparr>mcounteren := mcounteren s2 OR 2\<rparr>
      in s3\<lparr>stimecmp := mtime s3 + 1000000\<rparr>)"

text \<open>\<open>start\<close>: the state in which it executes \<open>mret\<close>.\<close>

definition start :: "u64 \<Rightarrow> mcsrs \<Rightarrow> mcsrs" where
  "start main s =
     (let x = mstatus s; x = x AND NOT (push_bit 11 3); x = x OR push_bit 11 1;
          s1 = s\<lparr>mstatus := x, mepc := main, msatp := 0, medeleg := 0xffff, mideleg := 0xffff\<rparr>;
          s2 = s1\<lparr>sie := sie s1 OR push_bit 9 1 OR push_bit 5 1 OR push_bit 1 1\<rparr>;
          s3 = timerinit (s2\<lparr>pmpaddr0 := 0x3fffffffffffff, pmpcfg0 := 0xf\<rparr>)
      in s3\<lparr>mtp := signed_take_bit 31 (mhartid s3)\<rparr>)"

text \<open>\<open>mret\<close> continues at \<open>mepc\<close> in the mode of the field \<open>MPP\<close>, bits 11 and 12 of \<open>mstatus\<close>.\<close>

definition mpp :: "mcsrs \<Rightarrow> u64" where
  "mpp s = take_bit 2 (drop_bit 11 (mstatus s))"

lemma start_enters_main:
  "mpp (start main s) = 1 \<and> mepc (start main s) = main \<and> msatp (start main s) = 0 \<and>
   bit (sie (start main s)) 9 \<and> bit (sie (start main s)) 5 \<and> bit (mie (start main s)) 5"
proof -
  have "mpp (start main s) = 1"
    by (rule bit_word_eqI) (auto simp: mpp_def start_def timerinit_def Let_def bit_take_bit_iff bit_drop_bit_eq bit_or_iff bit_and_iff bit_not_iff
        bit_push_bit_iff bit_1_iff less_2_cases_iff)
  then show ?thesis by (simp add: start_def timerinit_def Let_def bit_or_iff bit_push_bit_iff)
qed

section \<open>The interrupt controller\<close>

text \<open>The registers of the controller and what \<open>plic.c\<close> stores in them.\<close>

definition PLIC_SENABLE :: "u64 \<Rightarrow> u64" where "PLIC_SENABLE hart = PLIC + 0x2080 + hart * 0x100"
definition PLIC_SPRIORITY :: "u64 \<Rightarrow> u64" where "PLIC_SPRIORITY hart = PLIC + 0x201000 + hart * 0x2000"
definition PLIC_SCLAIM :: "u64 \<Rightarrow> u64" where "PLIC_SCLAIM hart = PLIC + 0x201004 + hart * 0x2000"

type_synonym plic = "u64 \<Rightarrow> u32"

definition plicinit :: "plic \<Rightarrow> plic" where
  "plicinit m = m(PLIC + 10 * 4 := 1, PLIC + 1 * 4 := 1)"

definition plicinithart :: "u64 \<Rightarrow> plic \<Rightarrow> plic" where
  "plicinithart hart m = m(PLIC_SENABLE hart := push_bit 10 1 OR push_bit 1 1, PLIC_SPRIORITY hart := 0)"

definition plic_complete :: "u64 \<Rightarrow> u32 \<Rightarrow> plic \<Rightarrow> plic" where
  "plic_complete hart irq m = m(PLIC_SCLAIM hart := irq)"

text \<open>An interrupt source is delivered to a hart when its priority exceeds the hart's threshold and its enable bit is set.\<close>

definition delivers :: "plic \<Rightarrow> u64 \<Rightarrow> nat \<Rightarrow> bool" where
  "delivers m hart irq \<longleftrightarrow> bit (m (PLIC_SENABLE hart)) irq \<and> m (PLIC_SPRIORITY hart) < m (PLIC + of_nat irq * 4)"

lemma plic_delivers:
  assumes "h < 8" "irq = 1 \<or> irq = 10"
  shows "delivers (plicinithart (of_nat h) (plicinit m)) (of_nat h) irq"
proof -
  have "h \<in> {0, 1, 2, 3, 4, 5, 6, 7}" using assms(1) by auto
  then show ?thesis using assms(2)
    by (elim insertE emptyE; elim disjE)
      (simp_all add: delivers_def plicinithart_def plicinit_def PLIC_SENABLE_def PLIC_SPRIORITY_def PLIC_def bit_or_iff bit_push_bit_iff bit_1_iff)
qed

end
