(* ===== verification/Grep.thy ===== *)
theory Grep
  imports Prelude
begin

text \<open>
  \<open>user/grep.c\<close>: the pattern matcher and the search loop. A C string is the list of its characters
  before the terminating NUL; the search buffer is the list of its \<open>m\<close> characters. What \<open>read\<close> delivers is a
  list of pieces: a call returns at most as much as it asks for of the first piece.
\<close>

section \<open>The matcher\<close>

function (sequential) matchhere :: "string \<Rightarrow> string \<Rightarrow> bool" and matchstar :: "char \<Rightarrow> string \<Rightarrow> string \<Rightarrow> bool" where
  "matchhere [] tx = True"
| "matchhere (c # re) tx =
     (if re \<noteq> [] \<and> hd re = CHR ''*'' then matchstar c (tl re) tx
      else if c = CHR ''$'' \<and> re = [] then tx = []
      else if tx \<noteq> [] \<and> (c = CHR ''.'' \<or> c = hd tx) then matchhere re (tl tx)
      else False)"
| "matchstar c re tx =
     (if matchhere re tx then True
      else if tx \<noteq> [] \<and> (hd tx = c \<or> c = CHR ''.'') then matchstar c re (tl tx)
      else False)"
  by pat_completeness auto
termination
  by (relation "measures [\<lambda>x. case x of Inl (re, _) \<Rightarrow> 2 * length re | Inr (_, re, _) \<Rightarrow> 2 * length re + 1,
    \<lambda>x. case x of Inl (_, tx) \<Rightarrow> length tx | Inr (_, _, tx) \<Rightarrow> length tx]") auto

declare matchhere.simps(2) [simp del] matchstar.simps [simp del]

text \<open>The loop of \<open>match\<close> over the positions of the text, its end included.\<close>

fun match_from :: "string \<Rightarrow> string \<Rightarrow> bool" where
  "match_from re [] = matchhere re []"
| "match_from re (t # ts) = (matchhere re (t # ts) \<or> match_from re ts)"

definition match :: "string \<Rightarrow> string \<Rightarrow> bool" where
  "match re tx = (if re \<noteq> [] \<and> hd re = CHR ''^'' then matchhere (tl re) tx else match_from re tx)"

section \<open>What a pattern means\<close>

text \<open>A pattern is a sequence of items: one character, any number of a character, the end of the line.\<close>

datatype item = One char | Star char | End

fun items :: "string \<Rightarrow> item list" where
  "items [] = []"
| "items (c # re) =
     (if re \<noteq> [] \<and> hd re = CHR ''*'' then Star c # items (tl re)
      else if c = CHR ''$'' \<and> re = [] then [End] else One c # items re)"

definition fits :: "char \<Rightarrow> char \<Rightarrow> bool" where
  "fits c t \<longleftrightarrow> c = CHR ''.'' \<or> c = t"

text \<open>\<open>denotes is w rest\<close>: the items stand for the string \<open>w\<close>, followed by \<open>rest\<close>.\<close>

fun denotes :: "item list \<Rightarrow> string \<Rightarrow> string \<Rightarrow> bool" where
  "denotes [] w rest \<longleftrightarrow> w = []"
| "denotes (One c # is) w rest \<longleftrightarrow> (\<exists>t v. w = t # v \<and> fits c t \<and> denotes is v rest)"
| "denotes (Star c # is) w rest \<longleftrightarrow> (\<exists>u v. w = u @ v \<and> (\<forall>t \<in> set u. fits c t) \<and> denotes is v rest)"
| "denotes (End # is) w rest \<longleftrightarrow> w = [] \<and> rest = []"

lemma star_unfold:
  "(\<exists>u v rest. tx = u @ v @ rest \<and> (\<forall>t \<in> set u. P t) \<and> Q v rest) \<longleftrightarrow>
     (\<exists>v rest. tx = v @ rest \<and> Q v rest) \<or>
     (\<exists>t ts. tx = t # ts \<and> P t \<and> (\<exists>u v rest. ts = u @ v @ rest \<and> (\<forall>t \<in> set u. P t) \<and> Q v rest))"
  (is "?L \<longleftrightarrow> ?A \<or> ?B")
proof
  assume ?L
  then obtain u v rest where u: "tx = u @ v @ rest" "\<forall>t \<in> set u. P t" "Q v rest" by blast
  show "?A \<or> ?B"
  proof (cases u)
    case Nil
    then show ?thesis using u by auto
  next
    case (Cons t u')
    then have "tx = t # (u' @ v @ rest)" "P t" "\<forall>t \<in> set u'. P t" using u by auto
    then show ?thesis using u(3) by blast
  qed
next
  assume "?A \<or> ?B"
  then show ?L
  proof
    assume ?A
    then obtain v rest where "tx = [] @ v @ rest" "Q v rest" by auto
    moreover have "\<forall>t \<in> set []. P t" by simp
    ultimately show ?L by blast
  next
    assume ?B
    then obtain t u v rest where "tx = (t # u) @ v @ rest" "\<forall>t \<in> set (t # u). P t" "Q v rest" by auto
    then show ?L by blast
  qed
qed

lemma matchhere_denotes:
  "matchhere re tx \<longleftrightarrow> (\<exists>w rest. tx = w @ rest \<and> denotes (items re) w rest)"
  "matchstar c re tx \<longleftrightarrow> (\<exists>u w rest. tx = u @ w @ rest \<and> (\<forall>t \<in> set u. fits c t) \<and> denotes (items re) w rest)"
proof (induction re tx and c re tx rule: matchhere_matchstar.induct)
  case (2 c re tx)
  consider (star) "re \<noteq> [] \<and> hd re = CHR ''*''" | (dollar) "\<not> (re \<noteq> [] \<and> hd re = CHR ''*'')" "c = CHR ''$'' \<and> re = []"
    | (one) "\<not> (re \<noteq> [] \<and> hd re = CHR ''*'')" "\<not> (c = CHR ''$'' \<and> re = [])" by blast
  then show ?case
  proof cases
    case star
    then have "matchhere (c # re) tx \<longleftrightarrow> (\<exists>u w rest. tx = u @ w @ rest \<and> (\<forall>t \<in> set u. fits c t) \<and> denotes (items (tl re)) w rest)"
      using 2(1) [OF star] by (simp add: matchhere.simps(2))
    also have "\<dots> \<longleftrightarrow> (\<exists>w rest. tx = w @ rest \<and> denotes (Star c # items (tl re)) w rest)"
      unfolding append.assoc [symmetric] denotes.simps by blast
    finally show ?thesis using star by simp
  next
    case dollar
    then show ?thesis by (simp add: matchhere.simps(2))
  next
    case one
    have e: "items (c # re) = One c # items re" using one by auto
    have "matchhere (c # re) tx \<longleftrightarrow> tx \<noteq> [] \<and> fits c (hd tx) \<and> matchhere re (tl tx)"
      using one by (auto simp: matchhere.simps(2) fits_def)
    also have "\<dots> \<longleftrightarrow> (\<exists>t ts. tx = t # ts \<and> fits c t \<and> (\<exists>w rest. ts = w @ rest \<and> denotes (items re) w rest))"
    proof (cases "tx \<noteq> [] \<and> fits c (hd tx)")
      case True
      then have "tx \<noteq> [] \<and> (c = CHR ''.'' \<or> c = hd tx)" by (simp add: fits_def)
      from 2(2) [OF one this] show ?thesis using True by (cases tx) simp_all
    next
      case False
      then show ?thesis by (cases tx) simp_all
    qed
    also have "\<dots> \<longleftrightarrow> (\<exists>w rest. tx = w @ rest \<and> denotes (One c # items re) w rest)"
      unfolding denotes.simps by (metis append_Cons)
    finally show ?thesis unfolding e .
  qed
next
  case (3 c re tx)
  have "matchstar c re tx \<longleftrightarrow> matchhere re tx \<or> (\<exists>t ts. tx = t # ts \<and> fits c t \<and> matchstar c re ts)"
    by (subst matchstar.simps) (cases tx, auto simp: fits_def)
  also have "\<dots> \<longleftrightarrow> (\<exists>w rest. tx = w @ rest \<and> denotes (items re) w rest) \<or> (\<exists>t ts. tx = t # ts \<and> fits c t \<and>
      (\<exists>u w rest. ts = u @ w @ rest \<and> (\<forall>t \<in> set u. fits c t) \<and> denotes (items re) w rest))"
  proof (cases "matchhere re tx")
    case True
    then show ?thesis using 3(1) by simp
  next
    case False
    show ?thesis
    proof (cases "tx \<noteq> [] \<and> (hd tx = c \<or> c = CHR ''.'')")
      case True
      from 3(2) [OF False True] show ?thesis using 3(1) True by (cases tx) simp_all
    next
      case no: False
      then show ?thesis using 3(1) by (cases tx) (auto simp: fits_def)
    qed
  qed
  finally show ?case unfolding star_unfold [of tx "fits c" "denotes (items re)"] .
qed simp

lemma match_from_denotes:
  "match_from re tx \<longleftrightarrow> (\<exists>pre w rest. tx = pre @ w @ rest \<and> denotes (items re) w rest)"
proof (induction tx)
  case Nil
  show ?case unfolding match_from.simps matchhere_denotes by auto
next
  case (Cons t ts)
  have "(\<exists>pre w rest. t # ts = pre @ w @ rest \<and> denotes (items re) w rest) \<longleftrightarrow>
      (\<exists>w rest. t # ts = w @ rest \<and> denotes (items re) w rest) \<or> (\<exists>pre w rest. ts = pre @ w @ rest \<and> denotes (items re) w rest)"
    using star_unfold [of "t # ts" "\<lambda>_. True" "denotes (items re)"] by simp
  then show ?case unfolding match_from.simps matchhere_denotes Cons.IH by blast
qed

text \<open>
  C36. The matcher decides exactly what its patterns mean: \<open>match re text\<close> holds iff some part of the text,
  at its beginning if the pattern starts with \<open>^\<close>, is described by the items of the pattern
  in order, where \<open>c*\<close> is any number of characters \<open>c\<close>, \<open>.\<close> is any character and a final \<open>$\<close> the end of the text.
  The recursion with its greedy-looking loop neither misses a match nor invents one, for any pattern and text.
\<close>

theorem match_correct:
  "match re tx \<longleftrightarrow>
     (if re \<noteq> [] \<and> hd re = CHR ''^'' then \<exists>w rest. tx = w @ rest \<and> denotes (items (tl re)) w rest
      else \<exists>pre w rest. tx = pre @ w @ rest \<and> denotes (items re) w rest)"
  by (simp add: match_def matchhere_denotes match_from_denotes)

section \<open>The search loop\<close>

abbreviation (input) newline :: char where "newline \<equiv> CHR 0x0A"
abbreviation (input) nul :: char where "nul \<equiv> CHR 0x00"

text \<open>\<open>strchr\<close> of \<open>user/ulib.c\<close>: the offset of the first \<open>c\<close>, unless a NUL comes first.\<close>

fun strchr :: "string \<Rightarrow> char \<Rightarrow> nat option" where
  "strchr [] c = None"
| "strchr (x # xs) c = (if x = nul then None else if x = c then Some 0 else map_option Suc (strchr xs c))"

lemma strchr_less: "strchr p c = Some k \<Longrightarrow> k < length p"
  by (induction p arbitrary: k) (auto split: if_splits)

text \<open>The inner loop: what it writes, and the part of the buffer after the last newline.\<close>

function scan :: "string \<Rightarrow> string \<Rightarrow> string \<times> string" where
  "scan pattern p =
     (case strchr p newline of
        None \<Rightarrow> ([], p)
      | Some q \<Rightarrow> (case scan pattern (drop (q + 1) p) of (out, rest) \<Rightarrow>
          ((if match pattern (take q p) then take q p @ [newline] else []) @ out, rest)))"
  by pat_completeness auto
termination
  by (relation "measure (\<lambda>(pattern, p). length p)") (auto dest: strchr_less)

declare scan.simps [simp del]

definition read :: "nat \<Rightarrow> string list \<Rightarrow> string \<times> string list" where
  "read n ins = (case ins of [] \<Rightarrow> ([], []) | c # cs \<Rightarrow> (take n c, if length c \<le> n then cs else drop n c # cs))"

lemma read_concat: "read n ins = (d, ins') \<Longrightarrow> concat ins = d @ concat ins'"
  by (auto simp: read_def split: list.splits if_splits)

lemma read_shrinks: "(d, ins') = read n ins \<Longrightarrow> d \<noteq> [] \<Longrightarrow> length (concat ins') < length (concat ins)"
  using read_concat [of n ins d ins'] by (simp del: length_concat)

text \<open>\<open>grep\<close> with the first \<open>m\<close> characters of its buffer of 1024; it stops when \<open>read\<close> returns nothing.\<close>

function grep :: "string \<Rightarrow> string \<Rightarrow> string list \<Rightarrow> string" where
  "grep pattern buf ins =
     (case read (1024 - length buf - 1) ins of (d, ins') \<Rightarrow>
        if d = [] then []
        else (case scan pattern (buf @ d) of (out, rest) \<Rightarrow> out @ grep pattern rest ins'))"
  by pat_completeness auto
termination
  by (relation "measure (\<lambda>(pattern, buf, ins). length (concat ins))") (auto simp del: length_concat intro: read_shrinks)

declare grep.simps [simp del]

text \<open>The lines of a text, each ended by a newline, and what follows the last one.\<close>

fun text_lines :: "string \<Rightarrow> string list \<times> string" where
  "text_lines [] = ([], [])"
| "text_lines (x # xs) =
     (case text_lines xs of
        (ls, rest) \<Rightarrow> if x = newline then ([] # ls, rest)
                      else (case ls of [] \<Rightarrow> ([], x # rest) | l # ls' \<Rightarrow> ((x # l) # ls', rest)))"

definition matching :: "string \<Rightarrow> string list \<Rightarrow> string" where
  "matching pattern ls = concat (map (\<lambda>l. l @ [newline]) (filter (match pattern) ls))"

lemma lines_none: "newline \<notin> set p \<Longrightarrow> text_lines p = ([], p)"
  by (induction p) auto

lemma lines_rest: "newline \<notin> set (snd (text_lines p))" "set (snd (text_lines p)) \<subseteq> set p"
  by (induction p) (auto split: prod.splits list.splits)

lemma lines_append:
  "text_lines (p @ q) = (fst (text_lines p) @ fst (text_lines (snd (text_lines p) @ q)), snd (text_lines (snd (text_lines p) @ q)))"
  by (induction p) (auto split: prod.splits list.splits)

lemma lines_first: "newline \<notin> set l \<Longrightarrow> text_lines (l @ newline # r) = (l # fst (text_lines r), snd (text_lines r))"
  by (induction l) (auto split: prod.splits)

lemma lines_long: "newline \<notin> set b \<Longrightarrow> l \<in> set (take 1 (fst (text_lines (b @ q)))) \<Longrightarrow> length b \<le> length l"
  by (induction b arbitrary: l) (auto split: prod.splits list.splits)

lemma strchr_cases:
  assumes "nul \<notin> set p" "c \<noteq> nul"
  shows "strchr p c = None \<Longrightarrow> c \<notin> set p"
    and "strchr p c = Some q \<Longrightarrow> p = take q p @ c # drop (q + 1) p \<and> c \<notin> set (take q p)"
  using assms by (induction p arbitrary: q) (auto split: if_splits)

lemma scan_lines: "nul \<notin> set p \<Longrightarrow> scan pattern p = (matching pattern (fst (text_lines p)), snd (text_lines p))"
proof (induction pattern p rule: scan.induct)
  case (1 pattern p)
  show ?case
  proof (cases "strchr p newline")
    case None
    then have "newline \<notin> set p" using strchr_cases(1) [OF 1(2)] by simp
    then show ?thesis using None by (subst scan.simps) (simp add: lines_none matching_def)
  next
    case (Some q)
    let ?l = "take q p" and ?r = "drop (q + 1) p"
    have p: "p = ?l @ newline # ?r" "newline \<notin> set ?l" using strchr_cases(2) [OF 1(2) _ Some] by simp_all
    have "nul \<notin> set ?r" using 1(2) set_drop_subset [of "q + 1" p] by blast
    from 1(1) [OF Some this] have "scan pattern ?r = (matching pattern (fst (text_lines ?r)), snd (text_lines ?r))" .
    moreover have "text_lines p = (?l # fst (text_lines ?r), snd (text_lines ?r))"
      using lines_first [OF p(2), of ?r] p(1) by simp
    ultimately show ?thesis using Some by (subst scan.simps) (simp add: matching_def)
  qed
qed

lemma grep_lines:
  assumes "newline \<notin> set buf" "nul \<notin> set (buf @ concat ins)" "[] \<notin> set ins"
    and "\<forall>l \<in> set (fst (text_lines (buf @ concat ins))). length l < 1023"
  shows "grep pattern buf ins = matching pattern (fst (text_lines (buf @ concat ins)))"
  using assms
proof (induction pattern buf ins rule: grep.induct)
  case (1 pattern buf ins)
  obtain d ins' where r: "read (1024 - length buf - 1) ins = (d, ins')" by force
  show ?case
  proof (cases "d = []")
    case True
    have "fst (text_lines (buf @ concat ins)) = []"
    proof (cases ins)
      case Nil
      then show ?thesis using 1(2) by (simp add: lines_none)
    next
      case (Cons c cs)
      then have "c \<noteq> []" using 1(4) by auto
      then have "1023 \<le> length buf" using r True Cons by (auto simp: read_def)
      show ?thesis
      proof (rule ccontr)
        assume "fst (text_lines (buf @ concat ins)) \<noteq> []"
        then obtain l ls where l: "fst (text_lines (buf @ concat ins)) = l # ls" by (meson neq_Nil_conv)
        then have "length buf \<le> length l" using lines_long [OF 1(2), of l "concat ins"] by simp
        then show False using 1(5) l \<open>1023 \<le> length buf\<close> by auto
      qed
    qed
    then show ?thesis using r True by (subst grep.simps) (simp add: matching_def)
  next
    case False
    let ?p = "buf @ d"
    note c = read_concat [OF r]
    have np: "nul \<notin> set ?p" using 1(3) unfolding c by auto
    have e: "text_lines (buf @ concat ins) = (fst (text_lines ?p) @ fst (text_lines (snd (text_lines ?p) @ concat ins')),
        snd (text_lines (snd (text_lines ?p) @ concat ins')))"
      using lines_append [of ?p "concat ins'"] unfolding c by simp
    have "grep pattern (snd (text_lines ?p)) ins' = matching pattern (fst (text_lines (snd (text_lines ?p) @ concat ins')))"
    proof (rule 1(1) [OF r [symmetric] False scan_lines [OF np, symmetric]])
      show "newline \<notin> set (snd (text_lines ?p))" by (rule lines_rest)
      show "nul \<notin> set (snd (text_lines ?p) @ concat ins')" using np 1(3) lines_rest(2) [of ?p] unfolding c by auto
      show "[] \<notin> set ins'" using r 1(4) by (auto simp: read_def split: list.splits if_splits)
      show "\<forall>l \<in> set (fst (text_lines (snd (text_lines ?p) @ concat ins'))). length l < 1023" using 1(5) unfolding e by simp
    qed
    then show ?thesis unfolding e using r False by (subst grep.simps) (simp add: scan_lines [OF np] matching_def)
  qed
qed

text \<open>
  C37. \<open>grep\<close> prints exactly the lines that match, in order, however the input arrives. For
  a text without NUL characters whose terminated lines have fewer than 1023 characters, delivered by
  \<open>read\<close> in any non-empty pieces, the output is the concatenation of the newline-terminated
  lines of the text that the matcher accepts: a line split over several reads is put together again, and no line is
  lost or seen twice. What follows the last newline is not searched.
\<close>

theorem grep_correct:
  assumes "nul \<notin> set (concat ins)" "[] \<notin> set ins" "\<forall>l \<in> set (fst (text_lines (concat ins))). length l < 1023"
  shows "grep pattern [] ins = concat (map (\<lambda>l. l @ [newline]) (filter (match pattern) (fst (text_lines (concat ins)))))"
  using grep_lines [of "[]" ins pattern] assms by (simp add: matching_def)

theorem grep_correct_witness:
  "grep ''a*b$'' [] [''xaa'', ''b'', [newline], ''ab '' @ [newline] @ ''b''] = ''xaab'' @ [newline]"
proof -
  have m: "match ''a*b$'' ''xaab''" "\<not> match ''a*b$'' ''ab ''"
    by (simp_all add: match_def matchhere.simps(2) matchstar.simps)
  show ?thesis
    using grep_correct [of "[''xaa'', ''b'', [newline], ''ab '' @ [newline] @ ''b'']" "''a*b$''"] m by simp
qed

end
