(* ===== verification/Spec2Isabelle.thy ===== *)
theory Spec2Isabelle
  imports Kinit Trap Procs Pipes Consoles Crash Reserve Cow Virtio Boot Grep
begin

text \<open>
  A verification development for the RISC-V teaching kernel under \<open>src/\<close>: a buddy allocator with
  reference-counted pages, lazy and copy-on-write user memory, several scheduling policies,
  and the Unix file system of the original kernel.

  \<^item> \<open>Prelude\<close>: results with panics, little-endian byte memory, generic word lemmas.
  \<^item> \<open>Riscv\<close>: constants and page-table arithmetic of \<open>riscv.h\<close>, \<open>memlayout.h\<close>, \<open>param.h\<close>.
  \<^item> \<open>Cstring\<close>: the routines of \<open>string.c\<close> over byte memory.
  \<^item> \<open>Kalloc\<close>, \<open>Kpages\<close>: the buddy allocator and page interface of \<open>kalloc.c\<close>.
\<close>

end
